(* ===== verification/Js_Prelude.thy ===== *)
theory Js_Prelude
  imports Main "HOL-Library.Monad_Syntax" "HOL-Library.Multiset" "HOL-Library.Code_Target_Numeral"
begin

text \<open>
  The vocabulary shared by every component: JavaScript arrays as lists, reads and writes
  that leave the array as \<^term>\<open>None\<close>, the 32-bit shift operators, and the
  lemmas on slices and permutations that the component proofs use.

  Convention: a definition of type \<^typ>\<open>'a option\<close> returns \<^term>\<open>None\<close> where the
  JavaScript call does not return normally: it throws, it reads or writes outside an array
  (the source would go on with \<^verbatim>\<open>undefined\<close>), or it does not end.
\<close>

named_theorems js_simps \<open>equations that evaluate the modelled JavaScript primitives\<close>

section \<open>Arrays\<close>

definition aget :: "'a list \<Rightarrow> nat \<Rightarrow> 'a option" where
  "aget a i = (if i < length a then Some (a ! i) else None)"

definition aset :: "'a list \<Rightarrow> nat \<Rightarrow> 'a \<Rightarrow> 'a list option" where
  "aset a i v = (if i < length a then Some (a[i := v]) else None)"

definition pred_index :: "nat \<Rightarrow> nat option" where
  \<comment> \<open>\<^verbatim>\<open>i - 1\<close> as an index; below zero it lies outside every array\<close>
  "pred_index i = (if i = 0 then None else Some (i - 1))"

lemma aget_Some [simp, js_simps]: "i < length a \<Longrightarrow> aget a i = Some (a ! i)"
  by (simp add: aget_def)

lemma aset_Some [simp, js_simps]: "i < length a \<Longrightarrow> aset a i v = Some (a[i := v])"
  by (simp add: aset_def)

lemma pred_index_Some [simp, js_simps]: "0 < i \<Longrightarrow> pred_index i = Some (i - 1)"
  by (simp add: pred_index_def)

lemma aget_eq_Some_iff: "aget a i = Some v \<longleftrightarrow> i < length a \<and> v = a ! i"
  by (auto simp: aget_def)

lemma aset_eq_Some_iff: "aset a i v = Some b \<longleftrightarrow> i < length a \<and> b = a[i := v]"
  by (auto simp: aset_def)

lemma pred_index_eq_Some_iff: "pred_index i = Some j \<longleftrightarrow> i = Suc j"
  by (auto simp: pred_index_def)

section \<open>Loops over a list of indices\<close>

primrec ofold :: "('a \<Rightarrow> 's \<Rightarrow> 's option) \<Rightarrow> 'a list \<Rightarrow> 's \<Rightarrow> 's option" where
  \<comment> \<open>\<^verbatim>\<open>xs.forEach\<close>, or a \<^verbatim>\<open>for\<close> loop over the indices \<open>xs\<close>\<close>
  "ofold f [] s = Some s"
| "ofold f (x # xs) s = do { s' \<leftarrow> f x s; ofold f xs s' }"

lemma ofold_append: "ofold f (xs @ ys) s = do { s' \<leftarrow> ofold f xs s; ofold f ys s' }"
  by (induction xs arbitrary: s) (auto split: Option.bind_splits)

lemma ofold_cong [fundef_cong]:
  "\<lbrakk>xs = ys; s = t; \<And>x u. x \<in> set ys \<Longrightarrow> f x u = g x u\<rbrakk> \<Longrightarrow> ofold f xs s = ofold g ys t"
  by (induction xs arbitrary: ys s t) (auto split: Option.bind_splits)

lemma ofold_fold:
  "(\<And>x s. x \<in> set xs \<Longrightarrow> P s \<Longrightarrow> f x s = Some (h x s) \<and> P (h x s)) \<Longrightarrow> P s \<Longrightarrow>
     ofold f xs s = Some (fold h xs s) \<and> P (fold h xs s)"
  by (induction xs arbitrary: s) auto

lemma ofold_inv:
  "(\<And>x s. x \<in> set xs \<Longrightarrow> P s \<Longrightarrow> \<exists>s'. f x s = Some s' \<and> P s') \<Longrightarrow> P s \<Longrightarrow>
     \<exists>s'. ofold f xs s = Some s' \<and> P s'"
proof (induction xs arbitrary: s)
  case (Cons x xs)
  obtain s' where "f x s = Some s'" "P s'" using Cons.prems by (metis list.set_intros(1))
  then show ?case using Cons.IH [of s'] Cons.prems(1) by auto
qed simp

lemma ofold_upt_inv:
  assumes "a \<le> b" "P a s" "\<And>i s. a \<le> i \<Longrightarrow> i < b \<Longrightarrow> P i s \<Longrightarrow> \<exists>s'. f i s = Some s' \<and> P (Suc i) s'"
  shows "\<exists>s'. ofold f [a..<b] s = Some s' \<and> P b s'"
  using assms
proof (induction b)
  case (Suc b)
  show ?case
  proof (cases "a \<le> b")
    case True
    obtain s' where "ofold f [a..<b] s = Some s'" "P b s'"
      using Suc.IH Suc.prems True by (metis less_SucI)
    then show ?thesis using Suc.prems(3) [of b s'] True by (auto simp: ofold_append)
  next
    case False
    then have "a = Suc b" using Suc.prems(1) by simp
    then show ?thesis using Suc.prems(2) by simp
  qed
qed simp

section \<open>32-bit shifts\<close>

definition ushr1 :: "nat \<Rightarrow> nat" where
  \<comment> \<open>\<^verbatim>\<open>n >>> 1\<close>: the operand is taken modulo \<open>2 ^ 32\<close> first\<close>
  "ushr1 n = (n mod 2 ^ 32) div 2"

definition shl1 :: "nat \<Rightarrow> nat option" where
  \<comment> \<open>\<^verbatim>\<open>n << 1\<close>: a signed 32-bit result; a negative one is no index\<close>
  "shl1 n = (let w = (2 * n) mod 2 ^ 32 in if w < 2 ^ 31 then Some w else None)"

definition sar1 :: "nat \<Rightarrow> nat option" where
  \<comment> \<open>\<^verbatim>\<open>n >> 1\<close>: the operand is read as a signed 32-bit integer; a negative result is no index\<close>
  "sar1 n = (let w = n mod 2 ^ 32 in if w < 2 ^ 31 then Some (w div 2) else None)"

lemma sar1_exact [js_simps]: "n < 2 ^ 31 \<Longrightarrow> sar1 n = Some (n div 2)"
  by (simp add: sar1_def)

lemma ushr1_exact [js_simps]: "n < 2 ^ 32 \<Longrightarrow> ushr1 n = n div 2"
  by (simp add: ushr1_def)

lemma shl1_exact [js_simps]: "n < 2 ^ 30 \<Longrightarrow> shl1 n = Some (2 * n)"
  by (simp add: shl1_def)

section \<open>Slices and permutations inside a slice\<close>

definition slice :: "'a list \<Rightarrow> nat \<Rightarrow> nat \<Rightarrow> 'a list" where
  "slice a lo hi = take (hi - lo) (drop lo a)"

definition rearranged :: "nat \<Rightarrow> nat \<Rightarrow> 'a list \<Rightarrow> 'a list \<Rightarrow> bool" where
  \<comment> \<open>\<open>b\<close> is \<open>a\<close> with the elements of \<open>a[lo:hi]\<close> permuted\<close>
  "rearranged lo hi a b \<longleftrightarrow>
     mset b = mset a \<and> take lo b = take lo a \<and> drop hi b = drop hi a"

lemma length_slice [simp]: "hi \<le> length a \<Longrightarrow> length (slice a lo hi) = hi - lo"
  by (simp add: slice_def)

lemma nth_slice [simp]:
  "hi \<le> length a \<Longrightarrow> i < hi - lo \<Longrightarrow> slice a lo hi ! i = a ! (lo + i)"
  by (simp add: slice_def)

lemma slice_whole [simp]: "slice a 0 (length a) = a"
  by (simp add: slice_def)

lemma slice_empty [simp]: "hi \<le> lo \<Longrightarrow> slice a lo hi = []"
  by (simp add: slice_def)

lemma slice_append: "lo \<le> mid \<Longrightarrow> mid \<le> hi \<Longrightarrow> slice a lo hi = slice a lo mid @ slice a mid hi"
proof -
  assume "lo \<le> mid" "mid \<le> hi"
  then have "hi - lo = (mid - lo) + (hi - mid)" and "drop mid a = drop (mid - lo) (drop lo a)"
    by simp_all
  then show ?thesis by (simp only: slice_def take_add)
qed

lemma rearranged_refl [simp, intro]: "rearranged lo hi a a"
  by (simp add: rearranged_def)

lemma rearranged_trans [trans]: "rearranged lo hi a b \<Longrightarrow> rearranged lo hi b c \<Longrightarrow> rearranged lo hi a c"
  by (simp add: rearranged_def)

lemma rearranged_length: "rearranged lo hi a b \<Longrightarrow> length b = length a"
  unfolding rearranged_def by (metis size_mset)

lemma take_eq_le: "take m a = take m b \<Longrightarrow> n \<le> m \<Longrightarrow> take n a = take n b"
proof -
  assume eq: "take m a = take m b" and le: "n \<le> m"
  have "take n c = take n (take m c)" for c :: "'a list" using le by (simp add: min_def)
  then show ?thesis using eq by metis
qed

lemma drop_eq_le: "drop m a = drop m b \<Longrightarrow> m \<le> n \<Longrightarrow> drop n a = drop n b"
proof -
  assume eq: "drop m a = drop m b" and le: "m \<le> n"
  have "drop n c = drop (n - m) (drop m c)" for c :: "'a list" using le by simp
  then show ?thesis using eq by metis
qed

lemma rearranged_mono:
  "rearranged lo hi a b \<Longrightarrow> lo' \<le> lo \<Longrightarrow> hi \<le> hi' \<Longrightarrow> rearranged lo' hi' a b"
  unfolding rearranged_def by (auto intro: take_eq_le drop_eq_le)

lemma rearranged_nth_outside:
  assumes "rearranged lo hi a b" "i < lo \<or> hi \<le> i" "i < length a"
  shows "b ! i = a ! i"
  using assms(2)
proof
  assume "i < lo"
  then show ?thesis
    using assms(1) nth_take [of i lo a] nth_take [of i lo b] by (simp add: rearranged_def)
next
  assume "hi \<le> i"
  then show ?thesis
    using assms nth_drop [of hi a "i - hi"] nth_drop [of hi b "i - hi"] rearranged_length [OF assms(1)]
    by (simp add: rearranged_def)
qed

lemma rearranged_swap:
  assumes "lo \<le> i" "i < hi" "lo \<le> j" "j < hi" "hi \<le> length a"
  shows "rearranged lo hi a (a[i := a ! j, j := a ! i])"
  using assms by (simp add: rearranged_def mset_swap)

lemma rearranged_mset_slice:
  assumes "rearranged lo hi a b" "lo \<le> hi" "hi \<le> length a"
  shows "mset (slice b lo hi) = mset (slice a lo hi)"
proof -
  have split: "c = take lo c @ slice c lo hi @ drop hi c" for c :: "'a list"
  proof -
    have "drop hi c = drop (hi - lo) (drop lo c)" using assms(2) by simp
    then show ?thesis unfolding slice_def by (metis append_take_drop_id)
  qed
  have "mset (take lo a) + (mset (slice b lo hi) + mset (drop hi a)) =
        mset (take lo a) + (mset (slice a lo hi) + mset (drop hi a))"
    using assms(1) arg_cong [OF split [of a], of mset] arg_cong [OF split [of b], of mset]
    by (auto simp: rearranged_def)
  then show ?thesis by simp
qed

lemma slice_eq_of_take: "take m a = take m b \<Longrightarrow> hi \<le> m \<Longrightarrow> slice a lo hi = slice b lo hi"
proof -
  assume "take m a = take m b" "hi \<le> m"
  then have "take hi a = take hi b" by (rule take_eq_le)
  then show ?thesis unfolding slice_def by (metis drop_take)
qed

lemma slice_eq_of_drop: "drop m a = drop m b \<Longrightarrow> m \<le> lo \<Longrightarrow> slice a lo hi = slice b lo hi"
  unfolding slice_def using drop_eq_le [of m a b lo] by simp

lemma rearranged_slice_left: "rearranged lo hi a b \<Longrightarrow> r \<le> lo \<Longrightarrow> slice b l r = slice a l r"
  unfolding rearranged_def using slice_eq_of_take [of lo b a] by blast

lemma rearranged_slice_right: "rearranged lo hi a b \<Longrightarrow> hi \<le> l \<Longrightarrow> slice b l r = slice a l r"
  unfolding rearranged_def using slice_eq_of_drop [of hi b a] by blast

lemma set_slice: "hi \<le> length a \<Longrightarrow> set (slice a lo hi) = {a ! i | i. lo \<le> i \<and> i < hi}"
proof -
  assume hi: "hi \<le> length a"
  have "set (slice a lo hi) = {slice a lo hi ! i | i. i < hi - lo}"
    using hi by (simp add: set_conv_nth)
  also have "\<dots> = {a ! (lo + i) | i. i < hi - lo}"
    using hi by force
  also have "\<dots> = {a ! i | i. lo \<le> i \<and> i < hi}"
    by (force simp: le_iff_add)
  finally show ?thesis .
qed

lemma slice_Cons: "lo < hi \<Longrightarrow> hi \<le> length a \<Longrightarrow> slice a lo hi = a ! lo # slice a (Suc lo) hi"
proof -
  assume a: "lo < hi" "hi \<le> length a"
  then have "drop lo a = a ! lo # drop (Suc lo) a" "hi - lo = Suc (hi - Suc lo)"
    by (simp_all add: Cons_nth_drop_Suc)
  then show ?thesis by (simp only: slice_def take_Suc_Cons)
qed

lemma slice_snoc: "lo \<le> hi \<Longrightarrow> hi < length a \<Longrightarrow> slice a lo (Suc hi) = slice a lo hi @ [a ! hi]"
  using slice_append [of lo hi "Suc hi" a] slice_Cons [of hi "Suc hi" a] by simp

lemma filter_eq_slice:
  assumes "lo \<le> hi" "hi \<le> length a" "\<And>i. i < length a \<Longrightarrow> (lo \<le> i \<and> i < hi) = P (a ! i)"
  shows "slice a lo hi = filter P a"
proof -
  have split: "a = slice a 0 lo @ slice a lo hi @ slice a hi (length a)"
    using slice_append [of 0 lo "length a" a] slice_append [of lo hi "length a" a] assms by simp
  have "filter P (slice a 0 lo) = []" "filter P (slice a hi (length a)) = []"
    "filter P (slice a lo hi) = slice a lo hi"
    using assms(1,2) assms(3) [symmetric] by (auto simp: filter_empty_conv filter_id_conv set_slice)
  then have "filter P (slice a 0 lo @ slice a lo hi @ slice a hi (length a)) = slice a lo hi"
    by (simp only: filter_append append_Nil append_Nil2)
  with split show ?thesis by simp
qed

end
