(* ===== verification/Cf_Bisect.thy ===== *)
theory Cf_Bisect
  imports Js_Prelude
begin

text \<open>
  \<^verbatim>\<open>crossfilter.js\<close>, lines 3 to 57 and 485 to 503: the identity accessor,
  \<^verbatim>\<open>permute\<close>, the two binary searches of \<^verbatim>\<open>bisect_by\<close> and the three
  filters that turn a sorted array of values into a pair of bounds.

  Values are compared with the JavaScript operators \<^verbatim>\<open><\<close> and \<^verbatim>\<open><=\<close>, which are
  the operations of the class \<^verbatim>\<open>ord\<close>, without laws: a type with a \<^verbatim>\<open>NaN\<close> is an
  instance. The lemmas are about the naturally ordered values the library asks for, the
  class \<^verbatim>\<open>linorder\<close>.
\<close>

section \<open>Definitions\<close>

definition crossfilter_identity :: "'a \<Rightarrow> 'a" where
  "crossfilter_identity d = d"

definition permute :: "'a list \<Rightarrow> nat list \<Rightarrow> 'a list option" where
  "permute array index = those (map (aget array) index)"

partial_function (option) bisectLeft ::
  "('a \<Rightarrow> 'v::ord) \<Rightarrow> 'a list \<Rightarrow> 'v \<Rightarrow> nat \<Rightarrow> nat \<Rightarrow> nat option" where
  "bisectLeft f a x lo hi =
     (if lo < hi then do {
        let mid = ushr1 (lo + hi);
        d \<leftarrow> aget a mid;
        if f d < x then bisectLeft f a x (mid + 1) hi
        else bisectLeft f a x lo mid
      } else Some lo)"

partial_function (option) bisectRight ::
  "('a \<Rightarrow> 'v::ord) \<Rightarrow> 'a list \<Rightarrow> 'v \<Rightarrow> nat \<Rightarrow> nat \<Rightarrow> nat option" where
  "bisectRight f a x lo hi =
     (if lo < hi then do {
        let mid = ushr1 (lo + hi);
        d \<leftarrow> aget a mid;
        if x < f d then bisectRight f a x lo mid
        else bisectRight f a x (mid + 1) hi
      } else Some lo)"

declare bisectLeft.simps [code] bisectRight.simps [code]

type_synonym bounds = "nat \<times> nat"

definition crossfilter_filterExact :: "'v::ord \<Rightarrow> 'v list \<Rightarrow> bounds option" where
  "crossfilter_filterExact value values = do {
     let n = length values;
     lo \<leftarrow> bisectLeft crossfilter_identity values value 0 n;
     hi \<leftarrow> bisectRight crossfilter_identity values value 0 n;
     Some (lo, hi)
   }"

definition crossfilter_filterRange :: "'v::ord \<times> 'v \<Rightarrow> 'v list \<Rightarrow> bounds option" where
  "crossfilter_filterRange rng values = do {
     let mn = fst rng;
     let mx = snd rng;
     let n = length values;
     lo \<leftarrow> bisectLeft crossfilter_identity values mn 0 n;
     hi \<leftarrow> bisectLeft crossfilter_identity values mx 0 n;
     Some (lo, hi)
   }"

definition crossfilter_filterAll :: "'v list \<Rightarrow> bounds option" where
  "crossfilter_filterAll values = Some (0, length values)"

section \<open>The searches\<close>

text \<open>An insertion point separates the elements below a predicate from the rest.\<close>

definition insertion_point :: "('a \<Rightarrow> bool) \<Rightarrow> 'a list \<Rightarrow> nat \<Rightarrow> nat \<Rightarrow> nat \<Rightarrow> bool" where
  "insertion_point P a lo hi i \<longleftrightarrow>
     lo \<le> i \<and> i \<le> hi \<and> (\<forall>j. lo \<le> j \<and> j < i \<longrightarrow> P (a ! j)) \<and> (\<forall>j. i \<le> j \<and> j < hi \<longrightarrow> \<not> P (a ! j))"

text \<open>
  Both searches are one loop: go right of \<open>mid\<close> while a predicate holds there. The
  contract of that loop is the locale; \<^verbatim>\<open>bisectLeft\<close> and \<^verbatim>\<open>bisectRight\<close> interpret it.
\<close>

locale bisection =
  fixes search :: "nat \<Rightarrow> nat \<Rightarrow> nat option"
    and go_right :: "'a \<Rightarrow> bool"
    and a :: "'a list"
  assumes search_step: "search lo hi =
     (if lo < hi then do {
        let mid = ushr1 (lo + hi);
        d \<leftarrow> aget a mid;
        if go_right d then search (mid + 1) hi else search lo mid
      } else Some lo)"
begin

lemma search_correct:
  assumes "lo \<le> hi" "hi \<le> length a" "hi \<le> 2 ^ 31"
    and "\<And>i j. lo \<le> i \<Longrightarrow> i \<le> j \<Longrightarrow> j < hi \<Longrightarrow> go_right (a ! j) \<Longrightarrow> go_right (a ! i)"
  shows "\<exists>i. search lo hi = Some i \<and> insertion_point go_right a lo hi i"
  using assms
proof (induction "hi - lo" arbitrary: lo hi rule: less_induct)
  case less
  show ?case
  proof (cases "lo < hi")
    case False
    then have "search lo hi = Some lo" by (subst search_step) simp
    with False less.prems show ?thesis by (auto simp: insertion_point_def)
  next
    case True
    define mid where "mid = (lo + hi) div 2"
    have mid: "ushr1 (lo + hi) = mid" "lo \<le> mid" "mid < hi" "mid < length a"
      using True less.prems by (simp_all add: ushr1_exact mid_def)
    show ?thesis
    proof (cases "go_right (a ! mid)")
      case right: True
      obtain i where i: "search (mid + 1) hi = Some i" "insertion_point go_right a (mid + 1) hi i"
        using less.hyps [of hi "mid + 1"] less.prems mid by fastforce
      have "go_right (a ! j)" if "lo \<le> j" "j < i" for j
        using that i(2) less.prems(4) [of j mid] mid right
        by (cases "j \<le> mid") (auto simp: insertion_point_def)
      with i mid right True show ?thesis
        by (auto simp: search_step [of lo hi] insertion_point_def)
    next
      case left: False
      obtain i where i: "search lo mid = Some i" "insertion_point go_right a lo mid i"
        using less.hyps [of mid lo] less.prems mid by fastforce
      have "\<not> go_right (a ! j)" if "i \<le> j" "j < hi" for j
        using that i(2) less.prems(4) [of mid j] mid left
        by (cases "j < mid") (auto simp: insertion_point_def)
      with i mid left True show ?thesis
        by (auto simp: search_step [of lo hi] insertion_point_def)
    qed
  qed
qed

end

interpretation left: bisection "bisectLeft f a x" "\<lambda>d. f d < x" a for f a x
  by unfold_locales (rule bisectLeft.simps)

lemma if_negated: "(if \<not> P then u else v) = (if P then v else u)"
  by simp

interpretation right: bisection "bisectRight f a x" "\<lambda>d. \<not> x < f d" a for f a x
proof unfold_locales
  fix lo hi
  show "bisectRight f a x lo hi =
     (if lo < hi then do {
        let mid = ushr1 (lo + hi);
        d \<leftarrow> aget a mid;
        if \<not> x < f d then bisectRight f a x (mid + 1) hi else bisectRight f a x lo mid
      } else Some lo)"
    unfolding bisectRight.simps [of f a x lo hi] by (simp only: if_negated)
qed

lemma sorted_slice_nth_mono:
  assumes "sorted (map f (slice a lo hi))" "hi \<le> length a" "lo \<le> i" "i \<le> j" "j < hi"
  shows "f (a ! i) \<le> f (a ! j)"
proof -
  have "map f (slice a lo hi) ! (i - lo) \<le> map f (slice a lo hi) ! (j - lo)"
    using assms by (intro sorted_nth_mono) auto
  then show ?thesis using assms by simp
qed

lemma sorted_slice_sub:
  assumes "sorted (map f (slice a lo hi))" "lo \<le> lo'" "hi' \<le> hi" "hi \<le> length a"
  shows "sorted (map f (slice a lo' hi'))"
  unfolding sorted_iff_nth_mono
  using assms by (auto intro!: sorted_slice_nth_mono [OF assms(1)])

lemma bisectLeft_correct:
  fixes f :: "'a \<Rightarrow> 'v::linorder"
  assumes "lo \<le> hi" "hi \<le> length a" "hi \<le> 2 ^ 31" "sorted (map f (slice a lo hi))"
  shows "\<exists>i. bisectLeft f a x lo hi = Some i \<and> insertion_point (\<lambda>d. f d < x) a lo hi i"
proof (rule left.search_correct [OF assms(1-3)])
  fix i j assume "lo \<le> i" "i \<le> j" "j < hi" "f (a ! j) < x"
  then show "f (a ! i) < x"
    using sorted_slice_nth_mono [OF assms(4,2), of i j] by simp
qed

lemma bisectRight_correct:
  fixes f :: "'a \<Rightarrow> 'v::linorder"
  assumes "lo \<le> hi" "hi \<le> length a" "hi \<le> 2 ^ 31" "sorted (map f (slice a lo hi))"
  shows "\<exists>i. bisectRight f a x lo hi = Some i \<and> insertion_point (\<lambda>d. f d \<le> x) a lo hi i"
proof -
  have "\<not> x < f (a ! i)" if "lo \<le> i" "i \<le> j" "j < hi" "\<not> x < f (a ! j)" for i j
    using that sorted_slice_nth_mono [OF assms(4,2), of i j] by simp
  with right.search_correct [OF assms(1-3), of x f] show ?thesis
    by (simp add: not_less)
qed

lemma insertion_point_unique:
  "insertion_point P a lo hi i \<Longrightarrow> insertion_point P a lo hi j \<Longrightarrow> i = j"
  unfolding insertion_point_def by (cases i j rule: linorder_cases) auto

section \<open>The filters\<close>

lemma insertion_point_whole:
  assumes "insertion_point P a 0 (length a) i" "j < length a"
  shows "P (a ! j) \<longleftrightarrow> j < i"
  using assms by (auto simp: insertion_point_def not_less)

lemma filterExact_correct:
  fixes vs :: "'v::linorder list"
  assumes "sorted vs" "length vs \<le> 2 ^ 31"
  shows "\<exists>lo hi. crossfilter_filterExact v vs = Some (lo, hi) \<and> lo \<le> hi \<and> hi \<le> length vs \<and>
           (\<forall>i < length vs. lo \<le> i \<and> i < hi \<longleftrightarrow> vs ! i = v)"
proof -
  have id: "map crossfilter_identity vs = vs"
    by (simp add: crossfilter_identity_def map_idI)
  obtain lo hi where
    lo: "bisectLeft crossfilter_identity vs v 0 (length vs) = Some lo"
      "insertion_point (\<lambda>d. crossfilter_identity d < v) vs 0 (length vs) lo" and
    hi: "bisectRight crossfilter_identity vs v 0 (length vs) = Some hi"
      "insertion_point (\<lambda>d. crossfilter_identity d \<le> v) vs 0 (length vs) hi"
    using bisectLeft_correct [of 0 "length vs" vs crossfilter_identity v]
      bisectRight_correct [of 0 "length vs" vs crossfilter_identity v] assms id
    by auto
  note lo_iff = insertion_point_whole [OF lo(2), unfolded crossfilter_identity_def]
  note hi_iff = insertion_point_whole [OF hi(2), unfolded crossfilter_identity_def]
  have "lo \<le> hi"
    using lo_iff [of hi] hi_iff [of hi] lo(2) hi(2)
    by (cases "hi < length vs") (auto simp: insertion_point_def not_less)
  moreover have "lo \<le> i \<and> i < hi \<longleftrightarrow> vs ! i = v" if "i < length vs" for i
    using lo_iff [OF that] hi_iff [OF that] by auto
  ultimately show ?thesis
    using lo hi by (simp add: crossfilter_filterExact_def insertion_point_def)
qed

lemma filterRange_correct:
  fixes vs :: "'v::linorder list"
  assumes "sorted vs" "length vs \<le> 2 ^ 31"
  shows "\<exists>lo hi. crossfilter_filterRange (mn, mx) vs = Some (lo, hi) \<and>
           lo \<le> length vs \<and> hi \<le> length vs \<and> (mn \<le> mx \<longrightarrow> lo \<le> hi) \<and>
           (\<forall>i < length vs. lo \<le> i \<and> i < hi \<longleftrightarrow> mn \<le> vs ! i \<and> vs ! i < mx)"
proof -
  have id: "map crossfilter_identity vs = vs"
    by (simp add: crossfilter_identity_def map_idI)
  have ex: "\<exists>i. bisectLeft crossfilter_identity vs v 0 (length vs) = Some i \<and>
      insertion_point (\<lambda>d. crossfilter_identity d < v) vs 0 (length vs) i" for v
    using bisectLeft_correct [of 0 "length vs" vs crossfilter_identity v] assms id by auto
  obtain lo hi where
    lo: "bisectLeft crossfilter_identity vs mn 0 (length vs) = Some lo"
      "insertion_point (\<lambda>d. crossfilter_identity d < mn) vs 0 (length vs) lo" and
    hi: "bisectLeft crossfilter_identity vs mx 0 (length vs) = Some hi"
      "insertion_point (\<lambda>d. crossfilter_identity d < mx) vs 0 (length vs) hi"
    using ex by meson
  note lo_iff = insertion_point_whole [OF lo(2), unfolded crossfilter_identity_def]
  note hi_iff = insertion_point_whole [OF hi(2), unfolded crossfilter_identity_def]
  have "lo \<le> hi" if "mn \<le> mx"
    using that lo_iff [of hi] hi_iff [of hi] lo(2) hi(2)
    by (cases "hi < length vs") (auto simp: insertion_point_def not_less)
  then show ?thesis
    using lo hi lo_iff hi_iff
    by (auto simp: crossfilter_filterRange_def Let_def insertion_point_def not_less [symmetric])
qed

section \<open>Permutation by an index\<close>

lemma those_eq_Some: "(\<And>x. x \<in> set xs \<Longrightarrow> f x = Some (g x)) \<Longrightarrow> those (map f xs) = Some (map g xs)"
  by (induction xs) auto

lemma permute_Some:
  "(\<And>i. i \<in> set index \<Longrightarrow> i < length array) \<Longrightarrow> permute array index = Some (map ((!) array) index)"
  unfolding permute_def by (rule those_eq_Some) simp

section \<open>Properties\<close>

text \<open>
  C5: on a slice that is sorted by \<open>f\<close>, both binary searches return, and the two
  insertion points bracket exactly the elements equal to \<open>x\<close>: everything in front of
  \<^verbatim>\<open>bisectLeft\<close> is below \<open>x\<close>, everything from \<^verbatim>\<open>bisectRight\<close> on is above it.
\<close>

theorem bisect_brackets:
  fixes f :: "'a \<Rightarrow> 'v::linorder"
  assumes "lo \<le> hi" "hi \<le> length a" "hi \<le> 2 ^ 31" "sorted (map f (slice a lo hi))"
  shows "\<exists>l r. bisectLeft f a x lo hi = Some l \<and> bisectRight f a x lo hi = Some r \<and>
    lo \<le> l \<and> l \<le> r \<and> r \<le> hi \<and>
    (\<forall>j. lo \<le> j \<and> j < l \<longrightarrow> f (a ! j) < x) \<and>
    (\<forall>j. l \<le> j \<and> j < r \<longrightarrow> f (a ! j) = x) \<and>
    (\<forall>j. r \<le> j \<and> j < hi \<longrightarrow> x < f (a ! j))"
proof -
  obtain l r where l: "bisectLeft f a x lo hi = Some l" "insertion_point (\<lambda>d. f d < x) a lo hi l"
    and r: "bisectRight f a x lo hi = Some r" "insertion_point (\<lambda>d. f d \<le> x) a lo hi r"
    using bisectLeft_correct [OF assms] bisectRight_correct [OF assms] by blast
  have "l \<le> r"
  proof (rule ccontr)
    assume "\<not> l \<le> r"
    then have "f (a ! r) < x" "\<not> f (a ! r) \<le> x" using l(2) r(2) by (auto simp: insertion_point_def)
    then show False by simp
  qed
  moreover have "f (a ! j) = x" if "l \<le> j" "j < r" for j
  proof -
    have "\<not> f (a ! j) < x" "f (a ! j) \<le> x" using that l(2) r(2) by (auto simp: insertion_point_def)
    then show ?thesis by simp
  qed
  ultimately show ?thesis
    using l r by (auto simp: insertion_point_def not_le)
qed

theorem bisect_brackets_witness:
  "\<exists>l r. bisectLeft id [1, 3, 3, 7 :: int] 3 0 4 = Some l \<and> bisectRight id [1, 3, 3, 7 :: int] 3 0 4 = Some r \<and>
     l \<le> r \<and> (\<forall>j. l \<le> j \<and> j < r \<longrightarrow> [1, 3, 3, 7 :: int] ! j = 3)"
  using bisect_brackets [of 0 4 "[1, 3, 3, 7 :: int]" id 3] by (auto simp: slice_def)

text \<open>
  C6: the range filter returns the bounds of exactly the ranks whose value lies in the
  half-open interval, the lower bound included and the upper bound excluded; the bounds are
  in order whenever the interval's ends are.
\<close>

theorem filterRange_selects:
  fixes vs :: "'v::linorder list"
  assumes "sorted vs" "length vs \<le> 2 ^ 31" "mn \<le> mx"
  shows "\<exists>lo hi. crossfilter_filterRange (mn, mx) vs = Some (lo, hi) \<and> lo \<le> hi \<and> hi \<le> length vs \<and>
    slice vs lo hi = filter (\<lambda>v. mn \<le> v \<and> v < mx) vs"
proof -
  obtain lo hi where b: "crossfilter_filterRange (mn, mx) vs = Some (lo, hi)" "lo \<le> hi" "hi \<le> length vs"
    "\<And>i. i < length vs \<Longrightarrow> (lo \<le> i \<and> i < hi) = (mn \<le> vs ! i \<and> vs ! i < mx)"
    using filterRange_correct [OF assms(1,2), of mn mx] assms(3) by auto
  then show ?thesis using filter_eq_slice [OF b(2,3), of "\<lambda>v. mn \<le> v \<and> v < mx"] by auto
qed

theorem filterRange_selects_witness:
  "\<exists>lo hi. crossfilter_filterRange (2, 5) [1, 2, 4, 5, 9 :: int] = Some (lo, hi) \<and> lo \<le> hi \<and>
     slice [1, 2, 4, 5, 9 :: int] lo hi = [2, 4]"
  using filterRange_selects [of "[1, 2, 4, 5, 9 :: int]" 2 5] by auto

text \<open>
  C7: the exact filter returns the bounds of exactly the ranks that hold the value.
\<close>

theorem filterExact_selects:
  fixes vs :: "'v::linorder list"
  assumes "sorted vs" "length vs \<le> 2 ^ 31"
  shows "\<exists>lo hi. crossfilter_filterExact v vs = Some (lo, hi) \<and> lo \<le> hi \<and> hi \<le> length vs \<and>
    slice vs lo hi = filter (\<lambda>w. w = v) vs"
proof -
  obtain lo hi where b: "crossfilter_filterExact v vs = Some (lo, hi)" "lo \<le> hi" "hi \<le> length vs"
    "\<And>i. i < length vs \<Longrightarrow> (lo \<le> i \<and> i < hi) = (vs ! i = v)"
    using filterExact_correct [OF assms, of v] by auto
  then show ?thesis using filter_eq_slice [OF b(2,3), of "\<lambda>w. w = v"] by auto
qed

theorem filterExact_selects_witness:
  "\<exists>lo hi. crossfilter_filterExact 4 [1, 4, 4, 9 :: int] = Some (lo, hi) \<and> lo \<le> hi \<and>
     slice [1, 4, 4, 9 :: int] lo hi = [4, 4]"
  using filterExact_selects [of "[1, 4, 4, 9 :: int]" 4] by auto

end
