(* ===== verification/Cf_Sort.thy ===== *)
theory Cf_Sort
  imports Js_Prelude
begin

text \<open>
  \<^verbatim>\<open>crossfilter.js\<close>, lines 138 to 438: \<^verbatim>\<open>insertionsort_by\<close> and the dual-pivot
  \<^verbatim>\<open>quicksort_by\<close>. The three partitioning loops of \<^verbatim>\<open>quicksort\<close> are copies of one loop
  (the source says so) with different tests; here they are three instances of
  \<open>partition_loop\<close>.
\<close>

section \<open>Insertion sort\<close>

primrec insertion_shift ::
  "('a \<Rightarrow> 'v::ord) \<Rightarrow> nat \<Rightarrow> 'v \<Rightarrow> nat \<Rightarrow> 'a list \<Rightarrow> ('a list \<times> nat) option" where
  \<comment> \<open>\<^verbatim>\<open>for (j = i; j > lo && f(a[j - 1]) > x; --j) a[j] = a[j - 1]\<close>\<close>
  "insertion_shift f lo x 0 a = Some (a, 0)"
| "insertion_shift f lo x (Suc j) a =
     (if Suc j > lo then do {
        d \<leftarrow> aget a j;
        if f d > x then do {
          a \<leftarrow> aset a (Suc j) d;
          insertion_shift f lo x j a
        } else Some (a, Suc j)
      } else Some (a, Suc j))"

function insertion_loop :: "('a \<Rightarrow> 'v::ord) \<Rightarrow> nat \<Rightarrow> nat \<Rightarrow> nat \<Rightarrow> 'a list \<Rightarrow> 'a list option" where
  "insertion_loop f lo hi i a =
     (if i < hi then do {
        t \<leftarrow> aget a i;
        (a, j) \<leftarrow> insertion_shift f lo (f t) i a;
        a \<leftarrow> aset a j t;
        insertion_loop f lo hi (i + 1) a
      } else Some a)"
  by pat_completeness auto
termination
  by (relation "measure (\<lambda>(f, lo, hi, i, a). hi - i)") auto

declare insertion_loop.simps [simp del]

definition insertionsort :: "('a \<Rightarrow> 'v::ord) \<Rightarrow> 'a list \<Rightarrow> nat \<Rightarrow> nat \<Rightarrow> 'a list option" where
  "insertionsort f a lo hi = insertion_loop f lo hi (lo + 1) a"

section \<open>Quicksort\<close>

definition quicksort_sizeThreshold :: nat where
  "quicksort_sizeThreshold = 32"

definition compare_exchange :: "('a \<Rightarrow> 'v::ord) \<Rightarrow> 'a \<Rightarrow> 'a \<Rightarrow> 'a \<times> 'a" where
  \<comment> \<open>\<^verbatim>\<open>if (xi > xj) t = ei, ei = ej, ej = t, t = xi, xi = xj, xj = t\<close>, where \<open>x = f e\<close>\<close>
  "compare_exchange f e e' = (if f e > f e' then (e', e) else (e, e'))"

definition sorting_network ::
  "('a \<Rightarrow> 'v::ord) \<Rightarrow> 'a \<Rightarrow> 'a \<Rightarrow> 'a \<Rightarrow> 'a \<Rightarrow> 'a \<Rightarrow> 'a \<times> 'a \<times> 'a \<times> 'a \<times> 'a" where
  "sorting_network f e1 e2 e3 e4 e5 =
     (let (e1, e2) = compare_exchange f e1 e2;
          (e4, e5) = compare_exchange f e4 e5;
          (e1, e3) = compare_exchange f e1 e3;
          (e2, e3) = compare_exchange f e2 e3;
          (e1, e4) = compare_exchange f e1 e4;
          (e3, e4) = compare_exchange f e3 e4;
          (e2, e5) = compare_exchange f e2 e5;
          (e2, e3) = compare_exchange f e2 e3;
          (e4, e5) = compare_exchange f e4 e5
      in (e1, e2, e3, e4, e5))"

primrec scan_great :: "bool \<Rightarrow> ('a \<Rightarrow> bool) \<Rightarrow> 'a list \<Rightarrow> nat \<Rightarrow> nat \<Rightarrow> (nat \<times> bool) option" where
  \<comment> \<open>the inner \<^verbatim>\<open>while (true)\<close>: \<^verbatim>\<open>great--\<close> while the element there belongs to the right part;
     the bounded loops leave with \<^verbatim>\<open>if (great < k) break\<close>, without an exchange\<close>
  "scan_great bounded right a k 0 = do {
     d \<leftarrow> aget a 0;
     if right d then None else Some (0, True)
   }"
| "scan_great bounded right a k (Suc g) = do {
     d \<leftarrow> aget a (Suc g);
     if right d then (if bounded \<and> g < k then Some (g, False) else scan_great bounded right a k g)
     else Some (Suc g, True)
   }"

definition exchange_great ::
  "('a \<Rightarrow> bool) \<Rightarrow> 'a list \<Rightarrow> nat \<Rightarrow> nat \<Rightarrow> nat \<Rightarrow> 'a \<Rightarrow> ('a list \<times> nat \<times> nat) option" where
  "exchange_great triple a lss k great ek = do {
     d \<leftarrow> aget a great;
     if triple d then do {
       l \<leftarrow> aget a lss;
       a \<leftarrow> aset a k l;
       g \<leftarrow> aget a great;
       a \<leftarrow> aset a lss g;
       a \<leftarrow> aset a great ek;
       great \<leftarrow> pred_index great;
       Some (a, lss + 1, great)
     } else do {
       g \<leftarrow> aget a great;
       a \<leftarrow> aset a k g;
       a \<leftarrow> aset a great ek;
       great \<leftarrow> pred_index great;
       Some (a, lss, great)
     }
   }"

partial_function (option) partition_loop ::
  "bool \<Rightarrow> ('a \<Rightarrow> bool) \<Rightarrow> ('a \<Rightarrow> bool) \<Rightarrow> ('a \<Rightarrow> bool) \<Rightarrow> 'a list \<Rightarrow> nat \<Rightarrow> nat \<Rightarrow> nat \<Rightarrow>
   ('a list \<times> nat \<times> nat) option" where
  "partition_loop bounded left right triple a lss k great =
     (if k \<le> great then do {
        ek \<leftarrow> aget a k;
        if left ek then do {
          a \<leftarrow> (if k \<noteq> lss then do {
                  l \<leftarrow> aget a lss;
                  a \<leftarrow> aset a k l;
                  aset a lss ek
                } else Some a);
          partition_loop bounded left right triple a (lss + 1) (k + 1) great
        } else if right ek then do {
          (great, found) \<leftarrow> scan_great bounded right a k great;
          (a, lss, great) \<leftarrow>
            (if found then exchange_great triple a lss k great ek else Some (a, lss, great));
          partition_loop bounded left right triple a lss (k + 1) great
        } else partition_loop bounded left right triple a lss (k + 1) great
      } else Some (a, lss, great))"

declare partition_loop.simps [code]

definition partition_equal where
  \<comment> \<open>the degenerate case, both pivots equal: a Dutch national flag\<close>
  "partition_equal f p a lss great =
     partition_loop False (\<lambda>d. f d < p) (\<lambda>d. f d > p) (\<lambda>d. f d < p) a lss lss great"

definition partition_pivots where
  "partition_pivots f p1 p2 a lss great =
     partition_loop True (\<lambda>d. f d < p1) (\<lambda>d. f d > p2) (\<lambda>d. f d < p1) a lss lss great"

definition partition_middle where
  \<comment> \<open>the second pass, which clears the middle part of pivot values\<close>
  "partition_middle f p1 p2 a lss great =
     partition_loop True (\<lambda>d. f d \<le> p1 \<and> f d \<ge> p1) (\<lambda>d. f d \<le> p2 \<and> f d \<ge> p2) (\<lambda>d. f d < p1) a lss lss great"

partial_function (option) skip_up :: "('a \<Rightarrow> bool) \<Rightarrow> 'a list \<Rightarrow> nat \<Rightarrow> nat option" where
  "skip_up eq a i = do { d \<leftarrow> aget a i; if eq d then skip_up eq a (i + 1) else Some i }"

partial_function (option) skip_down :: "('a \<Rightarrow> bool) \<Rightarrow> 'a list \<Rightarrow> nat \<Rightarrow> nat option" where
  "skip_down eq a i = do {
     d \<leftarrow> aget a i;
     if eq d then do { i \<leftarrow> pred_index i; skip_down eq a i } else Some i
   }"

declare skip_up.simps [code] skip_down.simps [code]

text \<open>The variable \<^verbatim>\<open>less\<close> of the source is \<open>lss\<close> here (\<open>less\<close> is a constant of HOL).\<close>

record ('a, 'v) pivots =
  \<comment> \<open>the local variables of \<^verbatim>\<open>quicksort\<close> that outlive the choice of pivots\<close>
  index1 :: nat
  index5 :: nat
  pivot1 :: 'a
  pivot2 :: 'a
  pivotValue1 :: 'v
  pivotValue2 :: 'v

definition choose_pivots ::
  "('a \<Rightarrow> 'v::ord) \<Rightarrow> 'a list \<Rightarrow> nat \<Rightarrow> nat \<Rightarrow> ('a list \<times> ('a, 'v) pivots) option" where
  "choose_pivots f a lo hi = do {
     let sixth = (hi - lo) div 6;
     let i1 = lo + sixth;
     let i5 = hi - 1 - sixth;
     i3 \<leftarrow> sar1 (lo + hi - 1);
     let i2 = i3 - sixth;
     let i4 = i3 + sixth;
     e1 \<leftarrow> aget a i1;
     e2 \<leftarrow> aget a i2;
     e3 \<leftarrow> aget a i3;
     e4 \<leftarrow> aget a i4;
     e5 \<leftarrow> aget a i5;
     let (e1, e2, e3, e4, e5) = sorting_network f e1 e2 e3 e4 e5;
     a \<leftarrow> aset a i1 e1;
     l \<leftarrow> aget a lo;
     a \<leftarrow> aset a i2 l;
     a \<leftarrow> aset a i3 e3;
     h \<leftarrow> aget a (hi - 1);
     a \<leftarrow> aset a i4 h;
     a \<leftarrow> aset a i5 e5;
     Some (a, \<lparr>index1 = i1, index5 = i5, pivot1 = e2, pivot2 = e4, pivotValue1 = f e2, pivotValue2 = f e4\<rparr>)
   }"

definition place_pivots :: "('a, 'v) pivots \<Rightarrow> 'a list \<Rightarrow> nat \<Rightarrow> nat \<Rightarrow> nat \<Rightarrow> nat \<Rightarrow> 'a list option" where
  "place_pivots p a lo hi lss great = do {
     l \<leftarrow> aget a (lss - 1);
     a \<leftarrow> aset a lo l;
     a \<leftarrow> aset a (lss - 1) (pivot1 p);
     g \<leftarrow> aget a (great + 1);
     a \<leftarrow> aset a (hi - 1) g;
     aset a (great + 1) (pivot2 p)
   }"

definition clear_middle ::
  "('a \<Rightarrow> 'v::ord) \<Rightarrow> ('a, 'v) pivots \<Rightarrow> 'a list \<Rightarrow> nat \<Rightarrow> nat \<Rightarrow> ('a list \<times> nat \<times> nat) option" where
  "clear_middle f p a lss great =
     (if lss < index1 p \<and> great > index5 p then do {
        lss \<leftarrow> skip_up (\<lambda>d. f d \<le> pivotValue1 p \<and> f d \<ge> pivotValue1 p) a lss;
        great \<leftarrow> skip_down (\<lambda>d. f d \<le> pivotValue2 p \<and> f d \<ge> pivotValue2 p) a great;
        partition_middle f (pivotValue1 p) (pivotValue2 p) a lss great
      } else Some (a, lss, great))"

partial_function (option) quicksort ::
  "('a \<Rightarrow> 'v::ord) \<Rightarrow> 'a list \<Rightarrow> nat \<Rightarrow> nat \<Rightarrow> 'a list option" where
  \<comment> \<open>the exported \<^verbatim>\<open>sort\<close>, with the body of the inner function \<^verbatim>\<open>quicksort\<close> as its second branch\<close>
  "quicksort f a lo hi =
     (if hi - lo < quicksort_sizeThreshold then insertionsort f a lo hi
      else do {
        (a, p) \<leftarrow> choose_pivots f a lo hi;
        let lss = lo + 1;
        let great = hi - 2;
        let pivotsEqual = (pivotValue1 p \<le> pivotValue2 p \<and> pivotValue1 p \<ge> pivotValue2 p);
        (a, lss, great) \<leftarrow>
          (if pivotsEqual then partition_equal f (pivotValue1 p) a lss great
           else partition_pivots f (pivotValue1 p) (pivotValue2 p) a lss great);
        a \<leftarrow> place_pivots p a lo hi lss great;
        a \<leftarrow> quicksort f a lo (lss - 1);
        a \<leftarrow> quicksort f a (great + 2) hi;
        if pivotsEqual then Some a
        else do {
          (a, lss, great) \<leftarrow> clear_middle f p a lss great;
          quicksort f a lss (great + 1)
        }
      })"

declare quicksort.simps [code]

section \<open>Insertion sort is the stable sort by key\<close>

lemma insertion_shift_correct:
  fixes f :: "'a \<Rightarrow> 'v::linorder"
  assumes "lo \<le> j" "j < length a"
  shows "\<exists>b j'. insertion_shift f lo x j a = Some (b, j') \<and> lo \<le> j' \<and> j' \<le> j \<and> length b = length a \<and>
    (\<forall>t. b[j' := t] = take j' a @ t # slice a j' j @ drop (Suc j) a) \<and>
    (j' = lo \<or> f (a ! (j' - 1)) \<le> x) \<and> (\<forall>m. j' \<le> m \<and> m < j \<longrightarrow> x < f (a ! m))"
  using assms
proof (induction j arbitrary: a)
  case 0
  then show ?case by (cases a) simp_all
next
  case (Suc j)
  have upd: "a[Suc j := t] = take (Suc j) a @ t # drop (Suc (Suc j)) a" for t
    using Suc.prems by (simp add: upd_conv_take_nth_drop)
  show ?case
  proof (cases "Suc j > lo \<and> f (a ! j) > x")
    case False
    with Suc.prems show ?thesis by (auto simp: upd not_less)
  next
    case True
    let ?b = "a[Suc j := a ! j]"
    obtain b j' where b: "insertion_shift f lo x j ?b = Some (b, j')" "lo \<le> j'" "j' \<le> j"
      "length b = length a" "\<And>t. b[j' := t] = take j' ?b @ t # slice ?b j' j @ drop (Suc j) ?b"
      "j' = lo \<or> f (?b ! (j' - 1)) \<le> x" "\<And>m. j' \<le> m \<Longrightarrow> m < j \<Longrightarrow> x < f (?b ! m)"
      using Suc.IH [of ?b] Suc.prems True by auto
    have "drop (Suc j) ?b = a ! j # drop (Suc (Suc j)) a"
      using Suc.prems by (simp add: drop_update_swap Cons_nth_drop_Suc [symmetric])
    moreover have "slice ?b j' j = slice a j' j" "take j' ?b = take j' a"
      using b(3) by (simp_all add: slice_def drop_update_swap)
    moreover have "slice a j' (Suc j) = slice a j' j @ [a ! j]"
      using b(3) Suc.prems by (intro slice_snoc) auto
    ultimately have "b[j' := t] = take j' a @ t # slice a j' (Suc j) @ drop (Suc (Suc j)) a" for t
      using b(5) [of t] by simp
    moreover have "x < f (a ! m)" if "j' \<le> m" "m < Suc j" for m
      using b(7) [of m] that True by (cases "m = j") auto
    moreover have "j' = lo \<or> f (a ! (j' - 1)) \<le> x" using b(3,6) by auto
    ultimately show ?thesis using b True Suc.prems by auto
  qed
qed

lemma sort_key_snoc:
  fixes f :: "'a \<Rightarrow> 'v::linorder"
  assumes "sort_key f xs = ys @ zs" "\<forall>y \<in> set ys. f y \<le> f t" "\<forall>z \<in> set zs. f t < f z"
  shows "sort_key f (xs @ [t]) = ys @ t # zs"
proof (rule properties_for_sort_key)
  have "mset xs = mset ys + mset zs" by (metis assms(1) mset_append mset_sort)
  then show "mset (ys @ t # zs) = mset (xs @ [t])" by simp
  have "filter (\<lambda>x. f k = f x) xs = filter (\<lambda>x. f k = f x) (sort_key f xs)" for k
    by (metis (mono_tags, lifting) filter_cong sort_key_stable)
  moreover have "filter (\<lambda>x. f t = f x) zs = []"
    using assms(3) by (auto simp: filter_empty_conv)
  ultimately show "filter (\<lambda>x. f k = f x) (ys @ t # zs) = filter (\<lambda>x. f k = f x) (xs @ [t])" for k
    using assms(1) by auto
  have "sorted (map f (ys @ zs))" using assms(1) by (metis sorted_sort_key)
  then show "sorted (map f (ys @ t # zs))"
    using assms(2,3) by (auto simp: sorted_append less_imp_le)
qed

lemma insertion_step:
  fixes f :: "'a \<Rightarrow> 'v::linorder"
  assumes "lo \<le> i" "i < length a" "slice a lo i = sort_key f xs"
  shows "\<exists>b j. insertion_shift f lo (f (a ! i)) i a = Some (b, j) \<and> j < length b \<and>
    b[j := a ! i] = take lo a @ sort_key f (xs @ [a ! i]) @ drop (Suc i) a"
proof -
  obtain b j where b: "insertion_shift f lo (f (a ! i)) i a = Some (b, j)" "lo \<le> j" "j \<le> i"
    "length b = length a" "b[j := a ! i] = take j a @ a ! i # slice a j i @ drop (Suc i) a"
    "j = lo \<or> f (a ! (j - 1)) \<le> f (a ! i)" "\<And>m. j \<le> m \<Longrightarrow> m < i \<Longrightarrow> f (a ! i) < f (a ! m)"
    using insertion_shift_correct [OF assms(1,2), of f "f (a ! i)"] by blast
  have split: "sort_key f xs = slice a lo j @ slice a j i"
    using slice_append [OF b(2,3), of a] assms(3) by simp
  have sorted: "sorted (map f (slice a lo i))" using assms(3) by simp
  have "f y \<le> f (a ! i)" if y: "y \<in> set (slice a lo j)" for y
  proof -
    from y obtain m where m: "lo \<le> m" "m < j" "y = a ! m"
      using assms(2) b(3) by (auto simp: set_slice)
    then have "f (a ! m) \<le> f (a ! (j - 1))"
      using sorted_nth_mono [OF sorted, of "m - lo" "j - 1 - lo"] b(3) assms(2) by simp
    with m b(6) show ?thesis by auto
  qed
  moreover have "f (a ! i) < f z" if "z \<in> set (slice a j i)" for z
    using that b(7) assms(2) by (auto simp: set_slice)
  ultimately have "sort_key f (xs @ [a ! i]) = slice a lo j @ a ! i # slice a j i"
    by (intro sort_key_snoc [OF split]) auto
  moreover have "take j a = take lo a @ slice a lo j"
    using slice_append [of 0 lo j a] b(2) by (simp add: slice_def)
  ultimately show ?thesis using b assms(2) by auto
qed

lemma insertion_loop_correct:
  fixes f :: "'a \<Rightarrow> 'v::linorder"
  assumes "lo < i" "i \<le> hi" "hi \<le> length a" "b = take lo a @ sort_key f (slice a lo i) @ drop i a"
  shows "insertion_loop f lo hi i b = Some (take lo a @ sort_key f (slice a lo hi) @ drop hi a)"
  using assms
proof (induction "hi - i" arbitrary: i b)
  case 0
  then show ?case by (simp add: insertion_loop.simps)
next
  case (Suc n)
  then have i: "i < hi" "lo < i" "i < length a" by auto
  have b: "take lo b = take lo a" "slice b lo i = sort_key f (slice a lo i)" "b ! i = a ! i"
    "drop (Suc i) b = drop (Suc i) a" "length b = length a"
    using i by (simp_all add: Suc.prems(4) slice_def nth_append)
  obtain c j where c: "insertion_shift f lo (f (b ! i)) i b = Some (c, j)" "j < length c"
    "c[j := b ! i] = take lo b @ sort_key f (slice a lo i @ [b ! i]) @ drop (Suc i) b"
    using insertion_step [of lo i b f "slice a lo i"] i b by auto
  have "c[j := b ! i] = take lo a @ sort_key f (slice a lo (Suc i)) @ drop (Suc i) a"
    using c(3) b i by (simp add: slice_snoc)
  then have "insertion_loop f lo hi (i + 1) (c[j := b ! i]) =
      Some (take lo a @ sort_key f (slice a lo hi) @ drop hi a)"
    using Suc.hyps(1) [of "i + 1"] Suc.hyps(2) Suc.prems i by simp
  then show ?case
    using i c b by (simp add: insertion_loop.simps [of f lo hi i b])
qed

lemma insertionsort_correct:
  fixes f :: "'a \<Rightarrow> 'v::linorder"
  assumes "lo \<le> hi" "hi \<le> length a"
  shows "insertionsort f a lo hi = Some (take lo a @ sort_key f (slice a lo hi) @ drop hi a)"
proof (cases "lo = hi")
  case True
  then show ?thesis by (simp add: insertionsort_def insertion_loop.simps)
next
  case False
  then have "a = take lo a @ sort_key f (slice a lo (lo + 1)) @ drop (lo + 1) a"
    using assms by (simp add: slice_Cons Cons_nth_drop_Suc)
  then show ?thesis
    unfolding insertionsort_def using False assms by (intro insertion_loop_correct) auto
qed

end
