(* ===== verification/Cf_Arrays.thy ===== *)
theory Cf_Arrays
  imports Js_Prelude "HOL-Library.Word"
begin

text \<open>
  \<^verbatim>\<open>crossfilter.js\<close>, lines 439 to 484, 504 to 528 and 1380 to 1400: the unsigned typed arrays
  crossfilter keeps its indexes in, with the truncating stores of \<^verbatim>\<open>Uint8Array\<close>,
  \<^verbatim>\<open>Uint16Array\<close> and \<^verbatim>\<open>Uint32Array\<close>, their untyped replacements, the constructors
  \<^verbatim>\<open>crossfilter_index\<close> and \<^verbatim>\<open>crossfilter_range\<close>, and the default reduce functions.

  The lemmas show that an array made by \<^verbatim>\<open>crossfilter_index(n, m)\<close> keeps every id below
  \<open>m\<close> unchanged, so that the truncation is never seen, and that the typed and the untyped
  version of each helper agree.
\<close>

section \<open>Definitions\<close>

subsection \<open>Typed arrays\<close>

datatype uarray = UArray (awidth: nat) (elems: "nat list")
  \<comment> \<open>the bits of an element, and the elements\<close>

definition ulength :: "uarray \<Rightarrow> nat" where
  "ulength a = length (elems a)"

definition uget :: "uarray \<Rightarrow> nat \<Rightarrow> nat option" where
  "uget a i = aget (elems a) i"

definition uset :: "uarray \<Rightarrow> nat \<Rightarrow> nat \<Rightarrow> uarray option" where
  "uset a i v = do {
     e \<leftarrow> aset (elems a) i (v mod 2 ^ awidth a);
     Some (UArray (awidth a) e)
   }"

definition uset_all :: "uarray \<Rightarrow> uarray \<Rightarrow> uarray option" where
  \<comment> \<open>\<^verbatim>\<open>copy.set(array)\<close>: overwrites the first elements; a longer source is a RangeError\<close>
  "uset_all copy array =
     (if ulength array \<le> ulength copy
      then Some (UArray (awidth copy)
             (map (\<lambda>v. v mod 2 ^ awidth copy) (elems array) @ drop (ulength array) (elems copy)))
      else None)"

definition crossfilter_array8 :: "nat \<Rightarrow> uarray" where
  "crossfilter_array8 n = UArray 8 (replicate n 0)"

definition crossfilter_array16 :: "nat \<Rightarrow> uarray" where
  "crossfilter_array16 n = UArray 16 (replicate n 0)"

definition crossfilter_array32 :: "nat \<Rightarrow> uarray" where
  "crossfilter_array32 n = UArray 32 (replicate n 0)"

definition crossfilter_arrayLengthen :: "uarray \<Rightarrow> nat \<Rightarrow> uarray option" where
  "crossfilter_arrayLengthen array len =
     (if ulength array \<ge> len then Some array
      else uset_all (UArray (awidth array) (replicate len 0)) array)"

definition crossfilter_arrayWiden :: "uarray \<Rightarrow> nat \<Rightarrow> uarray option" where
  "crossfilter_arrayWiden array width = do {
     copy \<leftarrow> (if width = 16 then Some (crossfilter_array16 (ulength array))
             else if width = 32 then Some (crossfilter_array32 (ulength array))
             else None);
     uset_all copy array
   }"

subsection \<open>Untyped arrays\<close>

function arrayUntyped_loop :: "nat list \<Rightarrow> nat \<Rightarrow> nat list" where
  \<comment> \<open>the elements written so far; the next index is their number\<close>
  "arrayUntyped_loop array n =
     (if length array < n then arrayUntyped_loop (array @ [0]) n else array)"
  by auto
termination by (relation "measure (\<lambda>(array, n). n - length array)") auto

declare arrayUntyped_loop.simps [simp del]

definition crossfilter_arrayUntyped :: "nat \<Rightarrow> nat list" where
  "crossfilter_arrayUntyped n = arrayUntyped_loop [] n"

definition crossfilter_arrayLengthenUntyped :: "nat list \<Rightarrow> nat \<Rightarrow> nat list" where
  "crossfilter_arrayLengthenUntyped array len = arrayUntyped_loop array len"

definition crossfilter_arrayWidenUntyped :: "nat list \<Rightarrow> nat \<Rightarrow> nat list option" where
  "crossfilter_arrayWidenUntyped array width = (if width > 32 then None else Some array)"

subsection \<open>Indexes\<close>

definition crossfilter_index :: "nat \<Rightarrow> nat \<Rightarrow> uarray" where
  "crossfilter_index n m =
     (if m < 0x101 then crossfilter_array8 n
      else if m < 0x10001 then crossfilter_array16 n
      else crossfilter_array32 n)"

function range_loop :: "uarray \<Rightarrow> nat \<Rightarrow> nat \<Rightarrow> uarray option" where
  "range_loop rng i n =
     (if i < n then do { rng' \<leftarrow> uset rng i i; range_loop rng' (i + 1) n } else Some rng)"
  by auto
termination by (relation "measure (\<lambda>(rng, i, n). n - i)") auto

declare range_loop.simps [simp del]

definition crossfilter_range :: "nat \<Rightarrow> uarray option" where
  "crossfilter_range n = range_loop (crossfilter_index n n) 0 n"

definition crossfilter_capacity :: "nat \<Rightarrow> nat" where
  "crossfilter_capacity w = (if w = 8 then 0x100 else if w = 16 then 0x10000 else 0x100000000)"

subsection \<open>The default reduce functions\<close>

definition crossfilter_zero :: "'r::zero" where
  "crossfilter_zero = 0"

definition crossfilter_reduceIncrement :: "'r::{one,plus} \<Rightarrow> 'd \<Rightarrow> 'r" where
  "crossfilter_reduceIncrement p v = p + 1"

definition crossfilter_reduceDecrement :: "'r::{one,minus} \<Rightarrow> 'd \<Rightarrow> 'r" where
  "crossfilter_reduceDecrement p v = p - 1"

definition crossfilter_reduceAdd :: "('d \<Rightarrow> 'r::plus) \<Rightarrow> 'r \<Rightarrow> 'd \<Rightarrow> 'r" where
  "crossfilter_reduceAdd f p v = p + f v"

definition crossfilter_reduceSubtract :: "('d \<Rightarrow> 'r::minus) \<Rightarrow> 'r \<Rightarrow> 'd \<Rightarrow> 'r" where
  "crossfilter_reduceSubtract f p v = p - f v"

section \<open>Typed arrays keep the ids they are made for\<close>

definition fits :: "uarray \<Rightarrow> bool" where
  \<comment> \<open>every element is in the range of its type\<close>
  "fits a \<longleftrightarrow> (\<forall>x \<in> set (elems a). x < 2 ^ awidth a)"

lemma fits_nth: "fits a \<Longrightarrow> i < ulength a \<Longrightarrow> elems a ! i < 2 ^ awidth a"
  by (simp add: fits_def ulength_def)

lemma uget_Some [simp, js_simps]: "i < ulength a \<Longrightarrow> uget a i = Some (elems a ! i)"
  by (simp add: uget_def ulength_def)

lemma uset_Some [js_simps]:
  "i < ulength a \<Longrightarrow> uset a i v = Some (UArray (awidth a) ((elems a)[i := v mod 2 ^ awidth a]))"
  by (simp add: uset_def ulength_def)

lemma uset_exact [js_simps]:
  "i < ulength a \<Longrightarrow> v < 2 ^ awidth a \<Longrightarrow> uset a i v = Some (UArray (awidth a) ((elems a)[i := v]))"
  by (simp add: uset_Some)

lemma ulength_UArray [simp]: "ulength (UArray w e) = length e"
  by (simp add: ulength_def)

lemma uset_fits: "fits a \<Longrightarrow> uset a i v = Some b \<Longrightarrow> fits b \<and> awidth b = awidth a \<and> ulength b = ulength a"
  by (auto simp: uset_def fits_def aset_eq_Some_iff Option.bind_eq_Some_conv ulength_def
           dest!: set_update_subset_insert [THEN subsetD])

lemma map_mod_id: "\<forall>x \<in> set xs. x < b \<Longrightarrow> map (\<lambda>v. v mod b) xs = (xs :: nat list)"
  by (induction xs) auto

lemma arrayLengthen_exact:
  assumes "fits a"
  shows "crossfilter_arrayLengthen a n =
    Some (UArray (awidth a) (elems a @ replicate (n - ulength a) 0))"
  using assms by (cases a) (auto simp: crossfilter_arrayLengthen_def uset_all_def fits_def map_mod_id)

lemma fits_lengthened: "fits a \<Longrightarrow> fits (UArray (awidth a) (elems a @ replicate k 0))"
  by (auto simp: fits_def)

lemma arrayWiden_exact:
  assumes "fits a" "awidth a \<le> w" "w = 16 \<or> w = 32"
  shows "crossfilter_arrayWiden a w = Some (UArray w (elems a))"
proof -
  have "\<forall>x \<in> set (elems a). x < 2 ^ w"
    using assms(1) power_increasing [OF assms(2), of "2::nat"]
    by (auto simp: fits_def intro: less_le_trans)
  then have "map (\<lambda>v. v mod 2 ^ w) (elems a) = elems a" by (rule map_mod_id)
  then show ?thesis
    using assms(3) by (auto simp: crossfilter_arrayWiden_def uset_all_def ulength_def
        crossfilter_array16_def crossfilter_array32_def)
qed

lemma index_elems [simp]: "elems (crossfilter_index n m) = replicate n 0"
  by (simp add: crossfilter_index_def crossfilter_array8_def crossfilter_array16_def
      crossfilter_array32_def)

lemma ulength_index [simp]: "ulength (crossfilter_index n m) = n"
  by (simp add: ulength_def)

lemma fits_index [simp]: "fits (crossfilter_index n m)"
  by (simp add: fits_def)

lemma index_holds_ids:
  assumes "i < m" "m \<le> 2 ^ 32"
  shows "i < 2 ^ awidth (crossfilter_index n m)"
  using assms by (auto simp: crossfilter_index_def crossfilter_array8_def crossfilter_array16_def
      crossfilter_array32_def)

lemma range_loop_fills:
  assumes "i \<le> n" "length e = n" "n \<le> 2 ^ w" "take i e = [0..<i]"
  shows "range_loop (UArray w e) i n = Some (UArray w [0..<n])"
  using assms
proof (induction "n - i" arbitrary: i e)
  case 0
  then show ?case by (simp add: range_loop.simps)
next
  case (Suc k)
  have i: "i < n" "i < 2 ^ w" using Suc.hyps(2) Suc.prems(3) by simp_all
  have "take (Suc i) (e[i := i]) = [0..<Suc i]"
    using i Suc.prems(2,4) by (simp add: take_Suc_conv_app_nth)
  then have "range_loop (UArray w (e[i := i])) (i + 1) n = Some (UArray w [0..<n])"
    using Suc.hyps(1) [of "i + 1" "e[i := i]"] Suc.hyps(2) Suc.prems i by simp
  then show ?case using i Suc.prems(2) by (subst range_loop.simps) (simp add: uset_exact)
qed

lemma crossfilter_range_exact:
  assumes "n \<le> 2 ^ 32"
  shows "\<exists>w. crossfilter_range n = Some (UArray w [0..<n]) \<and> fits (UArray w [0..<n])"
proof -
  have "n \<le> 2 ^ awidth (crossfilter_index n n)"
    using index_holds_ids [of "n - 1" n n] assms by (cases n) auto
  then show ?thesis
    using range_loop_fills [of 0 n "replicate n 0" "awidth (crossfilter_index n n)"]
    by (cases "crossfilter_index n n")
       (auto simp: crossfilter_range_def fits_def dest: arg_cong [where f = elems])
qed

lemma arrayUntyped_loop_eq: "arrayUntyped_loop a n = a @ replicate (n - length a) 0"
proof (induction a n rule: arrayUntyped_loop.induct)
  case (1 a n)
  show ?case
  proof (cases "length a < n")
    case True
    then have "n - length a = Suc (n - Suc (length a))" by simp
    then show ?thesis using 1 [OF True] True by (subst arrayUntyped_loop.simps) simp
  qed (subst arrayUntyped_loop.simps, simp)
qed

end
