(* ===== verification/Cf_Dimension.thy ===== *)
theory Cf_Dimension
  imports Cf_Bisect Cf_Sort Cf_Arrays
begin

unbundle bit_operations_syntax

text \<open>
  \<^verbatim>\<open>crossfilter.js\<close>, lines 594 to 869: a dimension, its cached sorted values and index, and
  the operations that keep the filter bits of the records, as functions of the shared state
  they use: the data, the number of records \<open>n\<close>, the width \<open>M\<close> and the elements of the
  typed array \<^verbatim>\<open>filters\<close>. \<^verbatim>\<open>Cf_Core\<close> composes them with the listeners.

  An element of \<^verbatim>\<open>filters\<close> is the 32-bit word its bitwise operators see; a store keeps its
  low \<open>M\<close> bits.
\<close>

section \<open>Definitions\<close>

type_synonym filter_array = "32 word list"

datatype 'v refilter = Filter_all | Filter_exact 'v | Filter_range "'v \<times> 'v"
  \<comment> \<open>the closures the variable \<^verbatim>\<open>refilter\<close> holds\<close>

fun run_refilter :: "'v::ord refilter \<Rightarrow> 'v list \<Rightarrow> bounds option" where
  "run_refilter Filter_all vs = crossfilter_filterAll vs"
| "run_refilter (Filter_exact v) vs = crossfilter_filterExact v vs"
| "run_refilter (Filter_range r) vs = crossfilter_filterRange r vs"

record ('d, 'v) dimension =
  d_one :: "32 word"
  d_value :: "'d \<Rightarrow> 'v"
  d_values :: "'v list"
  d_index :: uarray
  d_newValues :: "'v list option"
  d_newIndex :: "uarray option"
  d_refilter :: "'v refilter"
  d_refilterFunction :: "('v \<Rightarrow> nat \<Rightarrow> bool) option"
  d_indexListeners :: "nat list"
  d_dimensionGroups :: "nat list"
  d_lo0 :: nat
  d_hi0 :: nat

definition new_dimension :: "32 word \<Rightarrow> ('d \<Rightarrow> 'v) \<Rightarrow> ('d, 'v) dimension" where
  "new_dimension one value = \<lparr>
     d_one = one, d_value = value, d_values = [], d_index = UArray 8 [],
     d_newValues = None, d_newIndex = None,
     d_refilter = Filter_all, d_refilterFunction = None,
     d_indexListeners = [], d_dimensionGroups = [], d_lo0 = 0, d_hi0 = 0\<rparr>"

abbreviation d_zero :: "('d, 'v) dimension \<Rightarrow> 32 word" where
  "d_zero D \<equiv> NOT (d_one D)"

subsection \<open>Stores into the filters\<close>

definition fset :: "nat \<Rightarrow> nat \<Rightarrow> 32 word \<Rightarrow> filter_array \<Rightarrow> filter_array option" where
  "fset M k v fs = aset fs k (take_bit M v)"

definition filter_or :: "nat \<Rightarrow> 32 word \<Rightarrow> nat \<Rightarrow> filter_array \<Rightarrow> filter_array option" where
  "filter_or M one k fs = do { v \<leftarrow> aget fs k; fset M k (v OR one) fs }"

definition filter_xor :: "nat \<Rightarrow> 32 word \<Rightarrow> nat \<Rightarrow> filter_array \<Rightarrow> filter_array option" where
  "filter_xor M one k fs = do { v \<leftarrow> aget fs k; fset M k (v XOR one) fs }"

definition filter_and :: "nat \<Rightarrow> 32 word \<Rightarrow> nat \<Rightarrow> filter_array \<Rightarrow> filter_array option" where
  "filter_and M zero k fs = do { v \<leftarrow> aget fs k; fset M k (v AND zero) fs }"

subsection \<open>Adding records\<close>

definition mark_new ::
  "nat \<Rightarrow> 32 word \<Rightarrow> ('v \<Rightarrow> nat \<Rightarrow> bool) option \<Rightarrow> 'v list \<Rightarrow> uarray \<Rightarrow> bounds \<Rightarrow> nat \<Rightarrow> nat \<Rightarrow>
     filter_array \<Rightarrow> filter_array option" where
  "mark_new M one refilterFunction newValues newIndex bounds n0 n1 filters =
     (case refilterFunction of
        Some f \<Rightarrow> ofold (\<lambda>i fs. do {
            v \<leftarrow> aget newValues i;
            if \<not> f v i then do { k \<leftarrow> uget newIndex i; filter_or M one (k + n0) fs } else Some fs
          }) [0..<n1] filters
      | None \<Rightarrow> do {
          fs \<leftarrow> ofold (\<lambda>i fs. do { k \<leftarrow> uget newIndex i; filter_or M one (k + n0) fs }) [0..<fst bounds] filters;
          ofold (\<lambda>i fs. do { k \<leftarrow> uget newIndex i; filter_or M one (k + n0) fs }) [snd bounds..<n1] fs
        })"

text \<open>
  The merge: \<^verbatim>\<open>values\<close> is written from its start without a gap, so it is the list of the
  elements written so far; \<^verbatim>\<open>index\<close> is the typed array.
\<close>

function merge_both ::
  "'v::ord list \<Rightarrow> uarray \<Rightarrow> 'v list \<Rightarrow> uarray \<Rightarrow> nat \<Rightarrow> nat \<Rightarrow>
     nat \<Rightarrow> nat \<Rightarrow> 'v list \<Rightarrow> uarray \<Rightarrow> (nat \<times> nat \<times> 'v list \<times> uarray) option" where
  "merge_both oldValues oldIndex newValues newIndex n0 n1 i0 i1 values index =
     (if i0 < n0 \<and> i1 < n1 then do {
        v0 \<leftarrow> aget oldValues i0;
        v1 \<leftarrow> aget newValues i1;
        if v0 < v1 then do {
          k \<leftarrow> uget oldIndex i0;
          index' \<leftarrow> uset index (length values) k;
          merge_both oldValues oldIndex newValues newIndex n0 n1 (i0 + 1) i1 (values @ [v0]) index'
        } else do {
          k \<leftarrow> uget newIndex i1;
          index' \<leftarrow> uset index (length values) (k + n0);
          merge_both oldValues oldIndex newValues newIndex n0 n1 i0 (i1 + 1) (values @ [v1]) index'
        }
      } else Some (i0, i1, values, index))"
  by auto
termination
  by (relation "measure (\<lambda>(_, _, _, _, n0, n1, i0, i1, _, _). (n0 - i0) + (n1 - i1))") auto

declare merge_both.simps [simp del]

definition merge_rest ::
  "'v list \<Rightarrow> uarray \<Rightarrow> nat \<Rightarrow> nat \<Rightarrow> nat \<Rightarrow> 'v list \<times> uarray \<Rightarrow> ('v list \<times> uarray) option" where
  \<comment> \<open>the remaining entries from \<open>i\<close> on, their ids shifted by \<open>shift\<close>\<close>
  "merge_rest vs ix shift i n acc = ofold (\<lambda>i (values, index). do {
       v \<leftarrow> aget vs i;
       k \<leftarrow> uget ix i;
       index' \<leftarrow> uset index (length values) (k + shift);
       Some (values @ [v], index')
     }) [i..<n] acc"

definition preAdd ::
  "nat \<Rightarrow> nat \<Rightarrow> 'd list \<Rightarrow> nat \<Rightarrow> nat \<Rightarrow> filter_array \<Rightarrow> ('d, 'v::ord) dimension \<Rightarrow>
     (filter_array \<times> ('d, 'v) dimension) option" where
  "preAdd M n newData n0 n1 filters D = do {
     let unsorted = map (d_value D) newData;
     rng \<leftarrow> crossfilter_range n1;
     sorted \<leftarrow> quicksort (\<lambda>i. unsorted ! i) (elems rng) 0 n1;
     let newIndex = UArray (awidth rng) sorted;
     newValues \<leftarrow> permute unsorted sorted;
     bounds \<leftarrow> run_refilter (d_refilter D) newValues;
     filters \<leftarrow> mark_new M (d_one D) (d_refilterFunction D) newValues newIndex bounds n0 n1 filters;
     let D = D\<lparr>d_newValues := Some newValues, d_newIndex := Some newIndex\<rparr>;
     if n0 = 0 then
       Some (filters, D\<lparr>d_values := newValues, d_index := newIndex,
                         d_lo0 := fst bounds, d_hi0 := snd bounds\<rparr>)
     else do {
       (i0, i1, values, index) \<leftarrow>
         merge_both (d_values D) (d_index D) newValues newIndex n0 n1 0 0 [] (crossfilter_index n n);
       acc \<leftarrow> merge_rest (d_values D) (d_index D) 0 i0 n0 (values, index);
       (values, index) \<leftarrow> merge_rest newValues newIndex n0 i1 n1 acc;
       bounds \<leftarrow> run_refilter (d_refilter D) values;
       Some (filters, D\<lparr>d_values := values, d_index := index,
                         d_lo0 := fst bounds, d_hi0 := snd bounds\<rparr>)
     }
   }"

subsection \<open>Removing the selected records\<close>

definition dimension_removeData ::
  "uarray \<Rightarrow> nat \<Rightarrow> filter_array \<Rightarrow> ('d, 'v::ord) dimension \<Rightarrow> ('d, 'v) dimension option" where
  "dimension_removeData reIndex n filters D = do {
     (values, index, j) \<leftarrow> ofold (\<lambda>i (values, index, j). do {
         k \<leftarrow> uget index i;
         fk \<leftarrow> aget filters k;
         if fk \<noteq> 0 then do {
           values \<leftarrow> (if i \<noteq> j then do { v \<leftarrow> aget values i; aset values j v } else Some values);
           k' \<leftarrow> uget reIndex k;
           index \<leftarrow> uset index j k';
           Some (values, index, j + 1)
         } else Some (values, index, j)
       }) [0..<n] (d_values D, d_index D, 0);
     let values = take j values;
     index \<leftarrow> ofold (\<lambda>j index. uset index j 0) [j..<n] index;
     bounds \<leftarrow> run_refilter (d_refilter D) values;
     Some (D\<lparr>d_values := values, d_index := index, d_lo0 := fst bounds, d_hi0 := snd bounds\<rparr>)
   }"

subsection \<open>Changing the filter\<close>

type_synonym change = "nat list \<times> nat list"
  \<comment> \<open>the records \<^verbatim>\<open>added\<close> and \<^verbatim>\<open>removed\<close>\<close>

definition xor_added ::
  "nat \<Rightarrow> 32 word \<Rightarrow> uarray \<Rightarrow> nat \<Rightarrow> nat \<Rightarrow> filter_array \<times> nat list \<Rightarrow> (filter_array \<times> nat list) option" where
  "xor_added M one index i j acc = ofold (\<lambda>i (fs, ks). do {
       k \<leftarrow> uget index i;
       fs \<leftarrow> filter_xor M one k fs;
       Some (fs, ks @ [k])
     }) [i..<j] acc"

definition filter_lo ::
  "nat \<Rightarrow> ('d, 'v) dimension \<Rightarrow> bounds \<Rightarrow> filter_array \<Rightarrow> (filter_array \<times> change) option" where
  "filter_lo M D bounds fs =
     (let lo0 = d_lo0 D; hi0 = d_hi0 D; lo1 = fst bounds; hi1 = snd bounds in
      if lo1 < lo0 then do {
        (fs, added) \<leftarrow> xor_added M (d_one D) (d_index D) lo1 (min lo0 hi1) (fs, []);
        Some (fs, added, [])
      } else if lo1 > lo0 then do {
        (fs, removed) \<leftarrow> xor_added M (d_one D) (d_index D) lo0 (min lo1 hi0) (fs, []);
        Some (fs, [], removed)
      } else Some (fs, [], []))"

definition filter_hi ::
  "nat \<Rightarrow> ('d, 'v) dimension \<Rightarrow> bounds \<Rightarrow> filter_array \<times> change \<Rightarrow> (filter_array \<times> change) option" where
  "filter_hi M D bounds acc =
     (let lo0 = d_lo0 D; hi0 = d_hi0 D; lo1 = fst bounds; hi1 = snd bounds;
          (fs, added, removed) = acc in
      if hi1 > hi0 then do {
        (fs, added) \<leftarrow> xor_added M (d_one D) (d_index D) (max lo1 hi0) hi1 (fs, added);
        Some (fs, added, removed)
      } else if hi1 < hi0 then do {
        (fs, removed) \<leftarrow> xor_added M (d_one D) (d_index D) (max lo0 hi1) hi0 (fs, removed);
        Some (fs, added, removed)
      } else Some (fs, added, removed))"

definition filterIndexFunction ::
  "nat \<Rightarrow> nat \<Rightarrow> ('d, 'v) dimension \<Rightarrow> ('v \<Rightarrow> nat \<Rightarrow> bool) \<Rightarrow> filter_array \<Rightarrow>
     (filter_array \<times> change) option" where
  "filterIndexFunction M n D f fs = ofold (\<lambda>i (fs, added, removed). do {
       k \<leftarrow> uget (d_index D) i;
       fk \<leftarrow> aget fs k;
       v \<leftarrow> aget (d_values D) i;
       let x = f v i;
       if (fk AND d_one D = 0) \<noteq> x then
         (if x then do { fs \<leftarrow> filter_and M (d_zero D) k fs; Some (fs, added @ [k], removed) }
          else do { fs \<leftarrow> filter_or M (d_one D) k fs; Some (fs, added, removed @ [k]) })
       else Some (fs, added, removed)
     }) [0..<n] (fs, [], [])"

definition filterIndexBounds ::
  "nat \<Rightarrow> nat \<Rightarrow> bounds \<Rightarrow> ('d, 'v) dimension \<Rightarrow> filter_array \<Rightarrow>
     (filter_array \<times> change \<times> ('d, 'v) dimension) option" where
  "filterIndexBounds M n bounds D fs = do {
     (fs, change) \<leftarrow>
       (if d_refilterFunction D \<noteq> None
        then filterIndexFunction M n D (\<lambda>d i. fst bounds \<le> i \<and> i < snd bounds) fs
        else do { acc \<leftarrow> filter_lo M D bounds fs; filter_hi M D bounds acc });
     Some (fs, change, D\<lparr>d_refilterFunction := None, d_lo0 := fst bounds, d_hi0 := snd bounds\<rparr>)
   }"

text \<open>The argument of \<^verbatim>\<open>filter\<close>: null, an array, a function or another value.\<close>

datatype 'v filter_arg =
  Arg_null | Arg_array "'v \<times> 'v" | Arg_function "'v \<Rightarrow> nat \<Rightarrow> bool" | Arg_value 'v

definition filter_refilter ::
  "nat \<Rightarrow> nat \<Rightarrow> 'v::ord refilter \<Rightarrow> ('d, 'v) dimension \<Rightarrow> filter_array \<Rightarrow>
     (filter_array \<times> change \<times> ('d, 'v) dimension) option" where
  \<comment> \<open>\<^verbatim>\<open>filterIndexBounds((refilter = r)(values))\<close>\<close>
  "filter_refilter M n r D fs = do {
     bounds \<leftarrow> run_refilter r (d_values D);
     filterIndexBounds M n bounds (D\<lparr>d_refilter := r\<rparr>) fs
   }"

definition filterFunction ::
  "nat \<Rightarrow> nat \<Rightarrow> ('v \<Rightarrow> nat \<Rightarrow> bool) \<Rightarrow> ('d, 'v) dimension \<Rightarrow> filter_array \<Rightarrow>
     (filter_array \<times> change \<times> ('d, 'v) dimension) option" where
  "filterFunction M n f D fs = do {
     let D = D\<lparr>d_refilter := Filter_all, d_refilterFunction := Some f\<rparr>;
     (fs, change) \<leftarrow> filterIndexFunction M n D f fs;
     Some (fs, change, D\<lparr>d_lo0 := 0, d_hi0 := n\<rparr>)
   }"

fun dimension_filter ::
  "nat \<Rightarrow> nat \<Rightarrow> 'v::ord filter_arg \<Rightarrow> ('d, 'v) dimension \<Rightarrow> filter_array \<Rightarrow>
     (filter_array \<times> change \<times> ('d, 'v) dimension) option" where
  "dimension_filter M n Arg_null D fs = filter_refilter M n Filter_all D fs"
| "dimension_filter M n (Arg_array r) D fs = filter_refilter M n (Filter_range r) D fs"
| "dimension_filter M n (Arg_function f) D fs = filterFunction M n f D fs"
| "dimension_filter M n (Arg_value v) D fs = filter_refilter M n (Filter_exact v) D fs"

subsection \<open>The selected records in order\<close>

fun top_loop :: "uarray \<Rightarrow> filter_array \<Rightarrow> 'd list \<Rightarrow> nat \<Rightarrow> nat \<Rightarrow> nat \<Rightarrow> 'd list option" where
  \<comment> \<open>the rest of the array that \<^verbatim>\<open>top\<close> returns, from the loop test at \<open>i\<close> on\<close>
  "top_loop index filters data lo0 0 k = Some []"
| "top_loop index filters data lo0 (Suc i) k =
     (if i \<ge> lo0 \<and> k > 0 then do {
        j \<leftarrow> uget index i;
        fj \<leftarrow> aget filters j;
        if fj = 0 then do {
          d \<leftarrow> aget data j;
          ds \<leftarrow> top_loop index filters data lo0 i (k - 1);
          Some (d # ds)
        } else top_loop index filters data lo0 i k
      } else Some [])"

definition dimension_top :: "filter_array \<Rightarrow> 'd list \<Rightarrow> nat \<Rightarrow> ('d, 'v) dimension \<Rightarrow> 'd list option" where
  "dimension_top filters data k D = top_loop (d_index D) filters data (d_lo0 D) (d_hi0 D) k"

function bottom_loop :: "uarray \<Rightarrow> filter_array \<Rightarrow> 'd list \<Rightarrow> nat \<Rightarrow> nat \<Rightarrow> nat \<Rightarrow> 'd list option" where
  "bottom_loop index filters data hi0 i k =
     (if i < hi0 \<and> k > 0 then do {
        j \<leftarrow> uget index i;
        fj \<leftarrow> aget filters j;
        if fj = 0 then do {
          d \<leftarrow> aget data j;
          ds \<leftarrow> bottom_loop index filters data hi0 (i + 1) (k - 1);
          Some (d # ds)
        } else bottom_loop index filters data hi0 (i + 1) k
      } else Some [])"
  by auto
termination by (relation "measure (\<lambda>(_, _, _, hi0, i, _). hi0 - i)") auto

declare bottom_loop.simps [simp del]

definition dimension_bottom :: "filter_array \<Rightarrow> 'd list \<Rightarrow> nat \<Rightarrow> ('d, 'v) dimension \<Rightarrow> 'd list option" where
  "dimension_bottom filters data k D = bottom_loop (d_index D) filters data (d_hi0 D) (d_lo0 D) k"

end
