(* ===== verification/Cf_Heap.thy ===== *)
theory Cf_Heap
  imports Js_Prelude
begin

text \<open>
  \<^verbatim>\<open>crossfilter.js\<close>, lines 58 to 137: the binary heap of \<^verbatim>\<open>heap_by\<close> (\<^verbatim>\<open>heap\<close>,
  \<^verbatim>\<open>sort\<close> and the internal \<^verbatim>\<open>sift\<close>) and \<^verbatim>\<open>heapselect_by\<close>. A heap lives in the
  slice \<open>a[lo : lo + n]\<close>; its positions count from 1, so position \<open>i\<close> is the array
  index \<open>lo + i - 1\<close> (the source decrements \<^verbatim>\<open>lo\<close> once, on entry to \<^verbatim>\<open>sift\<close>).
\<close>

section \<open>Definitions\<close>

definition heap_get :: "'a list \<Rightarrow> nat \<Rightarrow> nat \<Rightarrow> 'a option" where
  \<comment> \<open>\<^verbatim>\<open>a[lo + i]\<close> after \<^verbatim>\<open>--lo\<close>\<close>
  "heap_get a lo i = do { p \<leftarrow> pred_index (lo + i); aget a p }"

definition heap_set :: "'a list \<Rightarrow> nat \<Rightarrow> nat \<Rightarrow> 'a \<Rightarrow> 'a list option" where
  "heap_set a lo i v = do { p \<leftarrow> pred_index (lo + i); aset a p v }"

partial_function (option) sift_loop ::
  "('a \<Rightarrow> 'v::ord) \<Rightarrow> 'v \<Rightarrow> nat \<Rightarrow> nat \<Rightarrow> 'a list \<Rightarrow> nat \<Rightarrow> ('a list \<times> nat) option" where
  "sift_loop f x n lo a i = do {
     child \<leftarrow> shl1 i;
     if child \<le> n then do {
       child \<leftarrow> (if child < n then do {
                    l \<leftarrow> heap_get a lo child;
                    r \<leftarrow> heap_get a lo (child + 1);
                    Some (if f l > f r then child + 1 else child)
                  } else Some child);
       c \<leftarrow> heap_get a lo child;
       if x \<le> f c then Some (a, i)
       else do {
         a \<leftarrow> heap_set a lo i c;
         sift_loop f x n lo a child
       }
     } else Some (a, i)
   }"

declare sift_loop.simps [code]

definition sift :: "('a \<Rightarrow> 'v::ord) \<Rightarrow> 'a list \<Rightarrow> nat \<Rightarrow> nat \<Rightarrow> nat \<Rightarrow> 'a list option" where
  "sift f a i n lo = do {
     d \<leftarrow> heap_get a lo i;
     (a, i) \<leftarrow> sift_loop f (f d) n lo a i;
     heap_set a lo i d
   }"

primrec heap_loop :: "('a \<Rightarrow> 'v::ord) \<Rightarrow> nat \<Rightarrow> nat \<Rightarrow> nat \<Rightarrow> 'a list \<Rightarrow> 'a list option" where
  \<comment> \<open>\<^verbatim>\<open>while (--i > 0) sift(a, i, n, lo)\<close>, called with the value of \<open>i\<close> after the decrement\<close>
  "heap_loop f n lo 0 a = Some a"
| "heap_loop f n lo (Suc i) a = do { a \<leftarrow> sift f a (Suc i) n lo; heap_loop f n lo i a }"

definition heap :: "('a \<Rightarrow> 'v::ord) \<Rightarrow> 'a list \<Rightarrow> nat \<Rightarrow> nat \<Rightarrow> 'a list option" where
  "heap f a lo hi = (let n = hi - lo in heap_loop f n lo (ushr1 n) a)"

primrec heap_sort_loop :: "('a \<Rightarrow> 'v::ord) \<Rightarrow> nat \<Rightarrow> nat \<Rightarrow> 'a list \<Rightarrow> 'a list option" where
  \<comment> \<open>\<^verbatim>\<open>while (--n > 0)\<close>, called with the value of \<open>n\<close> after the decrement\<close>
  "heap_sort_loop f lo 0 a = Some a"
| "heap_sort_loop f lo (Suc n) a = do {
     t \<leftarrow> aget a lo;
     v \<leftarrow> aget a (lo + Suc n);
     a \<leftarrow> aset a lo v;
     a \<leftarrow> aset a (lo + Suc n) t;
     a \<leftarrow> sift f a 1 (Suc n) lo;
     heap_sort_loop f lo n a
   }"

definition heap_sort :: "('a \<Rightarrow> 'v::ord) \<Rightarrow> 'a list \<Rightarrow> nat \<Rightarrow> nat \<Rightarrow> 'a list option" where
  "heap_sort f a lo hi = heap_sort_loop f lo (hi - lo - 1) a"

primrec heapselect_loop ::
  "('a \<Rightarrow> 'v::ord) \<Rightarrow> nat \<Rightarrow> 'a list \<Rightarrow> 'v \<Rightarrow> 'a list \<Rightarrow> 'a list option" where
  \<comment> \<open>the \<^verbatim>\<open>do ... while (++lo < hi)\<close> loop over the remaining elements\<close>
  "heapselect_loop f k queue mn [] = Some queue"
| "heapselect_loop f k queue mn (d # ds) =
     (if f d > mn then do {
        queue \<leftarrow> aset queue 0 d;
        queue \<leftarrow> heap f queue 0 k;
        h \<leftarrow> aget queue 0;
        heapselect_loop f k queue (f h) ds
      } else heapselect_loop f k queue mn ds)"

definition heapselect :: "('a \<Rightarrow> 'v::ord) \<Rightarrow> 'a list \<Rightarrow> nat \<Rightarrow> nat \<Rightarrow> nat \<Rightarrow> 'a list option" where
  "heapselect f a lo hi k = do {
     let k = min (hi - lo) k;
     queue \<leftarrow> those (map (\<lambda>i. aget a (lo + i)) [0..<k]);
     queue \<leftarrow> heap f queue 0 k;
     if lo + k < hi then do {
       h \<leftarrow> aget queue 0;
       ds \<leftarrow> those (map (aget a) [lo + k..<hi]);
       heapselect_loop f k queue (f h) ds
     } else Some queue
   }"

section \<open>The heap property\<close>

definition heap_at :: "'a list \<Rightarrow> nat \<Rightarrow> nat \<Rightarrow> 'a" where
  "heap_at a lo i = a ! (lo + i - 1)"

definition heap_from :: "('a \<Rightarrow> 'v::ord) \<Rightarrow> 'a list \<Rightarrow> nat \<Rightarrow> nat \<Rightarrow> nat \<Rightarrow> bool" where
  \<comment> \<open>every position from \<open>s\<close> on is at most its children, inside \<open>n\<close> positions\<close>
  "heap_from f a lo n s \<longleftrightarrow>
     (\<forall>i j. s \<le> i \<and> j \<le> n \<and> (j = 2 * i \<or> j = 2 * i + 1) \<longrightarrow> f (heap_at a lo i) \<le> f (heap_at a lo j))"

definition is_heap :: "('a \<Rightarrow> 'v::ord) \<Rightarrow> 'a list \<Rightarrow> nat \<Rightarrow> nat \<Rightarrow> bool" where
  "is_heap f a lo n = heap_from f a lo n 1"

lemma heap_get_Some [simp]: "0 < i \<Longrightarrow> lo + i \<le> length a \<Longrightarrow> heap_get a lo i = Some (heap_at a lo i)"
  by (simp add: heap_get_def heap_at_def)

lemma heap_set_Some [simp]: "0 < i \<Longrightarrow> lo + i \<le> length a \<Longrightarrow> heap_set a lo i v = Some (a[lo + i - 1 := v])"
  by (simp add: heap_set_def)

lemma heap_at_upd [simp]:
  "0 < i \<Longrightarrow> 0 < j \<Longrightarrow> lo + i \<le> length a \<Longrightarrow>
   heap_at (a[lo + i - Suc 0 := v]) lo j = (if i = j then v else heap_at a lo j)"
  by (auto simp: heap_at_def nth_list_update)

subsection \<open>Sifting down\<close>

definition plug :: "'a list \<Rightarrow> nat \<Rightarrow> nat \<Rightarrow> 'a \<Rightarrow> 'a list" where
  \<comment> \<open>the array with the sifted element back in the hole\<close>
  "plug a lo i d = a[lo + i - 1 := d]"

definition child_of :: "nat \<Rightarrow> nat \<Rightarrow> bool" where
  "child_of p c \<longleftrightarrow> c = 2 * p \<or> c = 2 * p + 1"

definition hole_inv ::
  "('a \<Rightarrow> 'v::ord) \<Rightarrow> 'a \<Rightarrow> nat \<Rightarrow> nat \<Rightarrow> nat \<Rightarrow> 'a list \<Rightarrow> nat \<Rightarrow> bool" where
  "hole_inv f d lo n s a i \<longleftrightarrow>
     1 \<le> s \<and> s \<le> i \<and> i \<le> n \<and> lo + n \<le> length a \<and>
     (\<forall>p c. s \<le> p \<and> p \<noteq> i \<and> child_of p c \<and> c \<le> n \<longrightarrow>
        f (heap_at (plug a lo i d) lo p) \<le> f (heap_at (plug a lo i d) lo c)) \<and>
     (\<forall>p c. s \<le> p \<and> child_of p i \<and> child_of i c \<and> c \<le> n \<longrightarrow>
        f (heap_at (plug a lo i d) lo p) \<le> f (heap_at (plug a lo i d) lo c))"

lemma heap_from_child: "heap_from f a lo n s \<longleftrightarrow>
    (\<forall>p c. s \<le> p \<and> child_of p c \<and> c \<le> n \<longrightarrow> f (heap_at a lo p) \<le> f (heap_at a lo c))"
  unfolding heap_from_def child_of_def by blast

lemma child_of_unique: "child_of p c \<Longrightarrow> child_of q c \<Longrightarrow> p = q"
  unfolding child_of_def by arith

lemma child_of_less: "child_of p c \<Longrightarrow> 0 < p \<Longrightarrow> p < c"
  unfolding child_of_def by arith

lemma length_plug [simp]: "length (plug a lo i d) = length a"
  by (simp add: plug_def)

lemma heap_at_plug:
  "0 < i \<Longrightarrow> 0 < j \<Longrightarrow> lo + i \<le> length a \<Longrightarrow>
   heap_at (plug a lo i d) lo j = (if j = i then d else heap_at a lo j)"
  by (simp add: plug_def)

lemma plug_move:
  assumes "0 < i" "0 < c" "i \<noteq> c" "lo + i \<le> length a" "lo + c \<le> length a"
  shows "plug (a[lo + i - 1 := heap_at a lo c]) lo c d =
    (let b = plug a lo i d in b[lo + i - 1 := b ! (lo + c - 1), lo + c - 1 := b ! (lo + i - 1)])"
  using assms by (auto simp: plug_def heap_at_def Let_def nth_list_update)

lemma hole_inv_move:
  fixes f :: "'a \<Rightarrow> 'v::linorder"
  assumes inv: "hole_inv f d lo n s a i" and c: "child_of i c" "c \<le> n"
    and least: "\<And>c'. child_of i c' \<Longrightarrow> c' \<le> n \<Longrightarrow> f (heap_at a lo c) \<le> f (heap_at a lo c')"
    and lt: "f (heap_at a lo c) < f d"
  shows "hole_inv f d lo n s (a[lo + i - 1 := heap_at a lo c]) c"
proof -
  let ?a = "a[lo + i - 1 := heap_at a lo c]"
  have bnd: "1 \<le> s" "s \<le> i" "i \<le> n" "lo + n \<le> length a" "i < c"
    using inv c unfolding hole_inv_def child_of_def by auto
  have h': "heap_at (plug ?a lo c d) lo j = (if j = c then d else if j = i then heap_at a lo c else heap_at a lo j)"
    if "0 < j" "j \<le> n" for j
    using that bnd c by (auto simp: heap_at_plug)
  have h: "heap_at (plug a lo i d) lo j = (if j = i then d else heap_at a lo j)" if "0 < j" for j
    using that bnd by (simp add: heap_at_plug)
  have edge: "f (if p = i then d else heap_at a lo p) \<le> f (if e = i then d else heap_at a lo e)"
    if "s \<le> p" "p \<noteq> i" "child_of p e" "e \<le> n" for p e
  proof -
    have "f (heap_at (plug a lo i d) lo p) \<le> f (heap_at (plug a lo i d) lo e)" "0 < p" "0 < e"
      using that inv bnd unfolding hole_inv_def by (blast, auto simp: child_of_def)
    then show ?thesis by (simp only: h)
  qed
  have grand: "f (heap_at a lo p) \<le> f (heap_at a lo e)"
    if "s \<le> p" "child_of p i" "child_of i e" "e \<le> n" for p e
  proof -
    have "p \<noteq> i" "e \<noteq> i" "0 < p" "0 < e" using that bnd unfolding child_of_def by auto
    moreover have "f (heap_at (plug a lo i d) lo p) \<le> f (heap_at (plug a lo i d) lo e)"
      using that inv unfolding hole_inv_def by blast
    ultimately show ?thesis by (simp add: h)
  qed
  have 1: "f (heap_at (plug ?a lo c d) lo p) \<le> f (heap_at (plug ?a lo c d) lo e)"
    if "s \<le> p" "p \<noteq> c" "child_of p e" "e \<le> n" for p e
  proof -
    have pe: "0 < p" "p < e" "p \<le> n" using that bnd unfolding child_of_def by auto
    consider (here) "p = i" | (above) "e = i" | (else) "p \<noteq> i" "e \<noteq> i" by blast
    then show ?thesis
    proof cases
      case here
      then show ?thesis using that pe h' [of p] h' [of e] lt least [of e] c bnd by auto
    next
      case above
      then show ?thesis using that pe h' [of p] h' [of e] grand [of p c] c bnd by auto
    next
      case else
      then have "e \<noteq> c" using child_of_unique [OF that(3)] c(1) by blast
      then show ?thesis using else that pe h' [of p] h' [of e] edge [of p e] by auto
    qed
  qed
  have 2: "f (heap_at (plug ?a lo c d) lo p) \<le> f (heap_at (plug ?a lo c d) lo e)"
    if "s \<le> p" "child_of p c" "child_of c e" "e \<le> n" for p e
  proof -
    have "p = i" using child_of_unique [OF that(2) c(1)] .
    moreover have "c < e" using child_of_less [OF that(3)] bnd by simp
    ultimately show ?thesis
      using that bnd c h' [of p] h' [of e] edge [of c e] by auto
  qed
  show ?thesis unfolding hole_inv_def using bnd c 1 2 by auto
qed

lemma sift_loop_correct:
  fixes f :: "'a \<Rightarrow> 'v::linorder"
  assumes "hole_inv f d lo n s a i" "n < 2 ^ 30"
  shows "\<exists>a' i'. sift_loop f (f d) n lo a i = Some (a', i') \<and> 0 < i' \<and> i' \<le> n \<and>
    rearranged lo (lo + n) (plug a lo i d) (plug a' lo i' d) \<and>
    heap_from f (plug a' lo i' d) lo n s"
  using assms(1)
proof (induction "n - i" arbitrary: a i rule: less_induct)
  case less
  have bnd: "1 \<le> s" "s \<le> i" "i \<le> n" "lo + n \<le> length a"
    using less.prems unfolding hole_inv_def by auto
  have shl: "shl1 i = Some (2 * i)" using bnd assms(2) by (simp add: shl1_exact)
  show ?case
  proof (cases "2 * i \<le> n")
    case False
    then have "heap_from f (plug a lo i d) lo n s"
      using less.prems unfolding hole_inv_def heap_from_child child_of_def by auto
    then show ?thesis using False bnd by (simp add: sift_loop.simps shl)
  next
    case True
    define c where "c = (if 2 * i < n \<and> f (heap_at a lo (2 * i + 1)) < f (heap_at a lo (2 * i))
      then 2 * i + 1 else 2 * i)"
    have c: "child_of i c" "c \<le> n" "i < c" "0 < c"
      using True bnd by (auto simp: c_def child_of_def)
    have least: "f (heap_at a lo c) \<le> f (heap_at a lo c')" if "child_of i c'" "c' \<le> n" for c'
      using that True by (auto simp: c_def child_of_def)
    have step: "sift_loop f (f d) n lo a i =
       (if f d \<le> f (heap_at a lo c) then Some (a, i)
        else sift_loop f (f d) n lo (a[lo + i - 1 := heap_at a lo c]) c)"
      using True bnd c by (subst sift_loop.simps) (auto simp: shl c_def)
    show ?thesis
    proof (cases "f d \<le> f (heap_at a lo c)")
      case le: True
      have "f (heap_at (plug a lo i d) lo p) \<le> f (heap_at (plug a lo i d) lo e)"
        if "s \<le> p" "child_of p e" "e \<le> n" for p e
      proof (cases "p = i")
        case False
        then show ?thesis using that less.prems unfolding hole_inv_def by blast
      next
        case True
        then have "e \<noteq> i" "0 < e" using that bnd unfolding child_of_def by auto
        then show ?thesis
          using True that bnd le least [of e] by (simp add: heap_at_plug order_trans)
      qed
      then show ?thesis using le bnd by (auto simp: step heap_from_child)
    next
      case gt: False
      let ?a = "a[lo + i - 1 := heap_at a lo c]"
      have inv: "hole_inv f d lo n s ?a c"
        using hole_inv_move [OF less.prems c(1,2) least] gt by simp
      have "rearranged lo (lo + n) (plug a lo i d) (plug ?a lo c d)"
        unfolding plug_move [of i c lo a d, OF _ c(4)] Let_def
        using bnd c by (subst plug_move) (auto simp: Let_def intro!: rearranged_swap)
      moreover obtain a' i' where "sift_loop f (f d) n lo ?a c = Some (a', i')" "0 < i'" "i' \<le> n"
        "rearranged lo (lo + n) (plug ?a lo c d) (plug a' lo i' d)"
        "heap_from f (plug a' lo i' d) lo n s"
        using less.hyps [OF _ inv] c by fastforce
      ultimately show ?thesis using gt by (auto simp: step intro: rearranged_trans)
    qed
  qed
qed

lemma plug_self [simp]: "plug a lo i (heap_at a lo i) = a"
  by (simp add: plug_def heap_at_def)

lemma sift_correct:
  fixes f :: "'a \<Rightarrow> 'v::linorder"
  assumes heap: "heap_from f a lo n (Suc i)" and bnd: "0 < i" "i \<le> n" "lo + n \<le> length a" "n < 2 ^ 30"
  shows "\<exists>b. sift f a i n lo = Some b \<and> rearranged lo (lo + n) a b \<and> heap_from f b lo n i"
proof -
  let ?d = "heap_at a lo i"
  have inv: "hole_inv f ?d lo n i a i"
    using heap bnd unfolding hole_inv_def heap_from_child child_of_def by auto
  obtain a' i' where *: "sift_loop f (f ?d) n lo a i = Some (a', i')" "0 < i'" "i' \<le> n"
    "rearranged lo (lo + n) a (plug a' lo i' ?d)" "heap_from f (plug a' lo i' ?d) lo n i"
    using sift_loop_correct [OF inv bnd(4)] by auto
  then have "length a' = length a" using rearranged_length [OF *(4)] by simp
  with * bnd show ?thesis by (auto simp: sift_def plug_def)
qed

subsection \<open>Building a heap\<close>

lemma heap_from_mono: "heap_from f a lo n s \<Longrightarrow> s \<le> t \<Longrightarrow> m \<le> n \<Longrightarrow> heap_from f a lo m t"
  unfolding heap_from_child by (meson le_trans)

lemma heap_loop_correct:
  fixes f :: "'a \<Rightarrow> 'v::linorder"
  assumes "heap_from f a lo n (Suc i)" "i \<le> n" "lo + n \<le> length a" "n < 2 ^ 30"
  shows "\<exists>b. heap_loop f n lo i a = Some b \<and> rearranged lo (lo + n) a b \<and> is_heap f b lo n"
  using assms
proof (induction i arbitrary: a)
  case 0
  then show ?case by (simp add: is_heap_def)
next
  case (Suc i)
  obtain b where b: "sift f a (Suc i) n lo = Some b" "rearranged lo (lo + n) a b"
    "heap_from f b lo n (Suc i)"
    using sift_correct [OF Suc.prems(1)] Suc.prems by auto
  obtain c where "heap_loop f n lo i b = Some c" "rearranged lo (lo + n) b c" "is_heap f c lo n"
    using Suc.IH [OF b(3)] Suc.prems rearranged_length [OF b(2)] by auto
  with b show ?case by (auto intro: rearranged_trans)
qed

lemma heap_correct:
  fixes f :: "'a \<Rightarrow> 'v::linorder"
  assumes "lo \<le> hi" "hi \<le> length a" "hi - lo < 2 ^ 30"
  shows "\<exists>b. heap f a lo hi = Some b \<and> rearranged lo hi a b \<and> is_heap f b lo (hi - lo)"
proof -
  have "heap_from f a lo (hi - lo) (Suc ((hi - lo) div 2))"
    unfolding heap_from_child child_of_def by auto
  then show ?thesis
    using heap_loop_correct [of f a lo "hi - lo" "(hi - lo) div 2"] assms
    by (simp add: heap_def ushr1_exact Let_def)
qed

lemma is_heap_root_least:
  fixes f :: "'a \<Rightarrow> 'v::linorder"
  assumes "is_heap f a lo n" "0 < i" "i \<le> n"
  shows "f (a ! lo) \<le> f (heap_at a lo i)"
  using assms(2,3)
proof (induction i rule: less_induct)
  case (less i)
  show ?case
  proof (cases "i = 1")
    case True
    then show ?thesis by (simp add: heap_at_def)
  next
    case False
    have "child_of (i div 2) i" unfolding child_of_def by arith
    then have "f (heap_at a lo (i div 2)) \<le> f (heap_at a lo i)"
      using assms(1) less.prems False unfolding is_heap_def heap_from_child by auto
    moreover have "f (a ! lo) \<le> f (heap_at a lo (i div 2))"
      using less.IH [of "i div 2"] less.prems False by auto
    ultimately show ?thesis by (rule order_trans [rotated])
  qed
qed

lemma is_heap_root_least_slice:
  fixes f :: "'a \<Rightarrow> 'v::linorder"
  assumes "is_heap f a lo n" "lo + n \<le> length a" "x \<in> set (slice a lo (lo + n))"
  shows "f (a ! lo) \<le> f x"
proof -
  from assms obtain i where "lo \<le> i" "i < lo + n" "x = a ! i" by (auto simp: set_slice)
  then show ?thesis
    using is_heap_root_least [OF assms(1), of "i - lo + 1"] by (simp add: heap_at_def)
qed

subsection \<open>Sorting a heap\<close>

abbreviation descending :: "('a \<Rightarrow> 'v::ord) \<Rightarrow> 'a list \<Rightarrow> bool" where
  "descending f \<equiv> sorted_wrt (\<lambda>x y. f y \<le> f x)"

lemma heap_extract:
  fixes f :: "'a \<Rightarrow> 'v::linorder"
  assumes heap: "is_heap f a lo (Suc (Suc n))" and len: "lo + Suc (Suc n) \<le> length a" "n < 2 ^ 30 - 1"
  shows "\<exists>b. sift f (a[lo := a ! (lo + Suc n), lo + Suc n := a ! lo]) 1 (Suc n) lo = Some b \<and>
    rearranged lo (lo + Suc (Suc n)) a b \<and> b ! (lo + Suc n) = a ! lo \<and> is_heap f b lo (Suc n)"
proof -
  let ?a = "a[lo := a ! (lo + Suc n), lo + Suc n := a ! lo]"
  have same: "heap_at ?a lo i = heap_at a lo i" if "2 \<le> i" "i \<le> Suc n" for i
    using that len by (auto simp: heap_at_def nth_list_update)
  have hf: "heap_from f ?a lo (Suc n) (Suc 1)"
    unfolding heap_from_child
  proof (intro allI impI, elim conjE)
    fix p c assume pc: "Suc 1 \<le> p" "child_of p c" "c \<le> Suc n"
    then have "p < c" using child_of_less [OF pc(2)] by simp
    with pc show "f (heap_at ?a lo p) \<le> f (heap_at ?a lo c)"
      using heap same [of p] same [of c] unfolding is_heap_def heap_from_child by auto
  qed
  obtain b where b: "sift f ?a 1 (Suc n) lo = Some b" "rearranged lo (lo + Suc n) ?a b"
    "heap_from f b lo (Suc n) 1"
    using sift_correct [OF hf] len by auto
  have "rearranged lo (lo + Suc (Suc n)) a ?a"
    using rearranged_swap [of lo lo "lo + Suc (Suc n)" "lo + Suc n" a] len by simp
  then have "rearranged lo (lo + Suc (Suc n)) a b"
    using rearranged_mono [OF b(2), of lo "lo + Suc (Suc n)"] by (simp add: rearranged_trans)
  moreover have "b ! (lo + Suc n) = a ! lo"
    using rearranged_nth_outside [OF b(2), of "lo + Suc n"] len by simp
  ultimately show ?thesis using b by (auto simp: is_heap_def)
qed

lemma heap_sort_loop_correct:
  fixes f :: "'a \<Rightarrow> 'v::linorder"
  assumes "is_heap f a lo (Suc n)" "lo + Suc n \<le> hi" "hi \<le> length a" "n < 2 ^ 30"
    and "descending f (slice a (lo + Suc n) hi)"
    and "\<And>x y. x \<in> set (slice a lo (lo + Suc n)) \<Longrightarrow> y \<in> set (slice a (lo + Suc n) hi) \<Longrightarrow> f y \<le> f x"
  shows "\<exists>b. heap_sort_loop f lo n a = Some b \<and> rearranged lo hi a b \<and> descending f (slice b lo hi)"
  using assms
proof (induction n arbitrary: a)
  case 0
  then show ?case by (simp add: slice_Cons)
next
  case (Suc n)
  let ?m = "lo + Suc n"
  obtain b where b: "sift f (a[lo := a ! ?m, ?m := a ! lo]) 1 (Suc n) lo = Some b"
    "rearranged lo (Suc ?m) a b" "b ! ?m = a ! lo" "is_heap f b lo (Suc n)"
    using heap_extract [OF Suc.prems(1)] Suc.prems by auto
  have len: "length b = length a" using rearranged_length [OF b(2)] .
  have tail: "slice b ?m hi = a ! lo # slice a (Suc ?m) hi"
    using Suc.prems len b(3) rearranged_slice_right [OF b(2), of "Suc ?m" hi] slice_Cons [of ?m hi b]
    by simp
  have "set (slice b lo ?m) \<subseteq> set (slice b lo (Suc ?m))"
    using slice_snoc [of lo ?m b] Suc.prems len by auto
  also have "\<dots> = set (slice a lo (Suc ?m))"
    using rearranged_mset_slice [OF b(2)] Suc.prems by (intro mset_eq_setD) simp
  finally have sub: "set (slice b lo ?m) \<subseteq> set (slice a lo (Suc ?m))" .
  have least: "f (a ! lo) \<le> f x" if "x \<in> set (slice a lo (Suc ?m))" for x
    using is_heap_root_least_slice [OF Suc.prems(1)] that Suc.prems by simp
  have lo_in: "a ! lo \<in> set (slice a lo (Suc ?m))"
    using Suc.prems by (simp add: slice_Cons)
  have "\<exists>c. heap_sort_loop f lo n b = Some c \<and> rearranged lo hi b c \<and> descending f (slice c lo hi)"
  proof (rule Suc.IH [OF b(4)])
    show "descending f (slice b ?m hi)"
      unfolding tail using Suc.prems(5) Suc.prems(6) lo_in by auto
    fix x y assume x: "x \<in> set (slice b lo ?m)" and y: "y \<in> set (slice b ?m hi)"
    from x sub have "x \<in> set (slice a lo (Suc ?m))" by blast
    then show "f y \<le> f x" using y least Suc.prems(6) unfolding tail by auto
  qed (use Suc.prems len in auto)
  moreover have "rearranged lo hi a b"
    using b(2) Suc.prems by (auto intro: rearranged_mono)
  moreover have "heap_sort_loop f lo (Suc n) a = heap_sort_loop f lo n b"
    using b(1) Suc.prems by simp
  ultimately show ?case by (auto intro: rearranged_trans)
qed

lemma heap_sort_correct:
  fixes f :: "'a \<Rightarrow> 'v::linorder"
  assumes "is_heap f a lo (hi - lo)" "lo \<le> hi" "hi \<le> length a" "hi - lo \<le> 2 ^ 30"
  shows "\<exists>b. heap_sort f a lo hi = Some b \<and> rearranged lo hi a b \<and> descending f (slice b lo hi)"
proof (cases "lo = hi")
  case True
  then show ?thesis by (simp add: heap_sort_def)
next
  case False
  then show ?thesis
    using heap_sort_loop_correct [of f a lo "hi - lo - 1" hi] assms by (simp add: heap_sort_def Suc_diff_Suc)
qed

subsection \<open>Selecting the top k\<close>

definition top_part :: "('a \<Rightarrow> 'v::ord) \<Rightarrow> 'a list \<Rightarrow> 'a multiset \<Rightarrow> bool" where
  \<comment> \<open>\<open>q\<close> holds elements of \<open>M\<close>, none of them below an element left out\<close>
  "top_part f q M \<longleftrightarrow> (\<exists>rest. M = mset q + rest \<and> (\<forall>x \<in># rest. \<forall>y \<in> set q. f x \<le> f y))"

lemma heapselect_loop_correct:
  fixes f :: "'a \<Rightarrow> 'v::linorder"
  assumes "is_heap f q 0 k" "length q = k" "0 < k" "k < 2 ^ 30" "top_part f q M"
  shows "\<exists>r. heapselect_loop f k q (f (q ! 0)) ds = Some r \<and> length r = k \<and> is_heap f r 0 k \<and>
           top_part f r (M + mset ds)"
  using assms
proof (induction ds arbitrary: q M)
  case Nil
  then show ?case by simp
next
  case (Cons d ds)
  from Cons.prems(5) obtain rest where M: "M = mset q + rest"
    and rest: "\<And>x y. x \<in># rest \<Longrightarrow> y \<in> set q \<Longrightarrow> f x \<le> f y" by (auto simp: top_part_def)
  have least: "f (q ! 0) \<le> f y" if "y \<in> set q" for y
    using is_heap_root_least_slice [OF Cons.prems(1)] that Cons.prems(2)
    by (metis add_0 order_refl slice_whole)
  obtain h t where q: "q = h # t" using Cons.prems by (cases q) auto
  show ?case
  proof (cases "f d > f (q ! 0)")
    case False
    have "top_part f q (add_mset d M)"
      unfolding top_part_def
    proof (intro exI conjI ballI)
      show "add_mset d M = mset q + add_mset d rest" by (simp add: M)
      fix x y assume x: "x \<in># add_mset d rest" and y: "y \<in> set q"
      then show "f x \<le> f y" using rest [OF _ y] least [OF y] False by (auto simp: not_less)
    qed
    from Cons.IH [OF Cons.prems(1-4) this] False show ?thesis by simp
  next
    case True
    obtain r where r: "heap f (d # t) 0 k = Some r" "rearranged 0 k (d # t) r" "is_heap f r 0 k"
      using heap_correct [of 0 k "d # t" f] Cons.prems q by auto
    have len: "length r = k" using rearranged_length [OF r(2)] Cons.prems q by simp
    have mset_r: "mset r = mset (d # t)" using r(2) by (simp add: rearranged_def)
    have "top_part f r (add_mset d M)"
      unfolding top_part_def
    proof (intro exI conjI ballI)
      show "add_mset d M = mset r + add_mset h rest" by (simp add: M q mset_r)
      fix x y assume x: "x \<in># add_mset h rest" and "y \<in> set r"
      with mset_r have "y \<in> set (d # t)" by (metis mset_eq_setD)
      moreover have "f x \<le> f h" using x rest q by auto
      ultimately show "f x \<le> f y" using True least q by (auto intro: order_trans less_imp_le)
    qed
    from Cons.IH [OF r(3) len Cons.prems(3,4) this] True r(1) len Cons.prems(3) show ?thesis
      by (simp add: q)
  qed
qed

lemma those_aget: "lo \<le> hi \<Longrightarrow> hi \<le> length a \<Longrightarrow> those (map (aget a) [lo..<hi]) = Some (slice a lo hi)"
proof (induction "hi - lo" arbitrary: lo)
  case 0
  then show ?case by simp
next
  case (Suc n)
  then have "[lo..<hi] = lo # [Suc lo..<hi]" by (simp add: upt_conv_Cons)
  with Suc show ?case by (simp add: slice_Cons)
qed

lemma heapselect_correct:
  fixes f :: "'a \<Rightarrow> 'v::linorder"
  assumes "lo \<le> hi" "hi \<le> length a" "hi - lo < 2 ^ 30" "0 < k"
  shows "\<exists>q. heapselect f a lo hi k = Some q \<and> length q = min (hi - lo) k \<and>
           is_heap f q 0 (length q) \<and> top_part f q (mset (slice a lo hi))"
proof -
  define m where "m = min (hi - lo) k"
  have bnd: "m < 2 ^ 30" using assms(3) by (simp add: m_def)
  have upt: "map (\<lambda>i. aget a (lo + i)) [0..<m] = map (aget a) [lo..<lo + m]"
    by (rule nth_equalityI) simp_all
  have sl: "those (map (aget a) [lo..<lo + m]) = Some (slice a lo (lo + m))"
    "those (map (aget a) [lo + m..<hi]) = Some (slice a (lo + m) hi)"
    using assms by (simp_all add: those_aget m_def)
  have len: "length (slice a lo (lo + m)) = m" using assms by (simp add: m_def)
  obtain q where q: "heap f (slice a lo (lo + m)) 0 m = Some q"
    "rearranged 0 m (slice a lo (lo + m)) q" "is_heap f q 0 m"
    using heap_correct [of 0 m "slice a lo (lo + m)" f] bnd len by auto
  have lenq: "length q = m" using rearranged_length [OF q(2)] len by simp
  have msq: "mset q = mset (slice a lo (lo + m))" using q(2) by (simp add: rearranged_def)
  have top0: "top_part f q (mset (slice a lo (lo + m)))"
    unfolding top_part_def by (simp add: msq)
  have split: "mset (slice a lo hi) = mset (slice a lo (lo + m)) + mset (slice a (lo + m) hi)"
    using assms slice_append [of lo "lo + m" hi a] by (simp add: m_def)
  show ?thesis
  proof (cases "lo + m < hi")
    case True
    then have "0 < m" using assms by (simp add: m_def)
    then show ?thesis
      using heapselect_loop_correct [OF q(3) lenq _ _ top0, of "slice a (lo + m) hi"] True bnd lenq q(1)
      by (auto simp: heapselect_def upt sl split Let_def simp flip: m_def)
  next
    case False
    then have "slice a (lo + m) hi = []" by simp
    then show ?thesis using False q(1,3) lenq top0
      by (simp add: heapselect_def upt sl split Let_def flip: m_def)
  qed
qed

section \<open>Properties\<close>

lemma top_part_sorted:
  fixes f :: "'a \<Rightarrow> 'v::linorder"
  assumes "top_part f q (mset xs)" "descending f q"
  shows "map f q = take (length q) (rev (sort (map f xs)))"
proof -
  obtain rest where rest: "mset xs = mset q + rest" "\<forall>x \<in># rest. \<forall>y \<in> set q. f x \<le> f y"
    using assms(1) by (auto simp: top_part_def)
  obtain rs where rs: "mset rs = rest" by (metis ex_mset)
  have "sort (map f xs) = sort (map f rs) @ rev (map f q)"
  proof (rule properties_for_sort)
    show "mset (sort (map f rs) @ rev (map f q)) = mset (map f xs)"
      using rest(1) rs by simp
    have "sorted (rev (map f q))"
      using assms(2) by (simp add: sorted_wrt_rev sorted_wrt_map)
    then show "sorted (sort (map f rs) @ rev (map f q))"
      using rest(2) by (auto simp: sorted_append simp flip: rs)
  qed
  then show ?thesis by simp
qed

lemma heapselect_sorted:
  fixes f :: "'a \<Rightarrow> 'v::linorder"
  assumes "lo \<le> hi" "hi \<le> length a" "hi - lo < 2 ^ 30" "0 < k"
  shows "\<exists>q r. heapselect f a lo hi k = Some q \<and> heap_sort f q 0 (length q) = Some r \<and>
    mset r \<subseteq># mset (slice a lo hi) \<and> map f r = take k (rev (sort (map f (slice a lo hi))))"
proof -
  obtain q where q: "heapselect f a lo hi k = Some q" "length q = min (hi - lo) k"
    "is_heap f q 0 (length q)" "top_part f q (mset (slice a lo hi))"
    using heapselect_correct [OF assms] by blast
  obtain r where r: "heap_sort f q 0 (length q) = Some r" "rearranged 0 (length q) q r"
    "descending f (slice r 0 (length q))"
  proof -
    have "length q \<le> 2 ^ 30" using q(2) assms(3) by (simp add: min_def)
    then show thesis using heap_sort_correct [of f q 0 "length q"] q(3) that by auto
  qed
  have len: "length r = length q" using rearranged_length [OF r(2)] .
  have ms: "mset r = mset q" using r(2) by (simp add: rearranged_def)
  have top: "top_part f r (mset (slice a lo hi))"
    using q(4) ms mset_eq_setD [OF ms] by (simp add: top_part_def)
  have desc: "descending f r" using r(3) len by (metis slice_whole)
  have "map f r = take k (rev (sort (map f (slice a lo hi))))"
    using top_part_sorted [OF top desc] len q(2) assms by (simp add: min_def)
  moreover have "mset r \<subseteq># mset (slice a lo hi)"
    using top by (auto simp: top_part_def)
  ultimately show ?thesis using q(1) r(1) by blast
qed

text \<open>
  C9: building a heap in a slice returns, only permutes that slice, and leaves every
  position at most its two children.
\<close>

theorem heap_builds_heap:
  fixes f :: "'a \<Rightarrow> 'v::linorder"
  assumes "lo \<le> hi" "hi \<le> length a" "hi - lo < 2 ^ 30"
  shows "\<exists>b. heap f a lo hi = Some b \<and> mset b = mset a \<and> take lo b = take lo a \<and> drop hi b = drop hi a \<and>
    (\<forall>i c. c < hi - lo \<and> (c = 2 * i + 1 \<or> c = 2 * i + 2) \<longrightarrow> f (b ! (lo + i)) \<le> f (b ! (lo + c)))"
proof -
  obtain b where b: "heap f a lo hi = Some b" "rearranged lo hi a b" "is_heap f b lo (hi - lo)"
    using heap_correct [OF assms, of f] by blast
  have "f (b ! (lo + i)) \<le> f (b ! (lo + c))" if "c < hi - lo" "c = 2 * i + 1 \<or> c = 2 * i + 2" for i c
  proof -
    have "child_of (Suc i) (Suc c)" using that(2) by (auto simp: child_of_def)
    then have "f (heap_at b lo (Suc i)) \<le> f (heap_at b lo (Suc c))"
      using b(3) that(1) unfolding is_heap_def heap_from_child by auto
    then show ?thesis by (simp add: heap_at_def)
  qed
  with b show ?thesis unfolding rearranged_def by blast
qed

theorem heap_builds_heap_witness:
  "\<exists>b. heap id [5, 9, 2, 7, 1 :: int] 0 5 = Some b \<and> mset b = {#1, 2, 5, 7, 9#} \<and> b ! 0 \<le> b ! 2"
  using heap_builds_heap [of 0 5 "[5, 9, 2, 7, 1 :: int]" id] by (force simp: add_mset_commute)

text \<open>
  C4: selecting the top \<open>k\<close> with the heap and then sorting that heap, as the groups'
  \<^verbatim>\<open>top\<close> does, returns the \<open>k\<close> largest elements of the slice in descending order: their
  keys are the first \<open>k\<close> of the fully sorted slice read backwards.
\<close>

theorem heapselect_then_sort:
  fixes f :: "'a \<Rightarrow> 'v::linorder"
  assumes "lo \<le> hi" "hi \<le> length a" "hi - lo < 2 ^ 30" "0 < k"
  shows "\<exists>q r. heapselect f a lo hi k = Some q \<and> heap_sort f q 0 (length q) = Some r \<and>
    mset r \<subseteq># mset (slice a lo hi) \<and> map f r = take k (rev (sort (map f (slice a lo hi))))"
  by (rule heapselect_sorted [OF assms])

theorem heapselect_then_sort_witness:
  "\<exists>q r. heapselect id [5, 9, 2, 7, 1 :: int] 0 5 2 = Some q \<and> heap_sort id q 0 (length q) = Some r \<and>
     r = [9, 7]"
proof -
  have "sort [5, 9, 2, 7, 1 :: int] = [1, 2, 5, 7, 9]" by simp
  then show ?thesis
    using heapselect_then_sort [of 0 5 "[5, 9, 2, 7, 1 :: int]" 2 id] by (auto simp: slice_def)
qed

end
