(* ===== verification/Cf_Group.thy ===== *)
theory Cf_Group
  imports Cf_Bisect Cf_Heap Cf_Arrays
begin

unbundle bit_operations_syntax

text \<open>
  \<^verbatim>\<open>crossfilter.js\<close>, lines 872 to 1225: a group of a dimension, as functions of the group's own
  variables and of the shared state they read: the records \<^verbatim>\<open>data\<close>, their number \<open>n\<close> and
  their \<^verbatim>\<open>filters\<close>. \<^verbatim>\<open>Cf_Core\<close> composes them with the listeners.

  A key is a value of the dimension's order or the \<^verbatim>\<open>null\<close> that \<^verbatim>\<open>crossfilter_null\<close>
  returns for every record. A reduce value is \<^term>\<open>None\<close> where the source has
  \<^verbatim>\<open>null\<close>: while a reset is pending the reduce functions are replaced by
  \<^verbatim>\<open>crossfilter_null\<close>.
\<close>

section \<open>Definitions\<close>

subsection \<open>Keys\<close>

datatype 'v key = Null | Key 'v

instantiation key :: (ord) ord
begin

fun less_eq_key :: "'a key \<Rightarrow> 'a key \<Rightarrow> bool" where
  "less_eq_key Null _ = True"
| "less_eq_key (Key x) Null = False"
| "less_eq_key (Key x) (Key y) = (x \<le> y)"

fun less_key :: "'a key \<Rightarrow> 'a key \<Rightarrow> bool" where
  "less_key _ Null = False"
| "less_key Null (Key y) = True"
| "less_key (Key x) (Key y) = (x < y)"

instance ..

end

instance key :: (linorder) linorder
proof
  fix x y z :: "'a key"
  show "(x < y) = (x \<le> y \<and> \<not> y \<le> x)" by (cases x; cases y) auto
  show "x \<le> x" by (cases x) auto
  show "x \<le> y \<Longrightarrow> y \<le> z \<Longrightarrow> x \<le> z" by (cases x; cases y; cases z) auto
  show "x \<le> y \<Longrightarrow> y \<le> x \<Longrightarrow> x = y" by (cases x; cases y) auto
  show "x \<le> y \<or> y \<le> x" by (cases x; cases y) auto
qed

text \<open>The argument of \<^verbatim>\<open>group\<close>: none, \<^verbatim>\<open>crossfilter_null\<close>, or a key function.\<close>

datatype 'v key_arg = Key_absent | Key_null | Key_function "'v \<Rightarrow> 'v"

fun crossfilter_null :: "'v \<Rightarrow> 'v key" where
  "crossfilter_null _ = Null"

fun key_of :: "'v key_arg \<Rightarrow> 'v \<Rightarrow> 'v key" where
  "key_of Key_absent = (\<lambda>v. Key (crossfilter_identity v))"
| "key_of Key_null = crossfilter_null"
| "key_of (Key_function f) = (\<lambda>v. Key (f v))"

subsection \<open>The variables of a group\<close>

datatype mode = Mode_null | Mode_one | Mode_many
  \<comment> \<open>the pair of \<^verbatim>\<open>update\<close> and \<^verbatim>\<open>reset\<close>, which the source always sets together\<close>

record ('d, 'v, 'r) group =
  g_one :: "32 word"
  g_key :: "'v \<Rightarrow> 'v key"
  g_groupAll :: bool
  g_groups :: "('v key \<times> 'r option) list"
  g_groupIndex :: "uarray option"
  g_groupWidth :: nat
  g_groupCapacity :: nat
  g_k :: nat
  g_reduceAdd :: "'r \<Rightarrow> 'd \<Rightarrow> 'r"
  g_reduceRemove :: "'r \<Rightarrow> 'd \<Rightarrow> 'r"
  g_reduceInitial :: 'r
  g_order :: "'r \<Rightarrow> 'r"
  g_mode :: mode
  g_resetNeeded :: bool

abbreviation g_zero :: "('d, 'v, 'r) group \<Rightarrow> 32 word" where
  "g_zero G \<equiv> NOT (g_one G)"

definition group_reduce ::
  "('r \<Rightarrow> 'd \<Rightarrow> 'r) \<Rightarrow> ('r \<Rightarrow> 'd \<Rightarrow> 'r) \<Rightarrow> 'r \<Rightarrow> ('d, 'v, 'r) group \<Rightarrow> ('d, 'v, 'r) group" where
  "group_reduce add remove initial G =
     G\<lparr>g_reduceAdd := add, g_reduceRemove := remove, g_reduceInitial := initial, g_resetNeeded := True\<rparr>"

definition group_reduceCount :: "('d, 'v, 'r::{zero,one,plus,minus}) group \<Rightarrow> ('d, 'v, 'r) group" where
  "group_reduceCount = group_reduce crossfilter_reduceIncrement crossfilter_reduceDecrement crossfilter_zero"

definition group_reduceSum ::
  "('d \<Rightarrow> 'r) \<Rightarrow> ('d, 'v, 'r::{zero,plus,minus}) group \<Rightarrow> ('d, 'v, 'r) group" where
  "group_reduceSum value =
     group_reduce (crossfilter_reduceAdd value) (crossfilter_reduceSubtract value) crossfilter_zero"

definition group_order :: "('r \<Rightarrow> 'r) \<Rightarrow> ('d, 'v, 'r) group \<Rightarrow> ('d, 'v, 'r) group" where
  "group_order value G = G\<lparr>g_order := value\<rparr>"

definition group_orderNatural :: "('d, 'v, 'r) group \<Rightarrow> ('d, 'v, 'r) group" where
  "group_orderNatural = group_order crossfilter_identity"

definition group_size :: "('d, 'v, 'r) group \<Rightarrow> nat" where
  "group_size G = g_k G"

subsection \<open>Adding records\<close>

record ('v, 'r) adding =
  \<comment> \<open>the variables of a running \<^verbatim>\<open>add\<close>: \<^verbatim>\<open>groups\<close> is written from its start without a gap\<close>
  a_groups :: "('v key \<times> 'r option) list"
  a_groupIndex :: uarray
  a_reIndex :: uarray
  a_width :: nat
  a_capacity :: nat
  a_i0 :: nat
  a_i1 :: nat

abbreviation a_k :: "('v, 'r) adding \<Rightarrow> nat" where
  "a_k A \<equiv> length (a_groups A)"

definition groupIncrement :: "('v, 'r) adding \<Rightarrow> ('v, 'r) adding option" where
  \<comment> \<open>called once the group is appended: \<^verbatim>\<open>a_k\<close> is the incremented \<open>k\<close>\<close>
  "groupIncrement A =
     (if a_k A = a_capacity A then do {
        reIndex \<leftarrow> crossfilter_arrayWiden (a_reIndex A) (2 * a_width A);
        groupIndex \<leftarrow> crossfilter_arrayWiden (a_groupIndex A) (2 * a_width A);
        Some (A\<lparr>a_reIndex := reIndex, a_groupIndex := groupIndex, a_width := 2 * a_width A,
               a_capacity := crossfilter_capacity (2 * a_width A)\<rparr>)
      } else Some A)"

definition group_initial :: "('d, 'v, 'r) group \<Rightarrow> 'r option" where
  "group_initial G = (if g_resetNeeded G then None else Some (g_reduceInitial G))"

definition group_addValue :: "('d, 'v, 'r) group \<Rightarrow> 'r option \<Rightarrow> 'd \<Rightarrow> 'r option option" where
  "group_addValue G p d =
     (if g_resetNeeded G then Some None else do { v \<leftarrow> p; Some (Some (g_reduceAdd G v d)) })"

function skip_unordered :: "('v \<Rightarrow> 'v::ord key) \<Rightarrow> 'v list \<Rightarrow> nat \<Rightarrow> nat \<Rightarrow> nat option" where
  "skip_unordered key newValues i1 n1 =
     (if i1 < n1 then do {
        v \<leftarrow> aget newValues i1;
        if \<not> key v \<ge> key v then skip_unordered key newValues (i1 + 1) n1 else Some i1
      } else Some i1)"
  by auto
termination by (relation "measure (\<lambda>(_, _, i1, n1). n1 - i1)") auto

declare skip_unordered.simps [simp del]

function add_records ::
  "('d, 'v::ord, 'r) group \<Rightarrow> 32 word list \<Rightarrow> 'd list \<Rightarrow> 'v list \<Rightarrow> uarray \<Rightarrow> nat \<Rightarrow> nat \<Rightarrow>
     'v key \<Rightarrow> nat \<Rightarrow> nat \<Rightarrow> 'r option \<Rightarrow> uarray \<Rightarrow> (nat \<times> 'r option \<times> uarray) option" where
  \<comment> \<open>the inner loop: the new records of the group with key \<open>x\<close> and id \<open>k\<close>\<close>
  "add_records G filters data newValues newIndex n0 n1 x k i1 value groupIndex =
     (if i1 < n1 then do {
        v \<leftarrow> aget newValues i1;
        if \<not> g_key G v > x then do {
          ni \<leftarrow> uget newIndex i1;
          let j = ni + n0;
          groupIndex \<leftarrow> uset groupIndex j k;
          fj \<leftarrow> aget filters j;
          value \<leftarrow> (if fj AND g_zero G = 0 then do { d \<leftarrow> aget data j; group_addValue G value d }
                   else Some value);
          add_records G filters data newValues newIndex n0 n1 x k (i1 + 1) value groupIndex
        } else Some (i1, value, groupIndex)
      } else Some (i1, value, groupIndex))"
  by auto
termination by (relation "measure (\<lambda>(_, _, _, _, _, _, n1, _, _, i1, _, _). n1 - i1)") auto

declare add_records.simps [simp del]

definition add_step ::
  "('d, 'v::ord, 'r) group \<Rightarrow> 32 word list \<Rightarrow> 'd list \<Rightarrow> 'v list \<Rightarrow> uarray \<Rightarrow> nat \<Rightarrow> nat \<Rightarrow>
     ('v, 'r) adding \<Rightarrow> ('v, 'r) adding option" where
  \<comment> \<open>one round of the outer loop; \<^verbatim>\<open>oldGroups\<close> are the groups of \<open>G\<close>\<close>
  "add_step G filters data newValues newIndex n0 n1 A = do {
     v \<leftarrow> aget newValues (a_i1 A);
     let x1 = g_key G v;
     let old = (if a_i0 A < length (g_groups G) \<and> fst (g_groups G ! a_i0 A) \<le> x1
                then Some (g_groups G ! a_i0 A) else None);
     A \<leftarrow> (case old of
             Some g0 \<Rightarrow> do {
               reIndex \<leftarrow> uset (a_reIndex A) (a_i0 A) (a_k A);
               Some (A\<lparr>a_reIndex := reIndex, a_i0 := a_i0 A + 1\<rparr>)
             }
           | None \<Rightarrow> Some A);
     let (x, value) = (case old of Some g0 \<Rightarrow> g0 | None \<Rightarrow> (x1, group_initial G));
     (i1, value, groupIndex) \<leftarrow>
       add_records G filters data newValues newIndex n0 n1 x (a_k A) (a_i1 A) value (a_groupIndex A);
     groupIncrement (A\<lparr>a_i1 := i1, a_groupIndex := groupIndex, a_groups := a_groups A @ [(x, value)]\<rparr>)
   }"

partial_function (option) add_new_keys ::
  "('d, 'v::ord, 'r) group \<Rightarrow> 32 word list \<Rightarrow> 'd list \<Rightarrow> 'v list \<Rightarrow> uarray \<Rightarrow> nat \<Rightarrow> nat \<Rightarrow>
     ('v, 'r) adding \<Rightarrow> ('v, 'r) adding option" where
  "add_new_keys G filters data newValues newIndex n0 n1 A =
     (if a_i1 A < n1 then do {
        A' \<leftarrow> add_step G filters data newValues newIndex n0 n1 A;
        add_new_keys G filters data newValues newIndex n0 n1 A'
      } else Some A)"

declare add_new_keys.simps [code]

definition add_old_groups :: "('d, 'v, 'r) group \<Rightarrow> ('v, 'r) adding \<Rightarrow> ('v, 'r) adding option" where
  "add_old_groups G A = ofold (\<lambda>i0 A. do {
       reIndex \<leftarrow> uset (a_reIndex A) i0 (a_k A);
       g0 \<leftarrow> aget (g_groups G) i0;
       groupIncrement (A\<lparr>a_reIndex := reIndex, a_i0 := i0 + 1, a_groups := a_groups A @ [g0]\<rparr>)
     }) [a_i0 A..<g_k G] A"

definition re_index :: "uarray \<Rightarrow> nat \<Rightarrow> uarray \<Rightarrow> uarray option" where
  "re_index reIndex n0 groupIndex = ofold (\<lambda>i groupIndex. do {
       g \<leftarrow> uget groupIndex i;
       g' \<leftarrow> uget reIndex g;
       uset groupIndex i g'
     }) [0..<n0] groupIndex"

definition set_cardinality :: "('v, 'r) adding \<Rightarrow> ('d, 'v, 'r) group \<Rightarrow> ('d, 'v, 'r) group" where
  \<comment> \<open>lines 998 to 1016, without the listener: \<open>update\<close>, \<open>reset\<close> and the group index by cardinality\<close>
  "set_cardinality A G =
     (let G = G\<lparr>g_groups := a_groups A, g_k := a_k A, g_groupIndex := Some (a_groupIndex A),
                g_groupWidth := a_width A, g_groupCapacity := a_capacity A\<rparr> in
      if a_k A > 1 then G\<lparr>g_mode := Mode_many\<rparr>
      else
        (let G = (if a_k A = 0 \<and> g_groupAll G
                  then G\<lparr>g_k := 1, g_groups := [(Null, group_initial G)]\<rparr> else G) in
         G\<lparr>g_mode := (if g_k G = 1 then Mode_one else Mode_null), g_groupIndex := None\<rparr>))"

definition group_add ::
  "nat \<Rightarrow> 32 word list \<Rightarrow> 'd list \<Rightarrow> 'v::ord list \<Rightarrow> uarray \<Rightarrow> nat \<Rightarrow> nat \<Rightarrow>
     ('d, 'v, 'r) group \<Rightarrow> ('d, 'v, 'r) group option" where
  "group_add n filters data newValues newIndex n0 n1 G = do {
     let reIndex = crossfilter_index (g_k G) (g_groupCapacity G);
     groupIndex \<leftarrow> (if g_k G > 1
                    then do { gi \<leftarrow> g_groupIndex G; crossfilter_arrayLengthen gi n }
                    else Some (crossfilter_index n (g_groupCapacity G)));
     i1 \<leftarrow> skip_unordered (g_key G) newValues 0 n1;
     A \<leftarrow> add_new_keys G filters data newValues newIndex n0 n1
            \<lparr>a_groups = [], a_groupIndex = groupIndex, a_reIndex = reIndex, a_width = g_groupWidth G,
             a_capacity = g_groupCapacity G, a_i0 = 0, a_i1 = i1\<rparr>;
     A \<leftarrow> add_old_groups G A;
     groupIndex \<leftarrow> (if a_k A > a_i0 A then re_index (a_reIndex A) n0 (a_groupIndex A)
                    else Some (a_groupIndex A));
     Some (set_cardinality (A\<lparr>a_groupIndex := groupIndex\<rparr>) G)
   }"

definition new_group ::
  "32 word \<Rightarrow> 'v key_arg \<Rightarrow> ('d, 'v, 'r::{zero,one,plus,minus}) group" where
  "new_group one arg = \<lparr>
     g_one = one, g_key = key_of arg,
     g_groupAll = (case arg of Key_null \<Rightarrow> True | _ \<Rightarrow> False),
     g_groups = [], g_groupIndex = None, g_groupWidth = 8, g_groupCapacity = crossfilter_capacity 8,
     g_k = 0,
     g_reduceAdd = crossfilter_reduceIncrement, g_reduceRemove = crossfilter_reduceDecrement,
     g_reduceInitial = crossfilter_zero, g_order = crossfilter_identity,
     g_mode = Mode_null, g_resetNeeded = True\<rparr>"

subsection \<open>Removing records\<close>

definition group_removeData ::
  "nat \<Rightarrow> 32 word list \<Rightarrow> ('d, 'v, 'r) group \<Rightarrow> ('d, 'v, 'r) group option" where
  "group_removeData n filters G =
     (if g_k G > 1 then do {
        gi \<leftarrow> g_groupIndex G;
        (gi, seen, j) \<leftarrow> ofold (\<lambda>i (gi, seen, j). do {
            fi \<leftarrow> aget filters i;
            if fi \<noteq> 0 then do {
              g \<leftarrow> uget gi i;
              gi \<leftarrow> uset gi j g;
              seen \<leftarrow> uset seen g 1;
              Some (gi, seen, j + 1)
            } else Some (gi, seen, j)
          }) [0..<n] (gi, crossfilter_index (g_k G) (g_k G), 0);
        (groups, seen) \<leftarrow> ofold (\<lambda>i (groups, seen). do {
            s \<leftarrow> uget seen i;
            if s \<noteq> 0 then do {
              seen \<leftarrow> uset seen i (length groups);
              g \<leftarrow> aget (g_groups G) i;
              Some (groups @ [g], seen)
            } else Some (groups, seen)
          }) [0..<g_k G] ([], seen);
        let k = length groups;
        groupIndex \<leftarrow> (if k > 1 then do {
            gi \<leftarrow> ofold (\<lambda>i gi. do { g \<leftarrow> uget gi i; s \<leftarrow> uget seen g; uset gi i s }) [0..<j] gi;
            Some (Some gi)
          } else Some None);
        Some (G\<lparr>g_groups := groups, g_k := k, g_groupIndex := groupIndex,
               g_mode := (if k > 1 then Mode_many else if k = 1 then Mode_one else Mode_null)\<rparr>)
      } else if g_k G = 1 then
        (if g_groupAll G then Some G
         else do {
           kept \<leftarrow> those (map (aget filters) [0..<n]);
           if \<exists>f \<in> set kept. f \<noteq> 0 then Some G
           else Some (G\<lparr>g_groups := [], g_k := 0, g_mode := Mode_null\<rparr>)
         })
      else Some G)"

subsection \<open>Updating and resetting the reduce values\<close>

definition group_modify ::
  "nat \<Rightarrow> ('r \<Rightarrow> 'r) \<Rightarrow> ('d, 'v, 'r) group \<Rightarrow> ('d, 'v, 'r) group option" where
  \<comment> \<open>\<^verbatim>\<open>g = groups[i]; g.value = f(g.value)\<close>\<close>
  "group_modify i f G = do {
     g \<leftarrow> aget (g_groups G) i;
     v \<leftarrow> snd g;
     Some (G\<lparr>g_groups := (g_groups G)[i := (fst g, Some (f v))]\<rparr>)
   }"

definition updateMany ::
  "32 word list \<Rightarrow> 'd list \<Rightarrow> 32 word \<Rightarrow> nat list \<Rightarrow> nat list \<Rightarrow>
     ('d, 'v, 'r) group \<Rightarrow> ('d, 'v, 'r) group option" where
  "updateMany filters data filterOne added removed G =
     (if filterOne = g_one G \<or> g_resetNeeded G then Some G
      else do {
        gi \<leftarrow> g_groupIndex G;
        G \<leftarrow> ofold (\<lambda>k G. do {
            fk \<leftarrow> aget filters k;
            if fk AND g_zero G = 0 then do {
              i \<leftarrow> uget gi k;
              d \<leftarrow> aget data k;
              group_modify i (\<lambda>v. g_reduceAdd G v d) G
            } else Some G
          }) added G;
        ofold (\<lambda>k G. do {
            fk \<leftarrow> aget filters k;
            if fk AND g_zero G = filterOne then do {
              i \<leftarrow> uget gi k;
              d \<leftarrow> aget data k;
              group_modify i (\<lambda>v. g_reduceRemove G v d) G
            } else Some G
          }) removed G
      })"

definition updateOne ::
  "32 word list \<Rightarrow> 'd list \<Rightarrow> 32 word \<Rightarrow> nat list \<Rightarrow> nat list \<Rightarrow>
     ('d, 'v, 'r) group \<Rightarrow> ('d, 'v, 'r) group option" where
  "updateOne filters data filterOne added removed G =
     (if filterOne = g_one G \<or> g_resetNeeded G then Some G
      else do {
        G \<leftarrow> ofold (\<lambda>k G. do {
            fk \<leftarrow> aget filters k;
            if fk AND g_zero G = 0 then do {
              d \<leftarrow> aget data k;
              group_modify 0 (\<lambda>v. g_reduceAdd G v d) G
            } else Some G
          }) added G;
        ofold (\<lambda>k G. do {
            fk \<leftarrow> aget filters k;
            if fk AND g_zero G = filterOne then do {
              d \<leftarrow> aget data k;
              group_modify 0 (\<lambda>v. g_reduceRemove G v d) G
            } else Some G
          }) removed G
      })"

definition resetMany ::
  "nat \<Rightarrow> 32 word list \<Rightarrow> 'd list \<Rightarrow> ('d, 'v, 'r) group \<Rightarrow> ('d, 'v, 'r) group option" where
  "resetMany n filters data G = do {
     G \<leftarrow> ofold (\<lambda>i G. do {
         g \<leftarrow> aget (g_groups G) i;
         Some (G\<lparr>g_groups := (g_groups G)[i := (fst g, Some (g_reduceInitial G))]\<rparr>)
       }) [0..<g_k G] G;
     gi \<leftarrow> g_groupIndex G;
     ofold (\<lambda>i G. do {
         fi \<leftarrow> aget filters i;
         if fi AND g_zero G = 0 then do {
           g \<leftarrow> uget gi i;
           d \<leftarrow> aget data i;
           group_modify g (\<lambda>v. g_reduceAdd G v d) G
         } else Some G
       }) [0..<n] G
   }"

definition resetOne ::
  "nat \<Rightarrow> 32 word list \<Rightarrow> 'd list \<Rightarrow> ('d, 'v, 'r) group \<Rightarrow> ('d, 'v, 'r) group option" where
  "resetOne n filters data G = do {
     g \<leftarrow> aget (g_groups G) 0;
     let G = G\<lparr>g_groups := (g_groups G)[0 := (fst g, Some (g_reduceInitial G))]\<rparr>;
     ofold (\<lambda>i G. do {
         fi \<leftarrow> aget filters i;
         if fi AND g_zero G = 0 then do {
           d \<leftarrow> aget data i;
           group_modify 0 (\<lambda>v. g_reduceAdd G v d) G
         } else Some G
       }) [0..<n] G
   }"

fun group_update ::
  "mode \<Rightarrow> 32 word list \<Rightarrow> 'd list \<Rightarrow> 32 word \<Rightarrow> nat list \<Rightarrow> nat list \<Rightarrow>
     ('d, 'v, 'r) group \<Rightarrow> ('d, 'v, 'r) group option" where
  "group_update Mode_null filters data filterOne added removed G = Some G"
| "group_update Mode_one filters data filterOne added removed G =
     updateOne filters data filterOne added removed G"
| "group_update Mode_many filters data filterOne added removed G =
     updateMany filters data filterOne added removed G"

fun group_reset ::
  "mode \<Rightarrow> nat \<Rightarrow> 32 word list \<Rightarrow> 'd list \<Rightarrow> ('d, 'v, 'r) group \<Rightarrow> ('d, 'v, 'r) group option" where
  "group_reset Mode_null n filters data G = Some G"
| "group_reset Mode_one n filters data G = resetOne n filters data G"
| "group_reset Mode_many n filters data G = resetMany n filters data G"

subsection \<open>Reading the groups\<close>

definition group_all ::
  "nat \<Rightarrow> 32 word list \<Rightarrow> 'd list \<Rightarrow> ('d, 'v, 'r) group \<Rightarrow>
     (('v key \<times> 'r option) list \<times> ('d, 'v, 'r) group) option" where
  "group_all n filters data G = do {
     G \<leftarrow> (if g_resetNeeded G then do {
             G \<leftarrow> group_reset (g_mode G) n filters data G;
             Some (G\<lparr>g_resetNeeded := False\<rparr>)
           } else Some G);
     Some (g_groups G, G)
   }"

definition reduced :: "'r option \<Rightarrow> 'r" where
  \<comment> \<open>the reduce value of a group that has been reset\<close>
  "reduced p = (case p of Some v \<Rightarrow> v | None \<Rightarrow> undefined)"

definition group_top ::
  "nat \<Rightarrow> 32 word list \<Rightarrow> 'd list \<Rightarrow> nat \<Rightarrow> ('d, 'v, 'r::ord) group \<Rightarrow>
     (('v key \<times> 'r option) list \<times> ('d, 'v, 'r) group) option" where
  "group_top n filters data k G = do {
     (groups, G) \<leftarrow> group_all n filters data G;
     let valueOf = (\<lambda>d. g_order G (reduced (snd d)));
     top \<leftarrow> heapselect valueOf groups 0 (length groups) k;
     top \<leftarrow> heap_sort valueOf top 0 (length top);
     Some (top, G)
   }"

definition groupAll_value ::
  "nat \<Rightarrow> 32 word list \<Rightarrow> 'd list \<Rightarrow> ('d, 'v, 'r) group \<Rightarrow> ('r \<times> ('d, 'v, 'r) group) option" where
  "groupAll_value n filters data G = do {
     (groups, G) \<leftarrow> group_all n filters data G;
     g \<leftarrow> aget groups 0;
     v \<leftarrow> snd g;
     Some (v, G)
   }"

end
