(* ===== verification/Cf_Core.thy ===== *)
theory Cf_Core
  imports Cf_Dimension Cf_Group
begin

text \<open>
  \<^verbatim>\<open>crossfilter.js\<close>, lines 531 to 638, 706 to 710, 1213 to 1253 and 1255 to 1378: the
  crossfilter object. The closures of the source share their variables; here one record holds
  the variables of \<^verbatim>\<open>crossfilter()\<close> and, by id, those of every dimension, group and
  \<^verbatim>\<open>groupAll\<close> made so far. A listener is the function it stands for together with
  that id, so that \<^verbatim>\<open>indexOf\<close> compares what the source compares.
\<close>

section \<open>Definitions\<close>

subsection \<open>The reduction over all records\<close>

record ('d, 'r) all_group =
  r_reduceValue :: "'r option"
  r_reduceAdd :: "'r \<Rightarrow> 'd \<Rightarrow> 'r"
  r_reduceRemove :: "'r \<Rightarrow> 'd \<Rightarrow> 'r"
  r_reduceInitial :: 'r
  r_resetNeeded :: bool

definition all_modify :: "('r \<Rightarrow> 'r) \<Rightarrow> ('d, 'r) all_group \<Rightarrow> ('d, 'r) all_group option" where
  "all_modify f R = do { v \<leftarrow> r_reduceValue R; Some (R\<lparr>r_reduceValue := Some (f v)\<rparr>) }"

definition all_add_selected ::
  "32 word list \<Rightarrow> 'd list \<Rightarrow> nat list \<Rightarrow> ('d, 'r) all_group \<Rightarrow> ('d, 'r) all_group option" where
  "all_add_selected filters data ks R = ofold (\<lambda>k R. do {
       fk \<leftarrow> aget filters k;
       if fk = 0 then do { d \<leftarrow> aget data k; all_modify (\<lambda>v. r_reduceAdd R v d) R } else Some R
     }) ks R"

definition all_add ::
  "nat \<Rightarrow> 32 word list \<Rightarrow> 'd list \<Rightarrow> nat \<Rightarrow> ('d, 'r) all_group \<Rightarrow> ('d, 'r) all_group option" where
  "all_add n filters data n0 R =
     (if r_resetNeeded R then Some R else all_add_selected filters data [n0..<n] R)"

definition all_update ::
  "32 word list \<Rightarrow> 'd list \<Rightarrow> 32 word \<Rightarrow> nat list \<Rightarrow> nat list \<Rightarrow>
     ('d, 'r) all_group \<Rightarrow> ('d, 'r) all_group option" where
  \<comment> \<open>\<^verbatim>\<open>filters[k] === filterOne\<close> compares an unsigned element with a signed mask\<close>
  "all_update filters data filterOne added removed R =
     (if r_resetNeeded R then Some R
      else do {
        R \<leftarrow> all_add_selected filters data added R;
        ofold (\<lambda>k R. do {
            fk \<leftarrow> aget filters k;
            if uint fk = sint filterOne then do {
              d \<leftarrow> aget data k;
              all_modify (\<lambda>v. r_reduceRemove R v d) R
            } else Some R
          }) removed R
      })"

definition all_reset ::
  "nat \<Rightarrow> 32 word list \<Rightarrow> 'd list \<Rightarrow> ('d, 'r) all_group \<Rightarrow> ('d, 'r) all_group option" where
  "all_reset n filters data R =
     all_add_selected filters data [0..<n] (R\<lparr>r_reduceValue := Some (r_reduceInitial R)\<rparr>)"

definition all_reduce ::
  "('r \<Rightarrow> 'd \<Rightarrow> 'r) \<Rightarrow> ('r \<Rightarrow> 'd \<Rightarrow> 'r) \<Rightarrow> 'r \<Rightarrow> ('d, 'r) all_group \<Rightarrow> ('d, 'r) all_group" where
  "all_reduce add remove initial R =
     R\<lparr>r_reduceAdd := add, r_reduceRemove := remove, r_reduceInitial := initial, r_resetNeeded := True\<rparr>"

definition all_reduceCount :: "('d, 'r::{zero,one,plus,minus}) all_group \<Rightarrow> ('d, 'r) all_group" where
  "all_reduceCount = all_reduce crossfilter_reduceIncrement crossfilter_reduceDecrement crossfilter_zero"

definition all_reduceSum ::
  "('d \<Rightarrow> 'r) \<Rightarrow> ('d, 'r::{zero,plus,minus}) all_group \<Rightarrow> ('d, 'r) all_group" where
  "all_reduceSum value =
     all_reduce (crossfilter_reduceAdd value) (crossfilter_reduceSubtract value) crossfilter_zero"

definition all_value ::
  "nat \<Rightarrow> 32 word list \<Rightarrow> 'd list \<Rightarrow> ('d, 'r) all_group \<Rightarrow> ('r option \<times> ('d, 'r) all_group) option" where
  "all_value n filters data R = do {
     R \<leftarrow> (if r_resetNeeded R then do {
             R \<leftarrow> all_reset n filters data R;
             Some (R\<lparr>r_resetNeeded := False\<rparr>)
           } else Some R);
     Some (r_reduceValue R, R)
   }"

definition new_all_group :: "('d, 'r::{zero,one,plus,minus}) all_group" where
  "new_all_group = \<lparr>
     r_reduceValue = None, r_reduceAdd = crossfilter_reduceIncrement,
     r_reduceRemove = crossfilter_reduceDecrement, r_reduceInitial = crossfilter_zero,
     r_resetNeeded = True\<rparr>"

subsection \<open>The state\<close>

datatype filter_listener = Listen_null | Listen_group nat mode | Listen_all nat
datatype data_listener = Pre_add nat | Post_add nat | All_add nat
datatype remove_listener = Dimension_remove nat | Group_remove nat

record ('d, 'v, 'r) crossfilter =
  c_data :: "'d list"
  c_n :: nat
  c_m :: "32 word"
  c_M :: nat
  c_filters :: "32 word list"
  c_filterListeners :: "filter_listener list"
  c_dataListeners :: "data_listener list"
  c_removeDataListeners :: "remove_listener list"
  c_dimensions :: "('d, 'v) dimension list"
  c_groups :: "('d, 'v, 'r) group list"
  c_alls :: "('d, 'r) all_group list"

definition empty_crossfilter :: "('d, 'v, 'r) crossfilter" where
  "empty_crossfilter = \<lparr>
     c_data = [], c_n = 0, c_m = 0, c_M = 8, c_filters = [],
     c_filterListeners = [], c_dataListeners = [], c_removeDataListeners = [],
     c_dimensions = [], c_groups = [], c_alls = []\<rparr>"

definition with_group ::
  "nat \<Rightarrow> (('d, 'v, 'r) group \<Rightarrow> ('d, 'v, 'r) group option) \<Rightarrow>
     ('d, 'v, 'r) crossfilter \<Rightarrow> ('d, 'v, 'r) crossfilter option" where
  "with_group g f S = do {
     G \<leftarrow> aget (c_groups S) g;
     G \<leftarrow> f G;
     Some (S\<lparr>c_groups := (c_groups S)[g := G]\<rparr>)
   }"

definition with_all ::
  "nat \<Rightarrow> (('d, 'r) all_group \<Rightarrow> ('d, 'r) all_group option) \<Rightarrow>
     ('d, 'v, 'r) crossfilter \<Rightarrow> ('d, 'v, 'r) crossfilter option" where
  "with_all a f S = do {
     R \<leftarrow> aget (c_alls S) a;
     R \<leftarrow> f R;
     Some (S\<lparr>c_alls := (c_alls S)[a := R]\<rparr>)
   }"

definition with_dimension ::
  "nat \<Rightarrow> (('d, 'v) dimension \<Rightarrow> ('d, 'v) dimension option) \<Rightarrow>
     ('d, 'v, 'r) crossfilter \<Rightarrow> ('d, 'v, 'r) crossfilter option" where
  "with_dimension d f S = do {
     D \<leftarrow> aget (c_dimensions S) d;
     D \<leftarrow> f D;
     Some (S\<lparr>c_dimensions := (c_dimensions S)[d := D]\<rparr>)
   }"

subsection \<open>Listeners\<close>

fun index_of :: "'a \<Rightarrow> 'a list \<Rightarrow> nat option" where
  \<comment> \<open>\<^verbatim>\<open>xs.indexOf(x)\<close>, \<^term>\<open>None\<close> for \<open>-1\<close>\<close>
  "index_of x [] = None"
| "index_of x (y # ys) = (if x = y then Some 0 else map_option Suc (index_of x ys))"

definition splice1 :: "nat \<Rightarrow> 'a list \<Rightarrow> 'a list" where
  \<comment> \<open>\<^verbatim>\<open>xs.splice(i, 1)\<close>\<close>
  "splice1 i xs = take i xs @ drop (Suc i) xs"

definition splice_rest :: "nat \<Rightarrow> 'a list \<Rightarrow> 'a list" where
  \<comment> \<open>\<^verbatim>\<open>xs.splice(i)\<close>: removes everything from \<open>i\<close> on\<close>
  "splice_rest i xs = take i xs"

definition remove_listener :: "'a \<Rightarrow> 'a list \<Rightarrow> 'a list" where
  "remove_listener x xs = (case index_of x xs of Some i \<Rightarrow> splice1 i xs | None \<Rightarrow> xs)"

definition replace_listener :: "'a \<Rightarrow> 'a \<Rightarrow> 'a list \<Rightarrow> 'a list" where
  \<comment> \<open>\<^verbatim>\<open>xs[xs.indexOf(x)] = y\<close>; for \<open>-1\<close> the store makes a property that no loop visits\<close>
  "replace_listener x y xs = (case index_of x xs of Some i \<Rightarrow> xs[i := y] | None \<Rightarrow> xs)"

fun listener_of :: "nat \<Rightarrow> mode \<Rightarrow> filter_listener" where
  "listener_of g Mode_null = Listen_null"
| "listener_of g mode = Listen_group g mode"

fun call_filterListener ::
  "32 word \<Rightarrow> nat list \<Rightarrow> nat list \<Rightarrow> filter_listener \<Rightarrow>
     ('d, 'v, 'r) crossfilter \<Rightarrow> ('d, 'v, 'r) crossfilter option" where
  "call_filterListener one added removed Listen_null S = Some S"
| "call_filterListener one added removed (Listen_group g mode) S =
     with_group g (group_update mode (c_filters S) (c_data S) one added removed) S"
| "call_filterListener one added removed (Listen_all a) S =
     with_all a (all_update (c_filters S) (c_data S) one added removed) S"

definition notify_filter ::
  "32 word \<Rightarrow> change \<Rightarrow> ('d, 'v, 'r) crossfilter \<Rightarrow> ('d, 'v, 'r) crossfilter option" where
  "notify_filter one change S =
     ofold (call_filterListener one (fst change) (snd change)) (c_filterListeners S) S"

definition call_group_add ::
  "'v::ord list \<Rightarrow> uarray \<Rightarrow> nat \<Rightarrow> nat \<Rightarrow> nat \<Rightarrow>
     ('d, 'v, 'r) crossfilter \<Rightarrow> ('d, 'v, 'r) crossfilter option" where
  \<comment> \<open>the group's \<^verbatim>\<open>add\<close>, with the exchange of its filter listener\<close>
  "call_group_add newValues newIndex n0 n1 g S = do {
     G \<leftarrow> aget (c_groups S) g;
     G' \<leftarrow> group_add (c_n S) (c_filters S) (c_data S) newValues newIndex n0 n1 G;
     Some (S\<lparr>c_groups := (c_groups S)[g := G'],
            c_filterListeners := replace_listener (listener_of g (g_mode G)) (listener_of g (g_mode G'))
              (c_filterListeners S)\<rparr>)
   }"

definition call_preAdd ::
  "'d list \<Rightarrow> nat \<Rightarrow> nat \<Rightarrow> nat \<Rightarrow> ('d, 'v::ord, 'r) crossfilter \<Rightarrow> ('d, 'v, 'r) crossfilter option" where
  "call_preAdd newData n0 n1 d S = do {
     D \<leftarrow> aget (c_dimensions S) d;
     (filters, D) \<leftarrow> preAdd (c_M S) (c_n S) newData n0 n1 (c_filters S) D;
     Some (S\<lparr>c_filters := filters, c_dimensions := (c_dimensions S)[d := D]\<rparr>)
   }"

definition postAdd ::
  "nat \<Rightarrow> nat \<Rightarrow> nat \<Rightarrow> ('d, 'v::ord, 'r) crossfilter \<Rightarrow> ('d, 'v, 'r) crossfilter option" where
  "postAdd n0 n1 d S = do {
     D \<leftarrow> aget (c_dimensions S) d;
     newValues \<leftarrow> d_newValues D;
     newIndex \<leftarrow> d_newIndex D;
     S \<leftarrow> ofold (call_group_add newValues newIndex n0 n1) (d_indexListeners D) S;
     with_dimension d (\<lambda>D. Some (D\<lparr>d_newValues := None, d_newIndex := None\<rparr>)) S
   }"

fun call_dataListener ::
  "'d list \<Rightarrow> nat \<Rightarrow> nat \<Rightarrow> data_listener \<Rightarrow>
     ('d, 'v::ord, 'r) crossfilter \<Rightarrow> ('d, 'v, 'r) crossfilter option" where
  "call_dataListener newData n0 n1 (Pre_add d) S = call_preAdd newData n0 n1 d S"
| "call_dataListener newData n0 n1 (Post_add d) S = postAdd n0 n1 d S"
| "call_dataListener newData n0 n1 (All_add a) S =
     with_all a (all_add (c_n S) (c_filters S) (c_data S) n0) S"

fun call_removeDataListener ::
  "uarray \<Rightarrow> remove_listener \<Rightarrow> ('d, 'v::ord, 'r) crossfilter \<Rightarrow> ('d, 'v, 'r) crossfilter option" where
  "call_removeDataListener newIndex (Dimension_remove d) S =
     with_dimension d (dimension_removeData newIndex (c_n S) (c_filters S)) S"
| "call_removeDataListener newIndex (Group_remove g) S = do {
     G \<leftarrow> aget (c_groups S) g;
     G' \<leftarrow> group_removeData (c_n S) (c_filters S) G;
     Some (S\<lparr>c_groups := (c_groups S)[g := G'],
            c_filterListeners := replace_listener (listener_of g (g_mode G)) (listener_of g (g_mode G'))
              (c_filterListeners S)\<rparr>)
   }"

subsection \<open>Adding and removing records\<close>

definition filters_lengthen :: "32 word list \<Rightarrow> nat \<Rightarrow> 32 word list" where
  \<comment> \<open>\<^verbatim>\<open>crossfilter_arrayLengthen\<close> on the filters\<close>
  "filters_lengthen fs len = (if length fs \<ge> len then fs else fs @ replicate (len - length fs) 0)"

definition cf_add ::
  "'d list \<Rightarrow> ('d, 'v::ord, 'r) crossfilter \<Rightarrow> ('d, 'v, 'r) crossfilter option" where
  "cf_add newData S =
     (let n0 = c_n S; n1 = length newData in
      if n1 \<noteq> 0 then
        ofold (call_dataListener newData n0 n1) (c_dataListeners S)
          (S\<lparr>c_data := c_data S @ newData, c_n := n0 + n1,
             c_filters := filters_lengthen (c_filters S) (n0 + n1)\<rparr>)
      else Some S)"

definition removal :: "nat \<Rightarrow> 32 word list \<Rightarrow> (uarray \<times> nat \<times> nat list) option" where
  \<comment> \<open>lines 569 to 574: the new index of the kept records, and the removed ones\<close>
  "removal n filters = ofold (\<lambda>i (newIndex, j, removed). do {
       fi \<leftarrow> aget filters i;
       if fi \<noteq> 0 then do { newIndex \<leftarrow> uset newIndex i j; Some (newIndex, j + 1, removed) }
       else Some (newIndex, j, removed @ [i])
     }) [0..<n] (crossfilter_index n n, 0, [])"

definition compact :: "nat \<Rightarrow> 32 word list \<Rightarrow> 'd list \<Rightarrow> (32 word list \<times> 'd list \<times> nat) option" where
  \<comment> \<open>lines 583 to 590: filters and data overwritten, the rest of the filters cleared\<close>
  "compact n filters data = do {
     (filters, data, j) \<leftarrow> ofold (\<lambda>i (filters, data, j). do {
         k \<leftarrow> aget filters i;
         if k \<noteq> 0 then do {
           (filters, data) \<leftarrow> (if i \<noteq> j then do {
               filters \<leftarrow> aset filters j k;
               d \<leftarrow> aget data i;
               data \<leftarrow> aset data j d;
               Some (filters, data)
             } else Some (filters, data));
           Some (filters, data, j + 1)
         } else Some (filters, data, j)
       }) [0..<n] (filters, data, 0);
     filters \<leftarrow> ofold (\<lambda>i fs. aset fs i 0) (rev [j..<n]) filters;
     Some (filters, take j data, j)
   }"

definition cf_removeData :: "('d, 'v::ord, 'r) crossfilter \<Rightarrow> ('d, 'v, 'r) crossfilter option" where
  "cf_removeData S = do {
     (newIndex, j, removed) \<leftarrow> removal (c_n S) (c_filters S);
     S \<leftarrow> notify_filter 0 ([], removed) S;
     S \<leftarrow> ofold (call_removeDataListener newIndex) (c_removeDataListeners S) S;
     (filters, data, n) \<leftarrow> compact (c_n S) (c_filters S) (c_data S);
     Some (S\<lparr>c_filters := filters, c_data := data, c_n := n\<rparr>)
   }"

subsection \<open>Dimensions\<close>

definition filters_widen :: "32 word list \<Rightarrow> nat \<Rightarrow> 32 word list option" where
  \<comment> \<open>\<^verbatim>\<open>crossfilter_arrayWiden\<close> on the filters\<close>
  "filters_widen fs width = (if width = 16 \<or> width = 32 then Some (map (take_bit width) fs) else None)"

definition cf_dimension ::
  "('d \<Rightarrow> 'v::ord) \<Rightarrow> ('d, 'v, 'r) crossfilter \<Rightarrow> (nat \<times> ('d, 'v, 'r) crossfilter) option" where
  "cf_dimension value S = do {
     let d = length (c_dimensions S);
     let one = NOT (c_m S) AND - NOT (c_m S);
     let m = c_m S OR one;
     (M, filters) \<leftarrow>
       (if (if c_M S \<ge> 32 then one = 0 else m AND - (push_bit (c_M S) 1) \<noteq> 0)
        then do { fs \<leftarrow> filters_widen (c_filters S) (2 * c_M S); Some (2 * c_M S, fs) }
        else Some (c_M S, c_filters S));
     let S = S\<lparr>c_m := m, c_M := M, c_filters := filters,
               c_dimensions := c_dimensions S @ [new_dimension one value],
               c_dataListeners := Pre_add d # c_dataListeners S @ [Post_add d],
               c_removeDataListeners := c_removeDataListeners S @ [Dimension_remove d]\<rparr>;
     S \<leftarrow> call_preAdd (c_data S) 0 (c_n S) d S;
     S \<leftarrow> postAdd 0 (c_n S) d S;
     Some (d, S)
   }"

definition cf_filter ::
  "nat \<Rightarrow> 'v::ord filter_arg \<Rightarrow> ('d, 'v, 'r) crossfilter \<Rightarrow> ('d, 'v, 'r) crossfilter option" where
  "cf_filter d arg S = do {
     D \<leftarrow> aget (c_dimensions S) d;
     (filters, change, D') \<leftarrow> dimension_filter (c_M S) (c_n S) arg D (c_filters S);
     notify_filter (d_one D) change
       (S\<lparr>c_filters := filters, c_dimensions := (c_dimensions S)[d := D']\<rparr>)
   }"

definition cf_top :: "nat \<Rightarrow> nat \<Rightarrow> ('d, 'v, 'r) crossfilter \<Rightarrow> 'd list option" where
  "cf_top d k S = do {
     D \<leftarrow> aget (c_dimensions S) d;
     dimension_top (c_filters S) (c_data S) k D
   }"

definition cf_bottom :: "nat \<Rightarrow> nat \<Rightarrow> ('d, 'v, 'r) crossfilter \<Rightarrow> 'd list option" where
  "cf_bottom d k S = do {
     D \<leftarrow> aget (c_dimensions S) d;
     dimension_bottom (c_filters S) (c_data S) k D
   }"

subsection \<open>Groups\<close>

definition cf_group ::
  "nat \<Rightarrow> 'v key_arg \<Rightarrow> ('d, 'v::ord, 'r::{zero,one,plus,minus}) crossfilter \<Rightarrow>
     (nat \<times> ('d, 'v, 'r) crossfilter) option" where
  "cf_group d arg S = do {
     let g = length (c_groups S);
     D \<leftarrow> aget (c_dimensions S) d;
     let S = S\<lparr>c_groups := c_groups S @ [new_group (d_one D) arg],
               c_dimensions := (c_dimensions S)[d := D\<lparr>
                 d_dimensionGroups := d_dimensionGroups D @ [g],
                 d_indexListeners := d_indexListeners D @ [g]\<rparr>],
               c_filterListeners := c_filterListeners S @ [Listen_null],
               c_removeDataListeners := c_removeDataListeners S @ [Group_remove g]\<rparr>;
     S \<leftarrow> call_group_add (d_values D) (d_index D) 0 (c_n S) g S;
     S \<leftarrow> with_group g (\<lambda>G. Some (group_orderNatural (group_reduceCount G))) S;
     Some (g, S)
   }"

definition group_dispose :: "nat \<Rightarrow> nat \<Rightarrow> ('d, 'v, 'r) crossfilter \<Rightarrow> ('d, 'v, 'r) crossfilter option" where
  \<comment> \<open>\<^verbatim>\<open>dispose\<close> of the group \<open>g\<close> of the dimension \<open>d\<close>\<close>
  "group_dispose d g S = do {
     G \<leftarrow> aget (c_groups S) g;
     S \<leftarrow> with_dimension d (\<lambda>D. Some (D\<lparr>d_indexListeners := remove_listener g (d_indexListeners D)\<rparr>)) S;
     Some (S\<lparr>c_filterListeners := remove_listener (listener_of g (g_mode G)) (c_filterListeners S),
            c_removeDataListeners := remove_listener (Group_remove g) (c_removeDataListeners S)\<rparr>)
   }"

definition dimension_dispose ::
  "nat \<Rightarrow> ('d, 'v::ord, 'r) crossfilter \<Rightarrow> ('d, 'v, 'r) crossfilter option" where
  "dimension_dispose d S = do {
     D \<leftarrow> aget (c_dimensions S) d;
     S \<leftarrow> ofold (group_dispose d) (d_dimensionGroups D) S;
     cf_filter d Arg_null
       (S\<lparr>c_dataListeners := remove_listener (Post_add d) (remove_listener (Pre_add d) (c_dataListeners S)),
          c_removeDataListeners := remove_listener (Dimension_remove d) (c_removeDataListeners S),
          c_m := c_m S AND d_zero D\<rparr>)
   }"

definition cf_group_all ::
  "nat \<Rightarrow> ('d, 'v, 'r) crossfilter \<Rightarrow> (('v key \<times> 'r option) list \<times> ('d, 'v, 'r) crossfilter) option" where
  "cf_group_all g S = do {
     G \<leftarrow> aget (c_groups S) g;
     (groups, G) \<leftarrow> group_all (c_n S) (c_filters S) (c_data S) G;
     Some (groups, S\<lparr>c_groups := (c_groups S)[g := G]\<rparr>)
   }"

definition cf_group_top ::
  "nat \<Rightarrow> nat \<Rightarrow> ('d, 'v, 'r::ord) crossfilter \<Rightarrow>
     (('v key \<times> 'r option) list \<times> ('d, 'v, 'r) crossfilter) option" where
  "cf_group_top g k S = do {
     G \<leftarrow> aget (c_groups S) g;
     (top, G) \<leftarrow> group_top (c_n S) (c_filters S) (c_data S) k G;
     Some (top, S\<lparr>c_groups := (c_groups S)[g := G]\<rparr>)
   }"

definition cf_group_reduce ::
  "nat \<Rightarrow> ('r \<Rightarrow> 'd \<Rightarrow> 'r) \<Rightarrow> ('r \<Rightarrow> 'd \<Rightarrow> 'r) \<Rightarrow> 'r \<Rightarrow>
     ('d, 'v, 'r) crossfilter \<Rightarrow> ('d, 'v, 'r) crossfilter option" where
  "cf_group_reduce g add remove initial S = with_group g (\<lambda>G. Some (group_reduce add remove initial G)) S"

subsection \<open>The reduction over all records, as part of the crossfilter\<close>

definition cf_groupAll ::
  "('d, 'v, 'r::{zero,one,plus,minus}) crossfilter \<Rightarrow> (nat \<times> ('d, 'v, 'r) crossfilter) option" where
  "cf_groupAll S = do {
     let a = length (c_alls S);
     let S = S\<lparr>c_alls := c_alls S @ [new_all_group],
               c_filterListeners := c_filterListeners S @ [Listen_all a],
               c_dataListeners := c_dataListeners S @ [All_add a]\<rparr>;
     S \<leftarrow> with_all a (all_add (c_n S) (c_filters S) (c_data S) 0) S;
     S \<leftarrow> with_all a (\<lambda>R. Some (all_reduceCount R)) S;
     Some (a, S)
   }"

definition cf_all_reduce ::
  "nat \<Rightarrow> ('r \<Rightarrow> 'd \<Rightarrow> 'r) \<Rightarrow> ('r \<Rightarrow> 'd \<Rightarrow> 'r) \<Rightarrow> 'r \<Rightarrow>
     ('d, 'v, 'r) crossfilter \<Rightarrow> ('d, 'v, 'r) crossfilter option" where
  "cf_all_reduce a add remove initial S = with_all a (\<lambda>R. Some (all_reduce add remove initial R)) S"

definition cf_all_value ::
  "nat \<Rightarrow> ('d, 'v, 'r) crossfilter \<Rightarrow> ('r option \<times> ('d, 'v, 'r) crossfilter) option" where
  "cf_all_value a S = do {
     R \<leftarrow> aget (c_alls S) a;
     (v, R) \<leftarrow> all_value (c_n S) (c_filters S) (c_data S) R;
     Some (v, S\<lparr>c_alls := (c_alls S)[a := R]\<rparr>)
   }"

definition groupAll_dispose :: "nat \<Rightarrow> ('d, 'v, 'r) crossfilter \<Rightarrow> ('d, 'v, 'r) crossfilter" where
  "groupAll_dispose a S = S\<lparr>
     c_filterListeners := (case index_of (Listen_all a) (c_filterListeners S) of
         Some i \<Rightarrow> splice_rest i (c_filterListeners S) | None \<Rightarrow> c_filterListeners S),
     c_dataListeners := (case index_of (All_add a) (c_dataListeners S) of
         Some i \<Rightarrow> splice_rest i (c_dataListeners S) | None \<Rightarrow> c_dataListeners S)\<rparr>"

subsection \<open>The crossfilter itself\<close>

definition cf_size :: "('d, 'v, 'r) crossfilter \<Rightarrow> nat" where
  "cf_size S = c_n S"

definition crossfilter :: "'d list option \<Rightarrow> ('d, 'v::ord, 'r) crossfilter option" where
  "crossfilter arg = (case arg of Some newData \<Rightarrow> cf_add newData empty_crossfilter
                                | None \<Rightarrow> Some empty_crossfilter)"

end
