(* ===== verification/Cf_Quicksort.thy ===== *)
theory Cf_Quicksort
  imports Cf_Sort
begin

text \<open>
  The dual-pivot quicksort of \<open>Cf_Sort\<close> is total on every slice of an array and sorts it:
  the partitioning loop, its three instances, the placing of the pivots and the recursion.
\<close>

section \<open>Regions of an array\<close>

definition region :: "('a \<Rightarrow> bool) \<Rightarrow> 'a list \<Rightarrow> nat \<Rightarrow> nat \<Rightarrow> bool" where
  "region P a l r \<longleftrightarrow> (\<forall>j. l \<le> j \<and> j < r \<longrightarrow> P (a ! j))"

lemma region_empty [simp]: "r \<le> l \<Longrightarrow> region P a l r"
  by (auto simp: region_def)

lemma regionD: "region P a l r \<Longrightarrow> l \<le> j \<Longrightarrow> j < r \<Longrightarrow> P (a ! j)"
  by (simp add: region_def)

lemma region_sub: "region P a l r \<Longrightarrow> l \<le> l' \<Longrightarrow> r' \<le> r \<Longrightarrow> region P a l' r'"
  by (auto simp: region_def)

lemma region_mono: "region P a l r \<Longrightarrow> (\<And>x. P x \<Longrightarrow> Q x) \<Longrightarrow> region Q a l r"
  by (auto simp: region_def)

lemma region_join: "region P a l m \<Longrightarrow> region P a m r \<Longrightarrow> region P a l r"
  unfolding region_def by (meson not_le)

lemma region_slice: "r \<le> length a \<Longrightarrow> region P a l r \<longleftrightarrow> (\<forall>x \<in> set (slice a l r). P x)"
  by (auto simp: region_def set_slice)

lemma region_rearranged:
  assumes "rearranged l r a b" "r \<le> length a" "region P a l r"
  shows "region P b l r"
proof (cases "l \<le> r")
  case True
  then have "set (slice b l r) = set (slice a l r)"
    using rearranged_mset_slice [OF assms(1) _ assms(2)] by (metis mset_eq_setD)
  then show ?thesis
    using assms rearranged_length [OF assms(1)] by (simp add: region_slice)
qed simp

lemma region_frame:
  assumes "rearranged l r a b" "region P a l' r'" "r' \<le> length a" "r' \<le> l \<or> r \<le> l'"
  shows "region P b l' r'"
  unfolding region_def
proof (intro allI impI, elim conjE)
  fix j assume "l' \<le> j" "j < r'"
  then show "P (b ! j)"
    using assms rearranged_nth_outside [OF assms(1), of j] by (auto simp: region_def)
qed

section \<open>The scans\<close>

lemma scan_bounded:
  assumes "0 < k" "k \<le> g" "g < length a" "right (a ! k)"
  shows "\<exists>g' found. scan_great True right a k g = Some (g', found) \<and> g' \<le> g \<and>
    region right a (Suc g') (Suc g) \<and> (if found then k < g' \<and> \<not> right (a ! g') else Suc g' = k)"
  using assms
proof (induction g)
  case 0
  then show ?case by simp
next
  case (Suc g)
  show ?case
  proof (cases "right (a ! Suc g)")
    case False
    with Suc.prems have "k \<noteq> Suc g" by auto
    with False Suc.prems show ?thesis by auto
  next
    case True
    show ?thesis
    proof (cases "g < k")
      case lt: True
      with Suc.prems have k: "k = Suc g" by simp
      have "scan_great True right a k (Suc g) = Some (g, False)"
        using lt True Suc.prems by simp
      moreover have "region right a (Suc g) (Suc (Suc g))"
        using True by (auto simp: region_def less_Suc_eq)
      ultimately show ?thesis using k by auto
    next
      case False
      then obtain g' found where "scan_great True right a k g = Some (g', found)" "g' \<le> g"
        "region right a (Suc g') (Suc g)" "if found then k < g' \<and> \<not> right (a ! g') else Suc g' = k"
        using Suc.IH Suc.prems by auto
      moreover from this have "region right a (Suc g') (Suc (Suc g))"
        using True by (auto simp: region_def less_Suc_eq)
      ultimately show ?thesis using True False Suc.prems by simp
    qed
  qed
qed

lemma scan_unbounded:
  assumes "m \<le> g" "g < length a" "\<not> right (a ! m)"
  shows "\<exists>g'. scan_great False right a k g = Some (g', True) \<and> m \<le> g' \<and> g' \<le> g \<and>
    \<not> right (a ! g') \<and> region right a (Suc g') (Suc g)"
  using assms
proof (induction g)
  case 0
  then show ?case by simp
next
  case (Suc g)
  show ?case
  proof (cases "right (a ! Suc g)")
    case False
    with Suc.prems show ?thesis by simp
  next
    case True
    with Suc.prems have "m \<le> g" by (cases "m = Suc g") auto
    with Suc obtain g' where "scan_great False right a k g = Some (g', True)" "m \<le> g'" "g' \<le> g"
      "\<not> right (a ! g')" "region right a (Suc g') (Suc g)" by auto
    moreover from this have "region right a (Suc g') (Suc (Suc g))"
      using True by (auto simp: region_def less_Suc_eq)
    ultimately show ?thesis using True Suc.prems by simp
  qed
qed

section \<open>The exchanges\<close>

lemma rearranged_cycle:
  assumes "lo \<le> l" "l \<le> k" "k < g" "g < hi" "hi \<le> length a"
  shows "rearranged lo hi a (a[k := a ! l, l := a ! g, g := a ! k])"
proof -
  let ?b = "a[k := a ! l, l := a ! k]"
  have "rearranged lo hi a ?b" using assms by (intro rearranged_swap) auto
  moreover have "rearranged lo hi ?b (?b[l := ?b ! g, g := ?b ! l])"
    using assms by (intro rearranged_swap) auto
  moreover have "?b[l := ?b ! g, g := ?b ! l] = a[k := a ! l, l := a ! g, g := a ! k]"
    using assms by (cases "l = k") (simp_all add: list_update_swap)
  ultimately show ?thesis by (metis rearranged_trans)
qed

lemma exchange_great_eq:
  assumes "0 < great" "great < length a" "k < length a" "lss < length a" "k \<noteq> great" "lss \<noteq> great \<or> \<not> triple (a ! great)"
  shows "exchange_great triple a lss k great ek =
    (if triple (a ! great)
     then Some (a[k := a ! lss, lss := a ! great, great := ek], lss + 1, great - 1)
     else Some (a[k := a ! great, great := ek], lss, great - 1))"
  using assms by (simp add: exchange_great_def)

section \<open>The partitioning loop\<close>

text \<open>
  The tests of a partitioning loop and what they promise of the elements they send to the
  left, middle and right part. \<open>Q\<close> is what is known of every element before the loop.
\<close>

definition parts_of ::
  "('a \<Rightarrow> bool) \<Rightarrow> ('a \<Rightarrow> bool) \<Rightarrow> ('a \<Rightarrow> bool) \<Rightarrow> ('a \<Rightarrow> bool) \<Rightarrow>
   nat \<Rightarrow> nat \<Rightarrow> 'a list \<Rightarrow> nat \<Rightarrow> nat \<Rightarrow> nat \<Rightarrow> bool" where
  \<comment> \<open>the loop invariant: what lies in front of \<open>lss\<close>, between \<open>lss\<close> and \<open>k\<close>, behind \<open>great\<close>\<close>
  "parts_of PL PM PR Q l0 g0 a lss k great \<longleftrightarrow>
     0 < l0 \<and> l0 \<le> lss \<and> lss \<le> k \<and> k \<le> Suc great \<and> great \<le> g0 \<and> g0 < length a \<and>
     region Q a l0 (Suc g0) \<and>
     region PL a l0 lss \<and> region PM a lss k \<and> region PR a (Suc great) (Suc g0)"

definition sentinel_in :: "('a \<Rightarrow> bool) \<Rightarrow> 'a list \<Rightarrow> nat \<Rightarrow> nat \<Rightarrow> nat \<Rightarrow> bool" where
  "sentinel_in PM a lss k great \<longleftrightarrow> (k \<le> great \<longrightarrow> (\<exists>m. lss \<le> m \<and> m \<le> great \<and> PM (a ! m)))"

locale partition_tests =
  fixes left right triple :: "'a \<Rightarrow> bool"
    and PL PM PR Q :: "'a \<Rightarrow> bool"
  assumes left_part: "Q x \<Longrightarrow> left x \<Longrightarrow> PL x"
    and right_part: "Q x \<Longrightarrow> right x \<Longrightarrow> PR x"
    and middle_part: "Q x \<Longrightarrow> \<not> left x \<Longrightarrow> \<not> right x \<Longrightarrow> PM x"
    and triple_part: "Q x \<Longrightarrow> \<not> right x \<Longrightarrow> triple x \<Longrightarrow> PL x"
    and single_part: "Q x \<Longrightarrow> \<not> right x \<Longrightarrow> \<not> triple x \<Longrightarrow> PM x"
begin

abbreviation parts :: "nat \<Rightarrow> nat \<Rightarrow> 'a list \<Rightarrow> nat \<Rightarrow> nat \<Rightarrow> nat \<Rightarrow> bool" where
  "parts \<equiv> parts_of PL PM PR Q"

lemma parts_keep:
  assumes "parts l0 g0 a lss k great" "k \<le> great" "\<not> left (a ! k)" "\<not> right (a ! k)"
  shows "parts l0 g0 a lss (Suc k) great"
proof -
  have "PM (a ! k)" using assms by (intro middle_part) (auto simp: parts_of_def region_def)
  with assms show ?thesis by (auto simp: parts_of_def region_def less_Suc_eq)
qed

lemma parts_left:
  assumes inv: "parts l0 g0 a lss k great" and k: "k \<le> great" "left (a ! k)"
    and b: "b = (if k \<noteq> lss then a[k := a ! lss, lss := a ! k] else a)"
  shows "parts l0 g0 b (Suc lss) (Suc k) great" "rearranged l0 (Suc g0) a b"
proof -
  have bnd: "lss \<le> k" "k < length a" "l0 \<le> lss" "k \<le> g0" "g0 < length a" using inv k by (auto simp: parts_of_def)
  show re: "rearranged l0 (Suc g0) a b"
    unfolding b using bnd by (auto intro!: rearranged_swap)
  have "PL (a ! k)" using inv k by (intro left_part) (auto simp: parts_of_def region_def)
  then have "region PL b l0 (Suc lss)"
    using inv bnd by (auto simp: b parts_of_def region_def less_Suc_eq nth_list_update)
  moreover have "region PM b (Suc lss) (Suc k)"
    using inv bnd by (auto simp: b parts_of_def region_def less_Suc_eq nth_list_update)
  moreover have "region PR b (Suc great) (Suc g0)"
    using inv bnd k by (auto simp: b parts_of_def region_def nth_list_update)
  moreover have "region Q b l0 (Suc g0)"
    using inv by (intro region_rearranged [OF re]) (auto simp: parts_of_def)
  ultimately show "parts l0 g0 b (Suc lss) (Suc k) great"
    using inv k rearranged_length [OF re] by (auto simp: parts_of_def)
qed

lemma parts_skip:
  assumes "parts l0 g0 a lss k great" "k \<le> Suc g" "g \<le> great" "region right a (Suc g) (Suc great)"
  shows "parts l0 g0 a lss k g"
proof -
  have "PR (a ! j)" if "Suc g \<le> j" "j < Suc great" for j
    using that assms by (intro right_part) (auto simp: parts_of_def region_def)
  then have "region PR a (Suc g) (Suc great)" by (simp add: region_def)
  with assms show ?thesis by (auto simp: parts_of_def intro: region_join)
qed

lemma parts_exchange:
  assumes inv: "parts l0 g0 a lss k g" and k: "k < g" "right (a ! k)" and g: "\<not> right (a ! g)"
    and e: "exchange_great triple a lss k g (a ! k) = Some (b, lss', g')"
  shows "parts l0 g0 b lss' (Suc k) g' \<and> g' < g \<and> rearranged l0 (Suc g0) a b"
proof -
  have bnd: "lss \<le> k" "g \<le> g0" "g0 < length a" "l0 \<le> lss" "0 < l0" using inv by (auto simp: parts_of_def)
  have Q: "Q (a ! k)" "Q (a ! g)" using inv k by (auto simp: parts_of_def region_def)
  have ex: "exchange_great triple a lss k g (a ! k) =
    (if triple (a ! g) then Some (a[k := a ! lss, lss := a ! g, g := a ! k], lss + 1, g - 1)
     else Some (a[k := a ! g, g := a ! k], lss, g - 1))"
    using k bnd by (intro exchange_great_eq) auto
  have PRk: "PR (a ! k)" using right_part Q k by blast
  show ?thesis
  proof (cases "triple (a ! g)")
    case True
    then have r: "b = a[k := a ! lss, lss := a ! g, g := a ! k]" "lss' = Suc lss" "g' = g - 1"
      using e ex by auto
    have re: "rearranged l0 (Suc g0) a b" unfolding r using k bnd by (intro rearranged_cycle) auto
    have PLg: "PL (a ! g)" using triple_part Q g True by blast
    have nth: "b ! j = (if j = g then a ! k else if j = lss then a ! g else if j = k then a ! lss else a ! j)"
      if "j < length a" for j using that k bnd by (auto simp: r nth_list_update)
    have "region PL b l0 (Suc lss)"
      using inv k bnd PLg by (auto simp: nth parts_of_def region_def less_Suc_eq)
    moreover have "region PM b (Suc lss) (Suc k)"
      using inv k bnd by (auto simp: nth parts_of_def region_def less_Suc_eq)
    moreover have "region PR b g (Suc g0)"
      using inv k bnd PRk by (auto simp: nth parts_of_def region_def)
    moreover have "region Q b l0 (Suc g0)"
      using inv by (intro region_rearranged [OF re]) (auto simp: parts_of_def)
    ultimately show ?thesis
      using inv k re r rearranged_length [OF re] by (auto simp: parts_of_def)
  next
    case False
    then have r: "b = a[k := a ! g, g := a ! k]" "lss' = lss" "g' = g - 1"
      using e ex by auto
    have re: "rearranged l0 (Suc g0) a b" unfolding r using k bnd by (intro rearranged_swap) auto
    have PMg: "PM (a ! g)" using single_part Q g False by blast
    have nth: "b ! j = (if j = g then a ! k else if j = k then a ! g else a ! j)"
      if "j < length a" for j using that k bnd by (auto simp: r nth_list_update)
    have "region PL b l0 lss"
      using inv k bnd by (auto simp: nth parts_of_def region_def)
    moreover have "region PM b lss (Suc k)"
      using inv k bnd PMg by (auto simp: nth parts_of_def region_def less_Suc_eq)
    moreover have "region PR b g (Suc g0)"
      using inv k bnd PRk by (auto simp: nth parts_of_def region_def)
    moreover have "region Q b l0 (Suc g0)"
      using inv by (intro region_rearranged [OF re]) (auto simp: parts_of_def)
    ultimately show ?thesis
      using inv k re r rearranged_length [OF re] by (auto simp: parts_of_def)
  qed
qed

lemma bounded_loop_correct:
  assumes "parts l0 g0 a lss k great"
  shows "\<exists>b lss' great'. partition_loop True left right triple a lss k great = Some (b, lss', great') \<and>
    rearranged l0 (Suc g0) a b \<and> lss \<le> lss' \<and> great' \<le> great \<and> parts l0 g0 b lss' (Suc great') great'"
  using assms
proof (induction "Suc great - k" arbitrary: a lss k great rule: less_induct)
  case less
  have bnd: "lss \<le> k" "k \<le> Suc great" "great < length a" "0 < l0" "l0 \<le> lss"
    using less.prems by (auto simp: parts_of_def)
  note step = partition_loop.simps [of True left right triple a lss k great]
  show ?case
  proof (cases "k \<le> great")
    case False
    then have "partition_loop True left right triple a lss k great = Some (a, lss, great)"
      by (simp add: step)
    moreover have "k = Suc great" using False bnd by simp
    ultimately show ?thesis using less.prems by auto
  next
    case True
    then have dec: "Suc great - Suc k < Suc great - k" by simp
    consider (L) "left (a ! k)" | (R) "\<not> left (a ! k)" "right (a ! k)" | (M) "\<not> left (a ! k)" "\<not> right (a ! k)"
      by blast
    then show ?thesis
    proof cases
      case L
      define b where "b = (if k \<noteq> lss then a[k := a ! lss, lss := a ! k] else a)"
      have b: "parts l0 g0 b (Suc lss) (Suc k) great" "rearranged l0 (Suc g0) a b"
        using parts_left [OF less.prems True L b_def] by auto
      have "partition_loop True left right triple a lss k great =
          partition_loop True left right triple b (Suc lss) (Suc k) great"
        using True L bnd by (simp add: step b_def)
      moreover obtain c lss' great' where
        "partition_loop True left right triple b (Suc lss) (Suc k) great = Some (c, lss', great')"
        "rearranged l0 (Suc g0) b c" "Suc lss \<le> lss'" "great' \<le> great"
        "parts l0 g0 c lss' (Suc great') great'"
        using less.hyps [OF dec b(1)] by auto
      ultimately show ?thesis using b(2) by (auto intro: rearranged_trans)
    next
      case M
      have "partition_loop True left right triple a lss k great =
          partition_loop True left right triple a lss (Suc k) great"
        using True M bnd by (simp add: step)
      then show ?thesis using less.hyps [OF dec parts_keep [OF less.prems True M]] by auto
    next
      case R
      obtain g found where g: "scan_great True right a k great = Some (g, found)" "g \<le> great"
        "region right a (Suc g) (Suc great)" "if found then k < g \<and> \<not> right (a ! g) else Suc g = k"
        using scan_bounded [of k great a right] True R bnd by auto
      have skip: "parts l0 g0 a lss k g"
        using parts_skip [OF less.prems _ g(2,3)] g(4) by (auto split: if_splits)
      show ?thesis
      proof (cases found)
        case False
        then have k: "Suc g = k" using g(4) by simp
        then have "partition_loop True left right triple a lss k great = Some (a, lss, g)"
          using True R bnd g(1) False
          by (simp add: step) (simp add: partition_loop.simps [of True left right triple a lss "Suc k" g])
        then show ?thesis using skip k g(2) by auto
      next
        case found: True
        obtain b lss' g' where e: "exchange_great triple a lss k g (a ! k) = Some (b, lss', g')"
          using exchange_great_eq [of g a k lss triple "a ! k"] g(2,4) found bnd
          by (cases "triple (a ! g)") auto
        have b: "parts l0 g0 b lss' (Suc k) g'" "g' < g" "rearranged l0 (Suc g0) a b"
          using parts_exchange [OF skip _ R(2) _ e] g(4) found by auto
        have dec': "Suc g' - Suc k < Suc great - k" using b(2) g(2) True by simp
        have "lss \<le> lss'"
          using e exchange_great_eq [of g a k lss triple "a ! k"] g(2,4) found bnd
          by (auto split: if_splits)
        moreover have "partition_loop True left right triple a lss k great =
            partition_loop True left right triple b lss' (Suc k) g'"
          using True R bnd g(1) found e by (simp add: step)
        moreover obtain c lss'' great' where
          "partition_loop True left right triple b lss' (Suc k) g' = Some (c, lss'', great')"
          "rearranged l0 (Suc g0) b c" "lss' \<le> lss''" "great' \<le> g'"
          "parts l0 g0 c lss'' (Suc great') great'"
          using less.hyps [OF dec' b(1)] by auto
        ultimately show ?thesis using b(2,3) g(2) by (auto intro: rearranged_trans)
      qed
    qed
  qed
qed

end

text \<open>
  The loop for equal pivots scans without a bound: an element of the middle part, which the
  scan cannot pass, is always left in front of it. An element may move from the middle part
  to the right part at the very end, so the right part promises less.
\<close>

locale flag_tests = partition_tests +
  assumes middle_right_part: "PM x \<Longrightarrow> PR x"
    and middle_tests: "PM x \<Longrightarrow> \<not> left x \<and> \<not> right x \<and> \<not> triple x"
begin

abbreviation sentinel :: "'a list \<Rightarrow> nat \<Rightarrow> nat \<Rightarrow> nat \<Rightarrow> bool" where
  "sentinel \<equiv> sentinel_in PM"

lemma sentinel_left:
  assumes "parts l0 g0 a lss k great" "k \<le> great" "left (a ! k)" "sentinel a lss k great"
    and b: "b = (if k \<noteq> lss then a[k := a ! lss, lss := a ! k] else a)"
  shows "sentinel b (Suc lss) (Suc k) great"
proof -
  from assms obtain m where m: "lss \<le> m" "m \<le> great" "PM (a ! m)" by (auto simp: sentinel_in_def)
  have "m \<noteq> k" using m(3) assms(3) middle_tests by blast
  have bnd: "lss \<le> k" "great < length a" using assms(1) by (auto simp: parts_of_def)
  show ?thesis
  proof (cases "m = lss")
    case True
    then have "b ! k = a ! m" "Suc lss \<le> k" using \<open>m \<noteq> k\<close> bnd assms(2) by (auto simp: b)
    then show ?thesis unfolding sentinel_in_def using m(3) assms(2) by metis
  next
    case False
    then have "b ! m = a ! m" using \<open>m \<noteq> k\<close> by (simp add: b)
    then show ?thesis unfolding sentinel_in_def using m False by (metis le_neq_implies_less Suc_leI)
  qed
qed

lemma sentinel_exchange:
  assumes "parts l0 g0 a lss k g" "k < g" "right (a ! k)" "\<not> right (a ! g)" "sentinel a lss k g"
    and e: "exchange_great triple a lss k g (a ! k) = Some (b, lss', g')"
  shows "sentinel b lss' (Suc k) g'"
proof -
  from assms obtain m where m: "lss \<le> m" "m \<le> g" "PM (a ! m)" by (auto simp: sentinel_in_def)
  have bnd: "lss \<le> k" "g < length a" "0 < g" using assms(1,2) by (auto simp: parts_of_def)
  have mk: "m \<noteq> k" using m(3) assms(3) middle_tests by blast
  have ex: "exchange_great triple a lss k g (a ! k) =
    (if triple (a ! g) then Some (a[k := a ! lss, lss := a ! g, g := a ! k], lss + 1, g - 1)
     else Some (a[k := a ! g, g := a ! k], lss, g - 1))"
    using assms(2) bnd by (intro exchange_great_eq) auto
  show ?thesis
  proof (cases "triple (a ! g)")
    case True
    then have r: "b = a[k := a ! lss, lss := a ! g, g := a ! k]" "lss' = Suc lss" "g' = g - 1"
      using e ex by auto
    have mg: "m \<noteq> g" using m(3) True middle_tests by blast
    define m' where "m' = (if m = lss then k else m)"
    have "Suc lss \<le> m'" "m' \<le> g - 1" "b ! m' = a ! m"
      using m mk mg bnd assms(2) by (auto simp: m'_def r nth_list_update)
    then show ?thesis unfolding sentinel_in_def r(2,3) using m(3) by metis
  next
    case False
    then have r: "b = a[k := a ! g, g := a ! k]" "lss' = lss" "g' = g - 1"
      using e ex by auto
    have "PM (a ! g)" using single_part assms False by (auto simp: parts_of_def region_def)
    moreover have "b ! k = a ! g" using assms(2) bnd by (simp add: r)
    moreover have "lss \<le> k" "k \<le> g - 1" using assms(2) bnd by auto
    ultimately show ?thesis unfolding sentinel_in_def r(2,3) by metis
  qed
qed

lemma sentinel_stop:
  assumes inv: "parts l0 g0 a lss k great" and k: "k \<le> great" "right (a ! k)" and sen: "sentinel a lss k great"
  shows "\<exists>g. scan_great False right a k great = Some (g, True) \<and> g \<le> great \<and> \<not> right (a ! g) \<and>
    region right a (Suc g) (Suc great) \<and> sentinel a lss k g \<and>
    (k < g \<or> Suc g = k \<and> lss \<le> g \<and> PM (a ! g))"
proof -
  from k sen obtain m where m: "lss \<le> m" "m \<le> great" "PM (a ! m)" by (auto simp: sentinel_in_def)
  have bnd: "great < length a" "lss \<le> k" using inv by (auto simp: parts_of_def)
  define m' where "m' = (if k \<le> m then m else k - 1)"
  have PM': "PM (a ! m')" using inv m by (auto simp: m'_def parts_of_def region_def)
  have m': "m' \<le> great" "k \<le> Suc m'" using m k by (auto simp: m'_def)
  obtain g where g: "scan_great False right a k great = Some (g, True)" "m' \<le> g" "g \<le> great"
    "\<not> right (a ! g)" "region right a (Suc g) (Suc great)"
    using scan_unbounded [OF m'(1) bnd(1), of right k] PM' middle_tests by blast
  have "g \<noteq> k" using g(4) k(2) by blast
  have "m \<le> g"
  proof (rule ccontr)
    assume "\<not> m \<le> g"
    then have "right (a ! m)" using g(5) m(2) by (auto simp: region_def)
    then show False using m(3) middle_tests by blast
  qed
  then have "sentinel a lss k g" using m by (auto simp: sentinel_in_def)
  moreover have "k < g \<or> Suc g = k \<and> lss \<le> g \<and> PM (a ! g)"
  proof (cases "k \<le> g")
    case True
    then show ?thesis using \<open>g \<noteq> k\<close> by simp
  next
    case False
    then have "Suc g = k" "g = m'" using g(2) m'(2) by auto
    then show ?thesis using PM' m(1) \<open>m \<le> g\<close> by auto
  qed
  ultimately show ?thesis using g by blast
qed

lemma parts_last:
  assumes inv: "parts l0 g0 a lss k great" and k: "k \<le> great" "right (a ! k)"
    and g: "Suc g = k" "lss \<le> g" "PM (a ! g)" "region right a (Suc g) (Suc great)"
  shows "exchange_great triple a lss k g (a ! k) = Some (a[k := a ! g, g := a ! k], lss, g - 1)"
    and "parts l0 g0 (a[k := a ! g, g := a ! k]) lss g (g - 1)"
    and "rearranged l0 (Suc g0) a (a[k := a ! g, g := a ! k])"
proof -
  let ?b = "a[k := a ! g, g := a ! k]"
  have bnd: "0 < l0" "l0 \<le> lss" "great \<le> g0" "g0 < length a" using inv by (auto simp: parts_of_def)
  show "exchange_great triple a lss k g (a ! k) = Some (?b, lss, g - 1)"
    using exchange_great_eq [of g a k lss triple "a ! k"] g k bnd middle_tests by auto
  show re: "rearranged l0 (Suc g0) a ?b"
    using bnd g k by (intro rearranged_swap) auto
  have skip: "parts l0 g0 a lss k g"
    using parts_skip [OF inv _ _ g(4)] g(1) k(1) by simp
  have PRs: "PR (a ! k)" "PR (a ! g)"
    using middle_right_part g(3) right_part k inv by (auto simp: parts_of_def region_def)
  have "region PR ?b g (Suc g0)"
    unfolding region_def
  proof (intro allI impI, elim conjE)
    fix j assume "g \<le> j" "j < Suc g0"
    then show "PR (?b ! j)"
      using PRs skip bnd k g(1) by (auto simp: nth_list_update parts_of_def region_def)
  qed
  moreover have "region PM ?b lss g" "region PL ?b l0 lss"
    using inv g(1,2) bnd by (auto simp: parts_of_def region_def nth_list_update)
  moreover have "region Q ?b l0 (Suc g0)"
    using inv by (intro region_rearranged [OF re]) (auto simp: parts_of_def)
  ultimately show "parts l0 g0 ?b lss g (g - 1)"
    using bnd g k by (auto simp: parts_of_def)
qed

lemma flag_loop_correct:
  assumes "parts l0 g0 a lss k great" "sentinel a lss k great"
  shows "\<exists>b lss' great'. partition_loop False left right triple a lss k great = Some (b, lss', great') \<and>
    rearranged l0 (Suc g0) a b \<and> parts l0 g0 b lss' (Suc great') great'"
  using assms
proof (induction "Suc great - k" arbitrary: a lss k great rule: less_induct)
  case less
  have bnd: "lss \<le> k" "k \<le> Suc great" "great < length a" "0 < l0" "l0 \<le> lss"
    using less.prems by (auto simp: parts_of_def)
  note step = partition_loop.simps [of False left right triple a lss k great]
  show ?case
  proof (cases "k \<le> great")
    case False
    then have "partition_loop False left right triple a lss k great = Some (a, lss, great)"
      by (simp add: step)
    moreover have "k = Suc great" using False bnd by simp
    ultimately show ?thesis using less.prems by auto
  next
    case True
    then have dec: "Suc great - Suc k < Suc great - k" by simp
    consider (L) "left (a ! k)" | (R) "\<not> left (a ! k)" "right (a ! k)" | (M) "\<not> left (a ! k)" "\<not> right (a ! k)"
      by blast
    then show ?thesis
    proof cases
      case L
      define b where "b = (if k \<noteq> lss then a[k := a ! lss, lss := a ! k] else a)"
      have b: "parts l0 g0 b (Suc lss) (Suc k) great" "rearranged l0 (Suc g0) a b"
        using parts_left [OF less.prems(1) True L b_def] by auto
      have "partition_loop False left right triple a lss k great =
          partition_loop False left right triple b (Suc lss) (Suc k) great"
        using True L bnd by (simp add: step b_def)
      then show ?thesis
        using less.hyps [OF dec b(1) sentinel_left [OF less.prems(1) True L less.prems(2) b_def]] b(2)
        by (auto intro: rearranged_trans)
    next
      case M
      have "sentinel a lss (Suc k) great" using less.prems(2) by (auto simp: sentinel_in_def)
      moreover have "partition_loop False left right triple a lss k great =
          partition_loop False left right triple a lss (Suc k) great"
        using True M bnd by (simp add: step)
      ultimately show ?thesis
        using less.hyps [OF dec parts_keep [OF less.prems(1) True M]] by auto
    next
      case R
      obtain g where g: "scan_great False right a k great = Some (g, True)" "g \<le> great" "\<not> right (a ! g)"
        "region right a (Suc g) (Suc great)" "sentinel a lss k g"
        and stop: "k < g \<or> Suc g = k \<and> lss \<le> g \<and> PM (a ! g)"
        using sentinel_stop [OF less.prems(1) True R(2) less.prems(2)] by blast
      have run: "partition_loop False left right triple a lss k great =
          partition_loop False left right triple b lss' (Suc k) g'"
        if "exchange_great triple a lss k g (a ! k) = Some (b, lss', g')" for b lss' g'
        using True R bnd g(1) that by (simp add: step)
      from stop show ?thesis
      proof (elim disjE conjE)
        assume kg: "k < g"
        have skip: "parts l0 g0 a lss k g" using parts_skip [OF less.prems(1) _ g(2,4)] kg by simp
        obtain b lss' g' where e: "exchange_great triple a lss k g (a ! k) = Some (b, lss', g')"
          using exchange_great_eq [of g a k lss triple "a ! k"] g(2) kg bnd
          by (cases "triple (a ! g)") auto
        have b: "parts l0 g0 b lss' (Suc k) g'" "g' < g" "rearranged l0 (Suc g0) a b"
          using parts_exchange [OF skip kg R(2) g(3) e] by auto
        have dec': "Suc g' - Suc k < Suc great - k" using b(2) g(2) True by simp
        show ?thesis
          using less.hyps [OF dec' b(1) sentinel_exchange [OF skip kg R(2) g(3,5) e]] run [OF e] b(3)
          by (auto intro: rearranged_trans)
      next
        assume last: "Suc g = k" "lss \<le> g" "PM (a ! g)"
        note fin = parts_last [OF less.prems(1) True R(2) last g(4)]
        have "partition_loop False left right triple (a[k := a ! g, g := a ! k]) lss (Suc k) (g - 1) =
            Some (a[k := a ! g, g := a ! k], lss, g - 1)"
          by (subst partition_loop.simps, subst if_not_P) (use last(1) in auto)
        moreover have "Suc (g - 1) = g" using last(2) bnd by simp
        ultimately show ?thesis using run [OF fin(1)] fin(2,3) by auto
      qed
    qed
  qed
qed

end

section \<open>The three instances\<close>

interpretation pivots_tests: partition_tests
    "\<lambda>d. f d < p1" "\<lambda>d. f d > p2" "\<lambda>d. f d < p1" "\<lambda>d. f d < p1"
    "\<lambda>d. p1 \<le> f d \<and> f d \<le> p2" "\<lambda>d. p2 \<le> f d" "\<lambda>d. True"
  for f :: "'a \<Rightarrow> 'v::linorder" and p1 p2
  by unfold_locales auto

interpretation middle_tests: partition_tests
    "\<lambda>d. f d \<le> p1 \<and> f d \<ge> p1" "\<lambda>d. f d \<le> p2 \<and> f d \<ge> p2" "\<lambda>d. f d < p1" "\<lambda>d. f d = p1"
    "\<lambda>d. p1 \<le> f d \<and> f d \<le> p2" "\<lambda>d. f d = p2" "\<lambda>d. p1 \<le> f d \<and> f d \<le> p2"
  for f :: "'a \<Rightarrow> 'v::linorder" and p1 p2
  by unfold_locales auto

interpretation equal_tests: flag_tests
    "\<lambda>d. f d < p" "\<lambda>d. f d > p" "\<lambda>d. f d < p" "\<lambda>d. f d < p"
    "\<lambda>d. f d = p" "\<lambda>d. p \<le> f d" "\<lambda>d. True"
  for f :: "'a \<Rightarrow> 'v::linorder" and p
  by unfold_locales auto

lemma partition_pivots_correct:
  fixes f :: "'a \<Rightarrow> 'v::linorder"
  assumes "0 < l0" "l0 \<le> Suc g0" "g0 < length a"
  shows "\<exists>b l g. partition_pivots f p1 p2 a l0 g0 = Some (b, l, g) \<and> rearranged l0 (Suc g0) a b \<and>
    l0 \<le> l \<and> l \<le> Suc g \<and> g \<le> g0 \<and> region (\<lambda>d. f d < p1) b l0 l \<and>
    region (\<lambda>d. p1 \<le> f d \<and> f d \<le> p2) b l (Suc g) \<and> region (\<lambda>d. p2 \<le> f d) b (Suc g) (Suc g0)"
proof -
  have "parts_of (\<lambda>d. f d < p1) (\<lambda>d. p1 \<le> f d \<and> f d \<le> p2) (\<lambda>d. p2 \<le> f d) (\<lambda>d. True) l0 g0 a l0 l0 g0"
    using assms by (auto simp: parts_of_def region_def)
  from pivots_tests.bounded_loop_correct [OF this] show ?thesis
    by (auto simp: partition_pivots_def parts_of_def)
qed

lemma partition_middle_correct:
  fixes f :: "'a \<Rightarrow> 'v::linorder"
  assumes "0 < l0" "l0 \<le> Suc g0" "g0 < length a" "region (\<lambda>d. p1 \<le> f d \<and> f d \<le> p2) a l0 (Suc g0)"
  shows "\<exists>b l g. partition_middle f p1 p2 a l0 g0 = Some (b, l, g) \<and> rearranged l0 (Suc g0) a b \<and>
    l0 \<le> l \<and> l \<le> Suc g \<and> g \<le> g0 \<and> region (\<lambda>d. f d = p1) b l0 l \<and>
    region (\<lambda>d. p1 \<le> f d \<and> f d \<le> p2) b l (Suc g) \<and> region (\<lambda>d. f d = p2) b (Suc g) (Suc g0)"
proof -
  have "parts_of (\<lambda>d. f d = p1) (\<lambda>d. p1 \<le> f d \<and> f d \<le> p2) (\<lambda>d. f d = p2) (\<lambda>d. p1 \<le> f d \<and> f d \<le> p2) l0 g0 a l0 l0 g0"
    using assms by (simp add: parts_of_def)
  from middle_tests.bounded_loop_correct [OF this] show ?thesis
    by (auto simp: partition_middle_def parts_of_def)
qed

lemma partition_equal_correct:
  fixes f :: "'a \<Rightarrow> 'v::linorder"
  assumes "0 < l0" "l0 \<le> m" "m \<le> g0" "g0 < length a" "f (a ! m) = p"
  shows "\<exists>b l g. partition_equal f p a l0 g0 = Some (b, l, g) \<and> rearranged l0 (Suc g0) a b \<and>
    l0 \<le> l \<and> l \<le> Suc g \<and> g \<le> g0 \<and> region (\<lambda>d. f d < p) b l0 l \<and>
    region (\<lambda>d. f d = p) b l (Suc g) \<and> region (\<lambda>d. p \<le> f d) b (Suc g) (Suc g0)"
proof -
  have "parts_of (\<lambda>d. f d < p) (\<lambda>d. f d = p) (\<lambda>d. p \<le> f d) (\<lambda>d. True) l0 g0 a l0 l0 g0" "sentinel_in (\<lambda>d. f d = p) a l0 l0 g0"
    using assms by (auto simp: parts_of_def sentinel_in_def region_def)
  from equal_tests.flag_loop_correct [OF this] show ?thesis
    by (auto simp: partition_equal_def parts_of_def)
qed

section \<open>Choosing and placing the pivots\<close>

lemma sorting_network_sorts:
  fixes f :: "'a \<Rightarrow> 'v::linorder"
  assumes "sorting_network f e1 e2 e3 e4 e5 = (y1, y2, y3, y4, y5)"
  shows "f y1 \<le> f y2 \<and> f y2 \<le> f y3 \<and> f y3 \<le> f y4 \<and> f y4 \<le> f y5"
  using assms unfolding sorting_network_def compare_exchange_def Let_def
  by (auto split: if_splits prod.splits)

lemma sorting_network_mset:
  assumes "sorting_network f e1 e2 e3 e4 e5 = (y1, y2, y3, y4, y5)"
  shows "{#y1, y2, y3, y4, y5#} = {#e1, e2, e3, e4, e5#}"
  using assms unfolding sorting_network_def compare_exchange_def Let_def
  by (auto split: if_splits prod.splits)

definition updates :: "(nat \<times> 'a) list \<Rightarrow> 'a list \<Rightarrow> 'a list" where
  "updates ps a = fold (\<lambda>(i, v) a. a[i := v]) ps a"

lemma updates_simps [simp]: "updates [] a = a" "updates ((i, v) # ps) a = updates ps (a[i := v])"
  by (simp_all add: updates_def)

lemma length_updates [simp]: "length (updates ps a) = length a"
  by (induction ps arbitrary: a) auto

lemma nth_updates_other: "i \<notin> fst ` set ps \<Longrightarrow> updates ps a ! i = a ! i"
  by (induction ps arbitrary: a) auto

lemma take_updates: "(\<And>i. i \<in> fst ` set ps \<Longrightarrow> lo \<le> i) \<Longrightarrow> take lo (updates ps a) = take lo a"
  by (induction ps arbitrary: a) auto

lemma drop_updates: "(\<And>i. i \<in> fst ` set ps \<Longrightarrow> i < hi) \<Longrightarrow> drop hi (updates ps a) = drop hi a"
  by (induction ps arbitrary: a) auto

lemma mset_updates:
  assumes "distinct (map fst ps)" "\<And>i. i \<in> fst ` set ps \<Longrightarrow> i < length a"
  shows "mset (updates ps a) + mset (map (\<lambda>p. a ! fst p) ps) = mset a + mset (map snd ps)"
  using assms
proof (induction ps arbitrary: a)
  case Nil
  then show ?case by simp
next
  case (Cons p ps)
  obtain i v where p: "p = (i, v)" by (cases p)
  let ?b = "a[i := v]"
  have i: "i < length a" "i \<notin> fst ` set ps" using Cons.prems by (auto simp: p)
  have "mset (updates ps ?b) + mset (map (\<lambda>p. ?b ! fst p) ps) = mset ?b + mset (map snd ps)"
    using Cons.prems by (intro Cons.IH) (auto simp: p)
  moreover have "map (\<lambda>p. ?b ! fst p) ps = map (\<lambda>p. a ! fst p) ps"
    using i(2) by (intro map_cong refl nth_list_update_neq) auto
  moreover have "mset ?b + {#a ! i#} = mset a + {#v#}"
    using i(1) by (simp add: mset_update)
  ultimately show ?case
    by (simp add: p)
qed

lemma rearranged_updates:
  assumes "distinct (map fst ps)" "\<And>i. i \<in> fst ` set ps \<Longrightarrow> lo \<le> i \<and> i < hi" "hi \<le> length a"
    and "mset (map snd ps) = mset (map (\<lambda>p. a ! fst p) ps)"
  shows "rearranged lo hi a (updates ps a)"
proof -
  have "mset (updates ps a) + mset (map (\<lambda>p. a ! fst p) ps) = mset a + mset (map snd ps)"
    using assms(2,3) by (intro mset_updates [OF assms(1)]) fastforce
  moreover have "take lo (updates ps a) = take lo a" "drop hi (updates ps a) = drop hi a"
    using assms(2) by (auto intro!: take_updates drop_updates)
  ultimately show ?thesis using assms(4) by (simp add: rearranged_def)
qed

definition plugged :: "('a, 'v) pivots \<Rightarrow> nat \<Rightarrow> nat \<Rightarrow> 'a list \<Rightarrow> 'a list" where
  \<comment> \<open>the array with the saved pivots in the two slots left free at the ends of the slice\<close>
  "plugged p lo hi a = a[lo := pivot1 p, hi - 1 := pivot2 p]"

lemma pivot_indices:
  fixes lo hi :: nat
  assumes "32 \<le> hi - lo" and six: "sixth = (hi - lo) div 6" and i3: "i3 = (lo + hi - 1) div 2"
  shows "lo < lo + sixth" "lo + sixth < i3 - sixth" "i3 - sixth < i3" "i3 < i3 + sixth"
    "i3 + sixth < hi - 1 - sixth" "hi - 1 - sixth < hi - 1"
proof -
  obtain n where n: "hi = lo + n" "32 \<le> n" using assms(1) by (metis add_diff_inverse_nat diff_is_0_eq'
      le_antisym linorder_not_less nat_le_linear not_numeral_le_zero)
  have s: "6 * sixth \<le> n" "n < 6 * sixth + 6" using six n(1) by auto
  have "i3 = lo + (n - 1) div 2" using i3 n by auto
  moreover obtain h where h: "(n - 1) div 2 = h" "2 * h \<le> n - 1" "n - 1 \<le> 2 * h + 1" by fastforce
  ultimately have i: "i3 = lo + h" by simp
  show "lo < lo + sixth" using s n by linarith
  show "lo + sixth < i3 - sixth" using s n h i by linarith
  show "i3 - sixth < i3" using s n h i by linarith
  show "i3 < i3 + sixth" using s n by linarith
  show "i3 + sixth < hi - 1 - sixth" using s n h i by linarith
  show "hi - 1 - sixth < hi - 1" using s n by linarith
qed

lemma choose_pivots_correct:
  fixes f :: "'a \<Rightarrow> 'v::linorder"
  assumes "32 \<le> hi - lo" "hi \<le> length a" "hi \<le> 2 ^ 30"
  shows "\<exists>b p m. choose_pivots f a lo hi = Some (b, p) \<and> rearranged lo hi a (plugged p lo hi b) \<and>
    length b = length a \<and> pivotValue1 p = f (pivot1 p) \<and> pivotValue2 p = f (pivot2 p) \<and>
    lo < m \<and> m < hi - 1 \<and> pivotValue1 p \<le> f (b ! m) \<and> f (b ! m) \<le> pivotValue2 p"
proof -
  define sixth where "sixth = (hi - lo) div 6"
  define i3 where "i3 = (lo + hi - 1) div 2"
  define j1 j2 j4 j5 where "j1 = lo + sixth" and "j2 = i3 - sixth" and "j4 = i3 + sixth" and "j5 = hi - 1 - sixth"
  have ord: "lo < j1" "j1 < j2" "j2 < i3" "i3 < j4" "j4 < j5" "j5 < hi - 1"
    using pivot_indices [OF assms(1) sixth_def i3_def] by (simp_all add: j1_def j2_def j4_def j5_def)
  have sar: "sar1 (lo + hi - 1) = Some i3" using assms by (simp add: sar1_exact i3_def)
  obtain y1 y2 y3 y4 y5 where net:
    "sorting_network f (a ! j1) (a ! j2) (a ! i3) (a ! j4) (a ! j5) = (y1, y2, y3, y4, y5)"
    by (metis prod_cases5)
  note y = sorting_network_sorts [OF net] sorting_network_mset [OF net]
  define b where "b = a[j1 := y1, j2 := a ! lo, i3 := y3, j4 := a ! (hi - 1), j5 := y5]"
  define p where "p = \<lparr>index1 = j1, index5 = j5, pivot1 = y2, pivot2 = y4, pivotValue1 = f y2, pivotValue2 = f y4\<rparr>"
  have run: "choose_pivots f a lo hi = Some (b, p)"
    unfolding choose_pivots_def Let_def sar Option.bind.simps sixth_def [symmetric] j1_def [symmetric]
      j2_def [symmetric] j4_def [symmetric] j5_def [symmetric]
    using ord assms(2) net by (simp add: b_def p_def)
  let ?ps = "[(j1, y1), (j2, a ! lo), (i3, y3), (j4, a ! (hi - 1)), (j5, y5), (lo, y2), (hi - 1, y4)]"
  have "rearranged lo hi a (updates ?ps a)"
  proof (rule rearranged_updates)
    show "distinct (map fst ?ps)" using ord by auto
    show "lo \<le> i \<and> i < hi" if "i \<in> fst ` set ?ps" for i using that ord by auto
    show "mset (map snd ?ps) = mset (map (\<lambda>p. a ! fst p) ?ps)"
      using y(2) by (simp add: add_mset_commute)
  qed (use assms in simp)
  moreover have "updates ?ps a = plugged p lo hi b"
    by (simp add: plugged_def b_def p_def)
  moreover have "b ! i3 = y3" using ord assms(2) by (simp add: b_def nth_list_update)
  ultimately show ?thesis
    using run ord y(1) by (intro exI [of _ b] exI [of _ p] exI [of _ i3]) (simp add: p_def b_def)
qed

lemma place_pivots_correct:
  assumes "lo < l" "l \<le> Suc g" "Suc g < hi" "hi \<le> length a"
  shows "\<exists>b. place_pivots p a lo hi l g = Some b \<and> rearranged lo hi (plugged p lo hi a) b \<and>
    b ! (l - 1) = pivot1 p \<and> b ! Suc g = pivot2 p \<and>
    (lo < l - 1 \<longrightarrow> b ! lo = a ! (l - 1)) \<and> (Suc g < hi - 1 \<longrightarrow> b ! (hi - 1) = a ! Suc g) \<and>
    (\<forall>j. lo < j \<and> j < hi - 1 \<and> j \<noteq> l - 1 \<and> j \<noteq> Suc g \<longrightarrow> b ! j = a ! j)"
proof -
  define b where "b = a[lo := a ! (l - 1), l - 1 := pivot1 p, hi - 1 := a ! Suc g, Suc g := pivot2 p]"
  have ne: "l - 1 \<noteq> Suc g" "lo \<noteq> Suc g" "l - 1 \<noteq> hi - 1" "lo \<noteq> hi - 1" using assms by auto
  have run: "place_pivots p a lo hi l g = Some b"
    using assms ne by (simp add: place_pivots_def b_def)
  let ?c = "plugged p lo hi a"
  let ?d = "?c[lo := ?c ! (l - 1), l - 1 := ?c ! lo]"
  let ?e = "?d[hi - 1 := ?d ! Suc g, Suc g := ?d ! (hi - 1)]"
  have "rearranged lo hi ?c ?d" using assms by (intro rearranged_swap) (auto simp: plugged_def)
  moreover have "rearranged lo hi ?d ?e" using assms by (intro rearranged_swap) (auto simp: plugged_def)
  moreover have "?e = b"
    by (rule nth_equalityI) (use assms ne in \<open>auto simp: b_def plugged_def nth_list_update\<close>)
  ultimately have "rearranged lo hi ?c b" by (metis rearranged_trans)
  then show ?thesis
    using run assms ne by (auto simp: b_def nth_list_update)
qed

section \<open>Clearing the middle part of pivot values\<close>

lemma skip_up_correct:
  assumes "i \<le> m" "m < length a" "\<not> eq (a ! m)"
  shows "\<exists>j. skip_up eq a i = Some j \<and> i \<le> j \<and> j \<le> m \<and> region eq a i j"
  using assms
proof (induction "m - i" arbitrary: i)
  case 0
  then show ?case by (subst skip_up.simps) simp
next
  case (Suc n)
  show ?case
  proof (cases "eq (a ! i)")
    case False
    then show ?thesis using Suc.prems Suc.hyps(2) by (subst skip_up.simps) auto
  next
    case True
    obtain j where "skip_up eq a (Suc i) = Some j" "Suc i \<le> j" "j \<le> m" "region eq a (Suc i) j"
    proof -
      have "n = m - Suc i" "Suc i \<le> m" using Suc.hyps(2) by auto
      then show thesis using Suc.hyps(1) [of "Suc i"] Suc.prems that by blast
    qed
    moreover from this have "region eq a i j"
      using True by (auto simp: region_def) (metis Suc_leI le_neq_implies_less)
    moreover have "skip_up eq a i = skip_up eq a (Suc i)"
      using True Suc.hyps(2) Suc.prems by (subst skip_up.simps) simp
    ultimately show ?thesis by auto
  qed
qed

lemma skip_down_correct:
  assumes "m \<le> i" "i < length a" "\<not> eq (a ! m)"
  shows "\<exists>j. skip_down eq a i = Some j \<and> m \<le> j \<and> j \<le> i \<and> region eq a (Suc j) (Suc i)"
  using assms
proof (induction i)
  case 0
  then show ?case by (subst skip_down.simps) simp
next
  case (Suc i)
  show ?case
  proof (cases "eq (a ! Suc i)")
    case False
    then show ?thesis using Suc.prems by (subst skip_down.simps) auto
  next
    case True
    then have "m \<le> i" using Suc.prems by (cases "m = Suc i") auto
    then obtain j where "skip_down eq a i = Some j" "m \<le> j" "j \<le> i" "region eq a (Suc j) (Suc i)"
      using Suc by auto
    moreover from this have "region eq a (Suc j) (Suc (Suc i))"
      using True by (auto simp: region_def less_Suc_eq)
    moreover have "skip_down eq a (Suc i) = skip_down eq a i"
      using True Suc.prems by (subst skip_down.simps) simp
    ultimately show ?thesis by auto
  qed
qed

lemma clear_middle_correct:
  fixes f :: "'a \<Rightarrow> 'v::linorder"
  assumes bnd: "0 < l" "l \<le> Suc g" "Suc g < length a" and lt: "pivotValue1 p < pivotValue2 p"
    and ends: "f (a ! (l - 1)) = pivotValue1 p" "f (a ! Suc g) = pivotValue2 p"
    and mid: "region (\<lambda>d. pivotValue1 p \<le> f d \<and> f d \<le> pivotValue2 p) a l (Suc g)"
  shows "\<exists>b l' g'. clear_middle f p a l g = Some (b, l', g') \<and> rearranged l (Suc g) a b \<and>
    l \<le> l' \<and> l' \<le> Suc g' \<and> g' \<le> g \<and> region (\<lambda>d. f d = pivotValue1 p) b l l' \<and>
    region (\<lambda>d. pivotValue1 p \<le> f d \<and> f d \<le> pivotValue2 p) b l' (Suc g') \<and>
    region (\<lambda>d. f d = pivotValue2 p) b (Suc g') (Suc g)"
proof (cases "l < index1 p \<and> g > index5 p")
  case False
  then show ?thesis using assms by (auto simp: clear_middle_def)
next
  case True
  let ?eq1 = "\<lambda>d. f d \<le> pivotValue1 p \<and> f d \<ge> pivotValue1 p"
  let ?eq2 = "\<lambda>d. f d \<le> pivotValue2 p \<and> f d \<ge> pivotValue2 p"
  obtain l1 where l1: "skip_up ?eq1 a l = Some l1" "l \<le> l1" "l1 \<le> Suc g" "region ?eq1 a l l1"
  proof -
    have "\<not> ?eq1 (a ! Suc g)" using ends(2) lt by auto
    then show thesis using skip_up_correct [of l "Suc g" a ?eq1] bnd that by blast
  qed
  have ne: "\<not> ?eq2 (a ! (l1 - 1))"
  proof (cases "l1 = l")
    case True
    then show ?thesis using ends(1) lt by auto
  next
    case False
    then have "l \<le> l1 - 1" "l1 - 1 < l1" using l1(2) by auto
    then have "f (a ! (l1 - 1)) = pivotValue1 p"
      using regionD [OF l1(4), of "l1 - 1"] by auto
    then show ?thesis using lt by auto
  qed
  obtain g1 where g1: "skip_down ?eq2 a g = Some g1" "l1 - 1 \<le> g1" "g1 \<le> g"
    "region ?eq2 a (Suc g1) (Suc g)"
  proof -
    have "l1 - 1 \<le> g" "g < length a" using bnd l1(3) by auto
    then show thesis using skip_down_correct [of "l1 - 1" g a ?eq2] ne that by blast
  qed
  have mid1: "region (\<lambda>d. pivotValue1 p \<le> f d \<and> f d \<le> pivotValue2 p) a l1 (Suc g1)"
    using region_sub [OF mid] l1 g1 by simp
  obtain b l' g' where b: "partition_middle f (pivotValue1 p) (pivotValue2 p) a l1 g1 = Some (b, l', g')"
    "rearranged l1 (Suc g1) a b" "l1 \<le> l'" "l' \<le> Suc g'" "g' \<le> g1"
    "region (\<lambda>d. f d = pivotValue1 p) b l1 l'"
    "region (\<lambda>d. pivotValue1 p \<le> f d \<and> f d \<le> pivotValue2 p) b l' (Suc g')"
    "region (\<lambda>d. f d = pivotValue2 p) b (Suc g') (Suc g1)"
  proof -
    have "0 < l1" "l1 \<le> Suc g1" "g1 < length a" using bnd l1(2) g1(2,3) by auto
    then show thesis using partition_middle_correct [OF _ _ _ mid1] that by blast
  qed
  have "region (\<lambda>d. f d = pivotValue1 p) b l l1"
    using l1 bnd by (intro region_frame [OF b(2)] region_mono [OF l1(4)]) auto
  then have "region (\<lambda>d. f d = pivotValue1 p) b l l'" using b(6) by (rule region_join)
  moreover have "region (\<lambda>d. f d = pivotValue2 p) b (Suc g1) (Suc g)"
    using g1 bnd by (intro region_frame [OF b(2)] region_mono [OF g1(4)]) auto
  with b(8) have "region (\<lambda>d. f d = pivotValue2 p) b (Suc g') (Suc g)" by (rule region_join)
  moreover have "rearranged l (Suc g) a b" using b(2) l1(2) g1(3) by (auto intro: rearranged_mono)
  moreover have "clear_middle f p a l g = Some (b, l', g')"
    using True l1(1) g1(1) b(1) by (simp add: clear_middle_def)
  ultimately show ?thesis using b l1(2) g1(3) by auto
qed

section \<open>One partitioning pass\<close>

definition partitioned :: "('a \<Rightarrow> 'v::ord) \<Rightarrow> ('a, 'v) pivots \<Rightarrow> 'a list \<Rightarrow> nat \<Rightarrow> nat \<Rightarrow> nat \<Rightarrow> nat \<Rightarrow> bool" where
  "partitioned f p a lo l g hi \<longleftrightarrow>
     lo < l \<and> l \<le> Suc g \<and> Suc g < hi \<and> hi \<le> length a \<and> pivotValue1 p \<le> pivotValue2 p \<and>
     region (\<lambda>d. f d \<le> pivotValue1 p) a lo (l - 1) \<and> f (a ! (l - 1)) = pivotValue1 p \<and>
     region (\<lambda>d. pivotValue1 p \<le> f d \<and> f d \<le> pivotValue2 p) a l (Suc g) \<and>
     f (a ! Suc g) = pivotValue2 p \<and> region (\<lambda>d. pivotValue2 p \<le> f d) a (g + 2) hi"

lemma rearranged_plugged:
  assumes "rearranged (Suc lo) (hi - 1) a b" "Suc lo \<le> hi - 1" "hi \<le> length a"
  shows "rearranged lo hi (plugged p lo hi a) (plugged p lo hi b)"
proof -
  have len: "length b = length a" using rearranged_length [OF assms(1)] .
  have eq: "b ! lo = a ! lo" "b ! (hi - 1) = a ! (hi - 1)" "lo \<noteq> hi - 1"
    using rearranged_nth_outside [OF assms(1), of lo] rearranged_nth_outside [OF assms(1), of "hi - 1"] assms(2,3)
    by auto
  have ms: "mset b = mset a" using assms(1) by (simp add: rearranged_def)
  have "mset (plugged p lo hi b) = mset (plugged p lo hi a)"
    using assms len eq ms by (simp add: plugged_def mset_update)
  moreover have "take lo b = take lo a" "drop hi b = drop hi a"
    using assms(1) take_eq_le [of "Suc lo" b a lo] drop_eq_le [of "hi - 1" b a hi]
    by (auto simp: rearranged_def)
  ultimately show ?thesis using assms(2) by (simp add: rearranged_def plugged_def)
qed

lemma placed_partitioned:
  fixes f :: "'a \<Rightarrow> 'v::linorder"
  assumes bnd: "lo < l" "l \<le> Suc g" "Suc g < hi" "hi \<le> length a"
    and le: "pivotValue1 p \<le> pivotValue2 p"
    and val: "pivotValue1 p = f (pivot1 p)" "pivotValue2 p = f (pivot2 p)"
    and L: "region (\<lambda>d. f d < pivotValue1 p) a (Suc lo) l"
    and M: "region (\<lambda>d. pivotValue1 p \<le> f d \<and> f d \<le> pivotValue2 p) a l (Suc g)"
    and R: "region (\<lambda>d. pivotValue2 p \<le> f d) a (Suc g) (hi - 1)"
  shows "\<exists>b. place_pivots p a lo hi l g = Some b \<and> rearranged lo hi (plugged p lo hi a) b \<and>
    partitioned f p b lo l g hi"
proof -
  obtain b where b: "place_pivots p a lo hi l g = Some b" "rearranged lo hi (plugged p lo hi a) b"
    "b ! (l - 1) = pivot1 p" "b ! Suc g = pivot2 p"
    "lo < l - 1 \<longrightarrow> b ! lo = a ! (l - 1)" "Suc g < hi - 1 \<longrightarrow> b ! (hi - 1) = a ! Suc g"
    "\<And>j. lo < j \<Longrightarrow> j < hi - 1 \<Longrightarrow> j \<noteq> l - 1 \<Longrightarrow> j \<noteq> Suc g \<Longrightarrow> b ! j = a ! j"
    using place_pivots_correct [OF bnd] by blast
  have "f (b ! j) \<le> pivotValue1 p" if "lo \<le> j" "j < l - 1" for j
  proof (cases "j = lo")
    case True
    then show ?thesis using regionD [OF L, of "l - 1"] b(5) that bnd by auto
  next
    case False
    then have "Suc lo \<le> j" "j < l" "j < hi - 1" "j \<noteq> l - 1" "j \<noteq> Suc g" using that bnd by auto
    then show ?thesis using regionD [OF L, of j] b(7) [of j] by auto
  qed
  moreover have "pivotValue1 p \<le> f (b ! j) \<and> f (b ! j) \<le> pivotValue2 p" if "l \<le> j" "j < Suc g" for j
    using regionD [OF M, of j] b(7) [of j] that bnd by auto
  moreover have "pivotValue2 p \<le> f (b ! j)" if "g + 2 \<le> j" "j < hi" for j
  proof (cases "j = hi - 1")
    case True
    then show ?thesis using regionD [OF R, of "Suc g"] b(6) that bnd by auto
  next
    case False
    then show ?thesis using regionD [OF R, of j] b(7) [of j] that bnd by auto
  qed
  moreover have "length b = length a" using rearranged_length [OF b(2)] by (simp add: plugged_def)
  ultimately show ?thesis
    using b(1-4) bnd le val by (auto simp: partitioned_def region_def)
qed

abbreviation pivots_equal :: "('a, 'v::ord) pivots \<Rightarrow> bool" where
  "pivots_equal p \<equiv> pivotValue1 p \<le> pivotValue2 p \<and> pivotValue1 p \<ge> pivotValue2 p"

lemma partition_pass:
  fixes f :: "'a \<Rightarrow> 'v::linorder"
  assumes len: "32 \<le> hi - lo" "hi \<le> length a" "hi \<le> 2 ^ 30"
  shows "\<exists>a1 p a2 l g a3. choose_pivots f a lo hi = Some (a1, p) \<and>
    (if pivots_equal p then partition_equal f (pivotValue1 p) a1 (lo + 1) (hi - 2)
     else partition_pivots f (pivotValue1 p) (pivotValue2 p) a1 (lo + 1) (hi - 2)) = Some (a2, l, g) \<and>
    place_pivots p a2 lo hi l g = Some a3 \<and> rearranged lo hi a a3 \<and> partitioned f p a3 lo l g hi"
proof -
  obtain a1 p m where c: "choose_pivots f a lo hi = Some (a1, p)" "rearranged lo hi a (plugged p lo hi a1)"
    "length a1 = length a" "pivotValue1 p = f (pivot1 p)" "pivotValue2 p = f (pivot2 p)"
    "lo < m" "m < hi - 1" "pivotValue1 p \<le> f (a1 ! m)" "f (a1 ! m) \<le> pivotValue2 p"
    using choose_pivots_correct [OF len, of f] by blast
  have le: "pivotValue1 p \<le> pivotValue2 p" using c(8,9) by simp
  have hi: "Suc (hi - 2) = hi - 1" using len by simp
  have "\<exists>a2 l g. (if pivots_equal p then partition_equal f (pivotValue1 p) a1 (lo + 1) (hi - 2)
      else partition_pivots f (pivotValue1 p) (pivotValue2 p) a1 (lo + 1) (hi - 2)) = Some (a2, l, g) \<and>
    rearranged (Suc lo) (hi - 1) a1 a2 \<and> lo < l \<and> l \<le> Suc g \<and> g \<le> hi - 2 \<and>
    region (\<lambda>d. f d < pivotValue1 p) a2 (Suc lo) l \<and>
    region (\<lambda>d. pivotValue1 p \<le> f d \<and> f d \<le> pivotValue2 p) a2 l (Suc g) \<and>
    region (\<lambda>d. pivotValue2 p \<le> f d) a2 (Suc g) (hi - 1)"
  proof (cases "pivots_equal p")
    case True
    then have eq: "pivotValue2 p = pivotValue1 p" and fm: "f (a1 ! m) = pivotValue1 p" using c(8,9) by auto
    have "\<exists>b l g. partition_equal f (pivotValue1 p) a1 (Suc lo) (hi - 2) = Some (b, l, g) \<and>
      rearranged (Suc lo) (Suc (hi - 2)) a1 b \<and> Suc lo \<le> l \<and> l \<le> Suc g \<and> g \<le> hi - 2 \<and>
      region (\<lambda>d. f d < pivotValue1 p) b (Suc lo) l \<and>
      region (\<lambda>d. f d = pivotValue1 p) b l (Suc g) \<and>
      region (\<lambda>d. pivotValue1 p \<le> f d) b (Suc g) (Suc (hi - 2))"
      using c(3,6,7) len by (intro partition_equal_correct [where m = m] fm) auto
    then show ?thesis unfolding hi by (fastforce simp: eq intro: region_mono)
  next
    case False
    have "\<exists>b l g. partition_pivots f (pivotValue1 p) (pivotValue2 p) a1 (Suc lo) (hi - 2) = Some (b, l, g) \<and>
      rearranged (Suc lo) (Suc (hi - 2)) a1 b \<and> Suc lo \<le> l \<and> l \<le> Suc g \<and> g \<le> hi - 2 \<and>
      region (\<lambda>d. f d < pivotValue1 p) b (Suc lo) l \<and>
      region (\<lambda>d. pivotValue1 p \<le> f d \<and> f d \<le> pivotValue2 p) b l (Suc g) \<and>
      region (\<lambda>d. pivotValue2 p \<le> f d) b (Suc g) (Suc (hi - 2))"
      using c(3) len by (intro partition_pivots_correct) auto
    then show ?thesis unfolding hi using False by (fastforce simp: Suc_le_eq)
  qed
  then obtain a2 l g where p2: "(if pivots_equal p then partition_equal f (pivotValue1 p) a1 (lo + 1) (hi - 2)
      else partition_pivots f (pivotValue1 p) (pivotValue2 p) a1 (lo + 1) (hi - 2)) = Some (a2, l, g)"
    and re: "rearranged (Suc lo) (hi - 1) a1 a2" and lg: "lo < l" "l \<le> Suc g" "g \<le> hi - 2"
    and regs: "region (\<lambda>d. f d < pivotValue1 p) a2 (Suc lo) l"
      "region (\<lambda>d. pivotValue1 p \<le> f d \<and> f d \<le> pivotValue2 p) a2 l (Suc g)"
      "region (\<lambda>d. pivotValue2 p \<le> f d) a2 (Suc g) (hi - 1)" by blast
  have len2: "hi \<le> length a2" using rearranged_length [OF re] c(3) len by simp
  have "Suc g < hi" using lg len by simp
  then obtain a3 where a3: "place_pivots p a2 lo hi l g = Some a3"
    "rearranged lo hi (plugged p lo hi a2) a3" "partitioned f p a3 lo l g hi"
    using placed_partitioned [OF lg(1,2) _ len2 le c(4,5) regs] by blast
  have "rearranged lo hi (plugged p lo hi a1) (plugged p lo hi a2)"
  proof -
    have "Suc lo \<le> hi - 1" "hi \<le> length a1" using len c(3) by auto
    then show ?thesis by (rule rearranged_plugged [OF re])
  qed
  then have "rearranged lo hi a a3" using c(2) a3(2) by (blast intro: rearranged_trans)
  then show ?thesis using c(1) p2 a3(1,3) by blast
qed

section \<open>Quicksort sorts\<close>

definition sorted_slice :: "('a \<Rightarrow> 'v::linorder) \<Rightarrow> 'a list \<Rightarrow> nat \<Rightarrow> nat \<Rightarrow> bool" where
  "sorted_slice f a lo hi = sorted (map f (slice a lo hi))"

definition sorted_from :: "('a \<Rightarrow> 'v::linorder) \<Rightarrow> nat \<Rightarrow> nat \<Rightarrow> 'a list \<Rightarrow> 'a list \<Rightarrow> bool" where
  "sorted_from f lo hi a b \<longleftrightarrow> rearranged lo hi a b \<and> sorted_slice f b lo hi"

lemma sorted_slice_short [simp]: "hi \<le> Suc lo \<Longrightarrow> hi \<le> length a \<Longrightarrow> sorted_slice f a lo hi"
proof (cases "lo < hi")
  case True
  assume "hi \<le> Suc lo" "hi \<le> length a"
  with True have "slice a lo hi = [a ! lo]" by (simp add: slice_Cons)
  then show ?thesis by (simp add: sorted_slice_def)
qed (simp add: sorted_slice_def)

lemma sorted_slice_join:
  assumes "sorted_slice f a l m" "sorted_slice f a m r" "l \<le> m" "m \<le> r" "r \<le> length a"
    and "region (\<lambda>d. f d \<le> v) a l m" "region (\<lambda>d. v \<le> f d) a m r"
  shows "sorted_slice f a l r"
  using assms slice_append [of l m r a]
  by (force simp: sorted_slice_def sorted_append region_slice intro: order_trans)

lemma sorted_slice_const:
  assumes "region (\<lambda>d. f d = v) a l r" "r \<le> length a"
  shows "sorted_slice f a l r"
  using assms by (auto simp: sorted_slice_def region_def sorted_iff_nth_mono)

lemma sorted_slice_frame:
  assumes "rearranged l r a b" "sorted_slice f a l' r'" "r' \<le> l \<or> r \<le> l'"
  shows "sorted_slice f b l' r'"
  using assms rearranged_slice_left [OF assms(1)] rearranged_slice_right [OF assms(1)]
  by (auto simp: sorted_slice_def)

lemma region_single: "P (a ! i) \<Longrightarrow> region P a i (Suc i)"
  by (auto simp: region_def less_Suc_eq)

lemma region_preserved:
  assumes "rearranged l r a b" "r \<le> length a" "region P a l' r'" "r' \<le> length a"
    and "r' \<le> l \<or> r \<le> l' \<or> l = l' \<and> r = r'"
  shows "region P b l' r'"
  using assms region_rearranged [OF assms(1,2)] region_frame [OF assms(1,3,4)] by auto

lemma partitioned_rearranged:
  assumes P: "partitioned f p a lo l g hi" and re: "rearranged m n a b"
    and mn: "m = lo \<and> n = l - 1 \<or> m = l \<and> n = Suc g \<or> m = g + 2 \<and> n = hi"
  shows "partitioned f p b lo l g hi"
proof -
  have bnd: "lo < l" "l \<le> Suc g" "Suc g < hi" "hi \<le> length a" using P by (auto simp: partitioned_def)
  have n: "n \<le> length a" using mn bnd by auto
  have "l - 1 < m \<or> n \<le> l - 1" "l - 1 < length a" "Suc g < m \<or> n \<le> Suc g" "Suc g < length a"
    using mn bnd by arith+
  then have nth: "b ! (l - 1) = a ! (l - 1)" "b ! Suc g = a ! Suc g"
    using rearranged_nth_outside [OF re] by blast+
  note pres = region_preserved [OF re n]
  have "region (\<lambda>d. f d \<le> pivotValue1 p) b lo (l - 1)"
    using P bnd mn by (intro pres) (auto simp: partitioned_def)
  moreover have "region (\<lambda>d. pivotValue1 p \<le> f d \<and> f d \<le> pivotValue2 p) b l (Suc g)"
    using P bnd mn by (intro pres) (auto simp: partitioned_def)
  moreover have "region (\<lambda>d. pivotValue2 p \<le> f d) b (g + 2) hi"
    using P bnd mn by (intro pres) (auto simp: partitioned_def)
  ultimately show ?thesis
    using P nth rearranged_length [OF re] by (simp add: partitioned_def)
qed

lemma partitioned_sorted:
  fixes f :: "'a \<Rightarrow> 'v::linorder"
  assumes P: "partitioned f p a lo l g hi"
    and "sorted_slice f a lo (l - 1)" "sorted_slice f a l (Suc g)" "sorted_slice f a (g + 2) hi"
  shows "sorted_slice f a lo hi"
proof -
  have bnd: "lo < l" "l \<le> Suc g" "Suc g < hi" "hi \<le> length a" and le: "pivotValue1 p \<le> pivotValue2 p"
    and v: "f (a ! (l - 1)) = pivotValue1 p" "f (a ! Suc g) = pivotValue2 p"
    and L: "region (\<lambda>d. f d \<le> pivotValue1 p) a lo (l - 1)"
    and M: "region (\<lambda>d. pivotValue1 p \<le> f d \<and> f d \<le> pivotValue2 p) a l (Suc g)"
    and R: "region (\<lambda>d. pivotValue2 p \<le> f d) a (g + 2) hi"
    using P by (auto simp: partitioned_def)
  have pv1: "region (\<lambda>d. f d = pivotValue1 p) a (l - 1) l"
    using region_single [of "\<lambda>d. f d = pivotValue1 p" a "l - 1"] v bnd by simp
  have pv2: "region (\<lambda>d. f d = pivotValue2 p) a (Suc g) (g + 2)"
    using region_single [of "\<lambda>d. f d = pivotValue2 p" a "Suc g"] v by simp
  have R': "region (\<lambda>d. pivotValue2 p \<le> f d) a (Suc g) hi"
    by (rule region_join [OF region_mono [OF pv2] R]) simp
  have s_right: "sorted_slice f a (Suc g) hi"
    by (rule sorted_slice_join [OF _ assms(4) _ _ _ region_mono [OF pv2] R]) (use bnd in auto)
  have s_midr: "sorted_slice f a l hi"
    by (rule sorted_slice_join [OF assms(3) s_right _ _ _ region_mono [OF M] R']) (use bnd in auto)
  have M': "region (\<lambda>d. pivotValue1 p \<le> f d) a l hi"
    by (rule region_join [OF region_mono [OF M] region_mono [OF R']]) (use le in auto)
  have "sorted_slice f a (l - 1) hi"
    by (rule sorted_slice_join [OF _ s_midr _ _ _ region_mono [OF pv1] M']) (use bnd in auto)
  then show ?thesis
    by (rule sorted_slice_join [OF assms(2) _ _ _ _ L region_join [OF region_mono [OF pv1] M']])
       (use bnd in auto)
qed

lemma cleared_sorted:
  fixes f :: "'a \<Rightarrow> 'v::linorder"
  assumes "l \<le> l'" "l' \<le> Suc g'" "g' \<le> g" "Suc g \<le> length a" "v1 \<le> v2"
    and eq1: "region (\<lambda>d. f d = v1) a l l'" and mid: "region (\<lambda>d. v1 \<le> f d \<and> f d \<le> v2) a l' (Suc g')"
    and eq2: "region (\<lambda>d. f d = v2) a (Suc g') (Suc g)" and s: "sorted_slice f a l' (Suc g')"
  shows "sorted_slice f a l (Suc g)"
proof -
  have le2: "region (\<lambda>d. f d \<le> v2) a l' (Suc g')" and ge1: "region (\<lambda>d. v1 \<le> f d) a l' (Suc g')"
    using mid by (auto simp: region_def)
  have ge2: "region (\<lambda>d. v2 \<le> f d) a (Suc g') (Suc g)" and ge1': "region (\<lambda>d. v1 \<le> f d) a (Suc g') (Suc g)"
    using eq2 assms(5) by (auto simp: region_def)
  have le1: "region (\<lambda>d. f d \<le> v1) a l l'" using eq1 by (auto simp: region_def)
  have s': "sorted_slice f a l' (Suc g)"
    by (rule sorted_slice_join [OF s sorted_slice_const [OF eq2] _ _ _ le2 ge2]) (use assms in auto)
  show ?thesis
    by (rule sorted_slice_join [OF sorted_slice_const [OF eq1] s' _ _ _ le1 region_join [OF ge1 ge1']])
       (use assms in auto)
qed

lemma insertionsort_sorted_from:
  fixes f :: "'a \<Rightarrow> 'v::linorder"
  assumes "lo \<le> hi" "hi \<le> length a"
  shows "\<exists>b. insertionsort f a lo hi = Some b \<and> sorted_from f lo hi a b"
proof -
  let ?b = "take lo a @ sort_key f (slice a lo hi) @ drop hi a"
  have a: "a = take lo a @ slice a lo hi @ drop hi a"
  proof -
    have "drop hi a = drop (hi - lo) (drop lo a)" using assms by simp
    then show ?thesis by (metis append_take_drop_id slice_def)
  qed
  have "mset ?b = mset a" using arg_cong [OF a, of mset] by simp
  then have "rearranged lo hi a ?b" using assms by (simp add: rearranged_def)
  moreover have "slice ?b lo hi = sort_key f (slice a lo hi)" using assms by (simp add: slice_def)
  ultimately show ?thesis
    using insertionsort_correct [OF assms, of f] by (simp add: sorted_from_def sorted_slice_def)
qed

definition sorts_below :: "('a \<Rightarrow> 'v::linorder) \<Rightarrow> nat \<Rightarrow> bool" where
  \<comment> \<open>\<open>quicksort\<close> returns and sorts on every slice shorter than \<open>n\<close>\<close>
  "sorts_below f n \<longleftrightarrow> (\<forall>a lo hi. lo \<le> hi \<and> hi \<le> length a \<and> hi \<le> 2 ^ 30 \<and> hi - lo < n \<longrightarrow>
     (\<exists>b. quicksort f a lo hi = Some b \<and> sorted_from f lo hi a b))"

lemma sorts_belowE:
  assumes "sorts_below f n" "lo \<le> hi" "hi \<le> length a" "hi \<le> 2 ^ 30" "hi - lo < n"
  obtains b where "quicksort f a lo hi = Some b" "rearranged lo hi a b" "sorted_slice f b lo hi"
    "length b = length a"
  using assms rearranged_length unfolding sorts_below_def sorted_from_def by blast

lemma sort_outer_parts:
  fixes f :: "'a \<Rightarrow> 'v::linorder"
  assumes IH: "sorts_below f (hi - lo)" and P: "partitioned f p a lo l g hi" and hi: "hi \<le> 2 ^ 30"
  obtains b c where "quicksort f a lo (l - 1) = Some b" "quicksort f b (g + 2) hi = Some c"
    "partitioned f p c lo l g hi" "rearranged lo hi a c" "length c = length a"
    "sorted_slice f c lo (l - 1)" "sorted_slice f c (g + 2) hi"
proof -
  have bnd: "lo < l" "l \<le> Suc g" "Suc g < hi" "hi \<le> length a" using P by (auto simp: partitioned_def)
  have "lo \<le> l - 1" "l - 1 \<le> length a" "l - 1 \<le> 2 ^ 30" "l - 1 - lo < hi - lo" using bnd hi by linarith+
  then obtain b where b: "quicksort f a lo (l - 1) = Some b" "rearranged lo (l - 1) a b"
    "sorted_slice f b lo (l - 1)" "length b = length a" by (rule sorts_belowE [OF IH])
  have P1: "partitioned f p b lo l g hi" using partitioned_rearranged [OF P b(2)] by simp
  have "g + 2 \<le> hi" "hi \<le> length b" "hi - (g + 2) < hi - lo" using bnd b(4) by linarith+
  then obtain c where c: "quicksort f b (g + 2) hi = Some c" "rearranged (g + 2) hi b c"
    "sorted_slice f c (g + 2) hi" "length c = length b" using sorts_belowE [OF IH _ _ hi] by blast
  have "partitioned f p c lo l g hi" using partitioned_rearranged [OF P1 c(2)] by simp
  moreover have "sorted_slice f c lo (l - 1)" using sorted_slice_frame [OF c(2) b(3)] bnd by simp
  moreover have "rearranged lo hi a c"
  proof (rule rearranged_trans)
    show "rearranged lo hi a b" by (rule rearranged_mono [OF b(2)]) (use bnd in simp_all)
    show "rearranged lo hi b c" by (rule rearranged_mono [OF c(2)]) (use bnd in simp_all)
  qed
  ultimately show thesis using that b c by simp
qed

lemma sort_middle_part:
  fixes f :: "'a \<Rightarrow> 'v::linorder"
  assumes IH: "sorts_below f (hi - lo)" and P: "partitioned f p a lo l g hi" and hi: "hi \<le> 2 ^ 30"
    and ne: "\<not> pivots_equal p"
    and s: "sorted_slice f a lo (l - 1)" "sorted_slice f a (g + 2) hi"
  obtains b l' g' c where "clear_middle f p a l g = Some (b, l', g')" "quicksort f b l' (g' + 1) = Some c"
    "sorted_from f lo hi a c"
proof -
  have bnd: "lo < l" "l \<le> Suc g" "Suc g < hi" "hi \<le> length a" and le: "pivotValue1 p \<le> pivotValue2 p"
    using P by (auto simp: partitioned_def)
  then have lt: "pivotValue1 p < pivotValue2 p" using ne by auto
  have "0 < l" "Suc g < length a" "f (a ! (l - 1)) = pivotValue1 p" "f (a ! Suc g) = pivotValue2 p"
    "region (\<lambda>d. pivotValue1 p \<le> f d \<and> f d \<le> pivotValue2 p) a l (Suc g)"
    using P by (auto simp: partitioned_def)
  then obtain b l' g' where b: "clear_middle f p a l g = Some (b, l', g')" "rearranged l (Suc g) a b"
    "l \<le> l'" "l' \<le> Suc g'" "g' \<le> g" "region (\<lambda>d. f d = pivotValue1 p) b l l'"
    "region (\<lambda>d. pivotValue1 p \<le> f d \<and> f d \<le> pivotValue2 p) b l' (Suc g')"
    "region (\<lambda>d. f d = pivotValue2 p) b (Suc g') (Suc g)"
    using clear_middle_correct [OF _ bnd(2) _ lt] by blast
  have lenb: "length b = length a" using rearranged_length [OF b(2)] .
  have "Suc g' \<le> length b" "Suc g' \<le> 2 ^ 30" "Suc g' - l' < hi - lo" using bnd b(3-5) hi lenb by linarith+
  then obtain c where c: "quicksort f b l' (Suc g') = Some c" "rearranged l' (Suc g') b c"
    "sorted_slice f c l' (Suc g')" "length c = length b" by (rule sorts_belowE [OF IH b(4)])
  have re: "rearranged l (Suc g) a c"
    by (rule rearranged_trans [OF b(2) rearranged_mono [OF c(2)]]) (use b(3,5) in simp_all)
  note pres = region_preserved [OF c(2)]
  have "sorted_slice f c l (Suc g)"
    by (rule cleared_sorted [OF b(3-5) _ le pres [OF _ b(6)] pres [OF _ b(7)] pres [OF _ b(8)] c(3)])
       (use bnd b(3-5) lenb c(4) in auto)
  moreover have "sorted_slice f c lo (l - 1)" using sorted_slice_frame [OF re s(1)] by simp
  moreover have "sorted_slice f c (g + 2) hi" using sorted_slice_frame [OF re s(2)] by simp
  moreover have "partitioned f p c lo l g hi" using partitioned_rearranged [OF P re] by simp
  ultimately have "sorted_slice f c lo hi" using partitioned_sorted by blast
  moreover have "rearranged lo hi a c" by (rule rearranged_mono [OF re]) (use bnd in simp_all)
  ultimately have "sorted_from f lo hi a c" by (simp add: sorted_from_def)
  moreover have "quicksort f b l' (g' + 1) = Some c" using c(1) by simp
  ultimately show thesis using that b(1) by blast
qed

lemma quicksort_step:
  fixes f :: "'a \<Rightarrow> 'v::linorder"
  assumes IH: "sorts_below f (hi - lo)" and len: "32 \<le> hi - lo" "hi \<le> length a" "hi \<le> 2 ^ 30"
  shows "\<exists>b. quicksort f a lo hi = Some b \<and> sorted_from f lo hi a b"
proof -
  obtain a1 p a2 l g a3 where pass: "choose_pivots f a lo hi = Some (a1, p)"
    "(if pivots_equal p then partition_equal f (pivotValue1 p) a1 (lo + 1) (hi - 2)
      else partition_pivots f (pivotValue1 p) (pivotValue2 p) a1 (lo + 1) (hi - 2)) = Some (a2, l, g)"
    "place_pivots p a2 lo hi l g = Some a3" and re: "rearranged lo hi a a3"
    and P3: "partitioned f p a3 lo l g hi"
    using partition_pass [OF len, of f] by blast
  obtain b c where bc: "quicksort f a3 lo (l - 1) = Some b" "quicksort f b (g + 2) hi = Some c"
    and P: "partitioned f p c lo l g hi" and rec: "rearranged lo hi a3 c"
    and s: "sorted_slice f c lo (l - 1)" "sorted_slice f c (g + 2) hi"
    by (rule sort_outer_parts [OF IH P3 len(3)])
  have re': "rearranged lo hi a c" using re rec by (rule rearranged_trans)
  have run: "quicksort f a lo hi = (if pivots_equal p then Some c else do {
      (a, lss, great) \<leftarrow> clear_middle f p c l g;
      quicksort f a lss (great + 1) })"
  proof -
    have "\<not> hi - lo < quicksort_sizeThreshold" using len(1) by (simp add: quicksort_sizeThreshold_def)
    then show ?thesis
      by (subst quicksort.simps) (simp only: if_False Let_def pass bc Option.bind.simps prod.case)
  qed
  show ?thesis
  proof (cases "pivots_equal p")
    case True
    then have "region (\<lambda>d. f d = pivotValue1 p) c l (Suc g)"
      using P by (auto simp: partitioned_def region_def)
    then have "sorted_slice f c l (Suc g)"
      using P by (intro sorted_slice_const) (auto simp: partitioned_def)
    then have "sorted_slice f c lo hi" using s by (intro partitioned_sorted [OF P])
    then show ?thesis using True run re' by (simp add: sorted_from_def)
  next
    case False
    then obtain d l' g' e where "clear_middle f p c l g = Some (d, l', g')"
      "quicksort f d l' (g' + 1) = Some e" "sorted_from f lo hi c e"
      using sort_middle_part [OF IH P len(3) _ s] by blast
    then show ?thesis using False run re' by (auto simp: sorted_from_def intro: rearranged_trans)
  qed
qed

theorem quicksort_correct:
  fixes f :: "'a \<Rightarrow> 'v::linorder"
  assumes "lo \<le> hi" "hi \<le> length a" "hi \<le> 2 ^ 30"
  shows "\<exists>b. quicksort f a lo hi = Some b \<and> sorted_from f lo hi a b"
  using assms
proof (induction "hi - lo" arbitrary: a lo hi rule: less_induct)
  case less
  show ?case
  proof (cases "hi - lo < quicksort_sizeThreshold")
    case True
    then show ?thesis
      using insertionsort_sorted_from [OF less.prems(1,2), of f] by (subst quicksort.simps) simp
  next
    case False
    have "sorts_below f (hi - lo)" unfolding sorts_below_def using less.hyps by blast
    then show ?thesis
      using False less.prems by (intro quicksort_step) (auto simp: quicksort_sizeThreshold_def)
  qed
qed

section \<open>Properties\<close>

text \<open>
  C8: insertion sort replaces the slice by its stable sort by key and leaves the rest of
  the array alone.
\<close>

theorem insertionsort_stable:
  fixes f :: "'a \<Rightarrow> 'v::linorder"
  assumes "lo \<le> hi" "hi \<le> length a"
  shows "insertionsort f a lo hi = Some (take lo a @ sort_key f (slice a lo hi) @ drop hi a)"
  by (rule insertionsort_correct [OF assms])

theorem insertionsort_stable_witness:
  "insertionsort id [8, 5, 9, 2, 0 :: int] 1 4 = Some [8, 2, 5, 9, 0]"
  using insertionsort_stable [of 1 4 "[8, 5, 9, 2, 0 :: int]" id] by (simp add: slice_def)

text \<open>
  C3: the dual-pivot quicksort returns on every slice, sorts it by key, permutes nothing
  but the slice, and keeps every element. The bound is the one under which its 32-bit
  midpoint is exact.
\<close>

theorem quicksort_sorts:
  fixes f :: "'a \<Rightarrow> 'v::linorder"
  assumes "lo \<le> hi" "hi \<le> length a" "hi \<le> 2 ^ 30"
  shows "\<exists>b. quicksort f a lo hi = Some b \<and> mset b = mset a \<and> take lo b = take lo a \<and>
    drop hi b = drop hi a \<and> sorted (map f (slice b lo hi))"
  using quicksort_correct [OF assms, of f]
  by (auto simp: sorted_from_def rearranged_def sorted_slice_def)

theorem quicksort_sorts_witness:
  "\<exists>b. quicksort id (rev [0..<40]) 0 40 = Some b \<and> b = [0..<40]"
proof -
  obtain b where b: "quicksort id (rev [0..<40]) 0 40 = Some b" "mset b = mset (rev [0..<40])"
    "sorted (map id (slice b 0 40))"
    using quicksort_sorts [of 0 40 "rev [0..<40]" id] by auto
  have "length b = 40" using arg_cong [OF b(2), of size] by simp
  then have "sorted b" using b(3) by (simp add: slice_def)
  then have "b = sort [0..<40]" using b(2) by (intro properties_for_sort [symmetric]) simp_all
  then show ?thesis using b(1) by (simp add: sorted_sort_id)
qed

end
