(* ===== verification/Cf_Index.thy ===== *)
theory Cf_Index
  imports Cf_Dimension Cf_Quicksort
begin

unbundle bit_operations_syntax

text \<open>
  The correctness of a dimension: what its sorted index promises, what its filter bits mean,
  and that adding records, removing records and every kind of filter keep both. The change
  lists that a filter hands to its listeners are exactly the records whose bit flipped.
\<close>

section \<open>Bits of the filters\<close>

definition one_bit :: "32 word \<Rightarrow> nat \<Rightarrow> bool" where
  "one_bit w b \<longleftrightarrow> b < 32 \<and> w = 2 ^ b"

definition fs_fit :: "nat \<Rightarrow> 32 word list \<Rightarrow> bool" where
  \<comment> \<open>every element fits into \<open>M\<close> bits\<close>
  "fs_fit M fs \<longleftrightarrow> (\<forall>x \<in> set fs. take_bit M x = x)"

lemma bit_one_bit: "one_bit w b \<Longrightarrow> bit w j \<longleftrightarrow> j = b"
  by (auto simp: one_bit_def bit_simps)

lemma one_bit_and: "one_bit w b \<Longrightarrow> (x AND w = 0) \<longleftrightarrow> \<not> bit x b"
  by (simp add: one_bit_def and_exp_eq_0_iff_not_bit)

lemma one_bit_neq_0: "one_bit w b \<Longrightarrow> w \<noteq> 0"
  using bit_one_bit [of w b b] by auto

lemma one_bit_less_M: "one_bit w b \<Longrightarrow> b < M \<Longrightarrow> take_bit M w = w"
  by (rule bit_word_eqI) (auto simp: bit_take_bit_iff bit_one_bit)

lemma bit_ge_M: "take_bit M x = (x :: 32 word) \<Longrightarrow> M \<le> j \<Longrightarrow> \<not> bit x j"
  by (metis bit_take_bit_iff not_less)

lemma take_bit_eq_of_bits: "(\<And>j. M \<le> j \<Longrightarrow> \<not> bit x j) \<Longrightarrow> take_bit M x = (x :: 32 word)"
  by (rule bit_word_eqI) (auto simp: bit_take_bit_iff not_less [symmetric])

lemma fs_fit_nth: "fs_fit M fs \<Longrightarrow> k < length fs \<Longrightarrow> take_bit M (fs ! k) = fs ! k"
  by (simp add: fs_fit_def)

lemma fs_fit_update: "fs_fit M fs \<Longrightarrow> take_bit M v = v \<Longrightarrow> fs_fit M (fs[k := v])"
  by (auto simp: fs_fit_def dest!: set_update_subset_insert [THEN subsetD])

lemma fs_fit_append: "fs_fit M (fs @ gs) \<longleftrightarrow> fs_fit M fs \<and> fs_fit M gs"
  by (auto simp: fs_fit_def)

lemma fset_exact:
  "k < length fs \<Longrightarrow> take_bit M v = v \<Longrightarrow> fset M k v fs = Some (fs[k := v])"
  by (simp add: fset_def)

definition modify_at :: "('a \<Rightarrow> 'a) \<Rightarrow> nat list \<Rightarrow> 'a list \<Rightarrow> 'a list" where
  "modify_at h ks fs = fold (\<lambda>k fs. fs[k := h (fs ! k)]) ks fs"

lemma modify_at_simps [simp]:
  "modify_at h [] fs = fs"
  "modify_at h (k # ks) fs = modify_at h ks (fs[k := h (fs ! k)])"
  "modify_at h (ks @ js) fs = modify_at h js (modify_at h ks fs)"
  by (simp_all add: modify_at_def)

lemma length_modify_at [simp]: "length (modify_at h ks fs) = length fs"
  by (induction ks arbitrary: fs) auto

lemma nth_modify_at:
  "distinct ks \<Longrightarrow> k < length fs \<Longrightarrow> modify_at h ks fs ! k = (if k \<in> set ks then h (fs ! k) else fs ! k)"
proof (induction ks arbitrary: fs)
  case (Cons a ks)
  then show ?case by (cases "a = k") auto
qed simp

lemma fs_fit_modify_at:
  assumes "fs_fit M fs" "\<And>x. take_bit M x = x \<Longrightarrow> take_bit M (h x) = h x" "\<forall>k \<in> set ks. k < length fs"
  shows "fs_fit M (modify_at h ks fs)"
  using assms(1,3)
proof (induction ks arbitrary: fs)
  case (Cons k ks)
  have "fs_fit M (fs[k := h (fs ! k)])"
    using Cons.prems assms(2) fs_fit_nth by (intro fs_fit_update) auto
  then show ?case using Cons by simp
qed simp

text \<open>The three stores, and a loop of one of them over ids that an index yields.\<close>

lemma filter_or_exact:
  "fs_fit M fs \<Longrightarrow> take_bit M one = one \<Longrightarrow> k < length fs \<Longrightarrow>
     filter_or M one k fs = Some (fs[k := fs ! k OR one])"
  by (simp add: filter_or_def fset_def fs_fit_nth)

lemma filter_xor_exact:
  "fs_fit M fs \<Longrightarrow> take_bit M one = one \<Longrightarrow> k < length fs \<Longrightarrow>
     filter_xor M one k fs = Some (fs[k := fs ! k XOR one])"
  by (simp add: filter_xor_def fset_def fs_fit_nth)

lemma filter_and_exact:
  "fs_fit M fs \<Longrightarrow> k < length fs \<Longrightarrow> filter_and M zero k fs = Some (fs[k := fs ! k AND zero])"
proof -
  assume "fs_fit M fs" "k < length fs"
  then have "take_bit M (fs ! k AND zero) = fs ! k AND zero"
    using bit_ge_M [OF fs_fit_nth] by (intro take_bit_eq_of_bits) (auto simp: bit_and_iff)
  then show ?thesis using \<open>k < length fs\<close> by (simp add: filter_and_def fset_def)
qed

lemma ofold_filter:
  "(\<And>x s. x \<in> set xs \<Longrightarrow> f x s = (if c x then g x s else Some s)) \<Longrightarrow> ofold f xs s = ofold g (filter c xs) s"
  by (induction xs arbitrary: s) (auto split: Option.bind_splits)

lemma ofold_modify:
  assumes "\<And>i fs. i \<in> set is \<Longrightarrow> length fs = len \<Longrightarrow> fs_fit M fs \<Longrightarrow> f i fs = Some (fs[g i := h (fs ! g i)])"
    and "\<And>x. take_bit M x = x \<Longrightarrow> take_bit M (h x) = h x"
    and "\<forall>i \<in> set is. g i < len" "length fs = len" "fs_fit M fs"
  shows "ofold f is fs = Some (modify_at h (map g is) fs)"
  using assms(1,3-5)
proof (induction "is" arbitrary: fs)
  case (Cons i "is")
  have "fs_fit M (fs[g i := h (fs ! g i)])"
    using Cons.prems assms(2) fs_fit_nth by (intro fs_fit_update) auto
  then show ?case using Cons.IH [of "fs[g i := h (fs ! g i)]"] Cons.prems by simp
qed simp

section \<open>What a dimension promises\<close>

fun refilter_pred :: "'v::linorder refilter \<Rightarrow> 'v \<Rightarrow> bool" where
  "refilter_pred Filter_all v = True"
| "refilter_pred (Filter_exact w) v = (v = w)"
| "refilter_pred (Filter_range r) v = (fst r \<le> v \<and> v < snd r)"

fun refilter_ok :: "'v::linorder refilter \<Rightarrow> bool" where
  "refilter_ok (Filter_range r) = (fst r \<le> snd r)"
| "refilter_ok _ = True"

definition rank_free :: "('v \<Rightarrow> nat \<Rightarrow> bool) \<Rightarrow> bool" where
  \<comment> \<open>a filter function that looks at the value only, not at its rank\<close>
  "rank_free f \<longleftrightarrow> (\<forall>v i. f v i = f v 0)"

definition passes :: "('d, 'v::linorder) dimension \<Rightarrow> 'v \<Rightarrow> bool" where
  \<comment> \<open>the filter in force on the dimension\<close>
  "passes D v = (case d_refilterFunction D of Some f \<Rightarrow> f v 0 | None \<Rightarrow> refilter_pred (d_refilter D) v)"

definition filter_ok :: "('d, 'v::linorder) dimension \<Rightarrow> bool" where
  "filter_ok D \<longleftrightarrow> refilter_ok (d_refilter D) \<and>
     (\<forall>f. d_refilterFunction D = Some f \<longrightarrow> rank_free f \<and> d_refilter D = Filter_all)"

definition index_ok :: "'d list \<Rightarrow> ('d, 'v::linorder) dimension \<Rightarrow> bool" where
  \<comment> \<open>the index lists every record once, in the order of the values\<close>
  "index_ok data D \<longleftrightarrow>
     length data \<le> ulength (d_index D) \<and> fits (d_index D) \<and> length data \<le> 2 ^ awidth (d_index D) \<and>
     mset (take (length data) (elems (d_index D))) = mset [0..<length data] \<and>
     d_values D = map (\<lambda>k. d_value D (data ! k)) (take (length data) (elems (d_index D))) \<and>
     sorted (d_values D)"

definition bounds_ok :: "('d, 'v::linorder) dimension \<Rightarrow> bool" where
  "bounds_ok D \<longleftrightarrow> run_refilter (d_refilter D) (d_values D) = Some (d_lo0 D, d_hi0 D)"

definition bits_ok :: "'d list \<Rightarrow> 32 word list \<Rightarrow> ('d, 'v::linorder) dimension \<Rightarrow> bool" where
  \<comment> \<open>a bit is set exactly for the records that the filter in force rejects\<close>
  "bits_ok data fs D \<longleftrightarrow>
     (\<forall>k < length data. fs ! k AND d_one D = 0 \<longleftrightarrow> passes D (d_value D (data ! k)))"

lemma run_refilter_correct:
  fixes vs :: "'v::linorder list"
  assumes "sorted vs" "length vs \<le> 2 ^ 31" "refilter_ok r"
  shows "\<exists>lo hi. run_refilter r vs = Some (lo, hi) \<and> lo \<le> hi \<and> hi \<le> length vs \<and>
    (\<forall>i < length vs. lo \<le> i \<and> i < hi \<longleftrightarrow> refilter_pred r (vs ! i))"
proof (cases r)
  case Filter_all
  then show ?thesis by (simp add: crossfilter_filterAll_def)
next
  case (Filter_exact v)
  then show ?thesis using filterExact_correct [OF assms(1,2), of v] by simp
next
  case (Filter_range p)
  then show ?thesis
    using filterRange_correct [OF assms(1,2), of "fst p" "snd p"] assms(3) by auto
qed

lemma index_okE:
  assumes "index_ok data D"
  obtains "length data \<le> length (elems (d_index D))" "fits (d_index D)"
    "length data \<le> 2 ^ awidth (d_index D)"
    "mset (take (length data) (elems (d_index D))) = mset [0..<length data]"
    "d_values D = map (\<lambda>k. d_value D (data ! k)) (take (length data) (elems (d_index D)))"
    "sorted (d_values D)"
  using assms unfolding index_ok_def ulength_def by blast

lemma index_ok_permutation:
  assumes "mset (take n xs) = mset [0..<n]"
  shows "set (take n xs) = {..<n}" and "distinct (take n xs)"
  using mset_eq_setD [OF assms] mset_eq_imp_distinct_iff [OF assms]
  by (simp_all add: atLeast0LessThan)

lemma index_okD:
  assumes "index_ok data D"
  shows "i < length data \<Longrightarrow> i < ulength (d_index D)"
    and "i < length data \<Longrightarrow> elems (d_index D) ! i < length data"
    and "length (d_values D) = length data"
    and "i < length data \<Longrightarrow> d_values D ! i = d_value D (data ! (elems (d_index D) ! i))"
    and "sorted (d_values D)"
    and "distinct (take (length data) (elems (d_index D)))"
    and "set (take (length data) (elems (d_index D))) = {..<length data}"
proof -
  let ?ix = "take (length data) (elems (d_index D))"
  note E = index_okE [OF assms]
  have len: "length data \<le> length (elems (d_index D))" by (rule E)
  have ms: "mset ?ix = mset [0..<length data]" by (rule E)
  have vs: "d_values D = map (\<lambda>k. d_value D (data ! k)) ?ix" by (rule E)
  show "sorted (d_values D)" by (rule E)
  show set: "set ?ix = {..<length data}" and "distinct ?ix" using index_ok_permutation [OF ms] .
  show "i < length data \<Longrightarrow> i < ulength (d_index D)" using len by (simp add: ulength_def)
  show "elems (d_index D) ! i < length data" if "i < length data"
  proof -
    have "?ix ! i \<in> set ?ix" using that len by (intro nth_mem) simp
    then show ?thesis using set that by simp
  qed
  show "length (d_values D) = length data" using vs len by simp
  show "d_values D ! i = d_value D (data ! (elems (d_index D) ! i))" if "i < length data"
    using vs that len by simp
qed

lemma index_ok_rank:
  assumes "index_ok data D" "k < length data"
  obtains i where "i < length data" "elems (d_index D) ! i = k"
proof -
  have "k \<in> set (take (length data) (elems (d_index D)))" using index_okD(7) [OF assms(1)] assms(2) by auto
  then show thesis using that by (auto simp: in_set_conv_nth)
qed

lemma index_ok_inj:
  assumes "index_ok data D" "i < length data" "j < length data" "elems (d_index D) ! i = elems (d_index D) ! j"
  shows "i = j"
proof -
  let ?ix = "take (length data) (elems (d_index D))"
  have "i < length ?ix" "j < length ?ix" "?ix ! i = ?ix ! j"
    using assms(2-4) index_okD(1) [OF assms(1)] by (simp_all add: ulength_def)
  then show ?thesis using index_okD(6) [OF assms(1)] nth_eq_iff_index_eq by blast
qed

section \<open>Adding records\<close>

definition new_ok :: "('d, 'v::linorder) dimension \<Rightarrow> 'd list \<Rightarrow> 'v list \<Rightarrow> uarray \<Rightarrow> bool" where
  \<comment> \<open>the new records in the order of their values\<close>
  "new_ok D newData newValues newIndex \<longleftrightarrow>
     mset (elems newIndex) = mset [0..<length newData] \<and>
     newValues = map (\<lambda>k. d_value D (newData ! k)) (elems newIndex) \<and> sorted newValues"

lemma new_okD:
  assumes "new_ok D newData newValues newIndex"
  shows "ulength newIndex = length newData" and "length newValues = length newData"
    and "set (elems newIndex) = {..<length newData}" and "distinct (elems newIndex)"
    and "i < length newData \<Longrightarrow> elems newIndex ! i < length newData"
    and "i < length newData \<Longrightarrow> newValues ! i = d_value D (newData ! (elems newIndex ! i))"
    and "sorted newValues"
proof -
  show "sorted newValues" using assms unfolding new_ok_def by blast
  have ms: "mset (elems newIndex) = mset [0..<length newData]"
    and vs: "newValues = map (\<lambda>k. d_value D (newData ! k)) (elems newIndex)"
    using assms unfolding new_ok_def by blast+
  have len: "length (elems newIndex) = length newData" using arg_cong [OF ms, of size] by simp
  then show "ulength newIndex = length newData" "length newValues = length newData"
    using vs by (simp_all add: ulength_def)
  show set: "set (elems newIndex) = {..<length newData}" and "distinct (elems newIndex)"
    using index_ok_permutation [of "length newData" "elems newIndex"] ms len by simp_all
  show "elems newIndex ! i < length newData" if "i < length newData"
    using nth_mem [of i "elems newIndex"] set len that by simp
  show "newValues ! i = d_value D (newData ! (elems newIndex ! i))" if "i < length newData"
    using vs len that by simp
qed

lemma sort_new:
  fixes D :: "('d, 'v::linorder) dimension"
  assumes "length newData \<le> 2 ^ 30"
  shows "\<exists>w ix vs. crossfilter_range (length newData) = Some (UArray w [0..<length newData]) \<and>
    quicksort (\<lambda>i. map (d_value D) newData ! i) [0..<length newData] 0 (length newData) = Some ix \<and>
    permute (map (d_value D) newData) ix = Some vs \<and> new_ok D newData vs (UArray w ix) \<and>
    fits (UArray w ix) \<and> length newData \<le> 2 ^ w"
proof -
  let ?n = "length newData" and ?u = "map (d_value D) newData"
  have "?n \<le> 2 ^ 32" using assms by simp
  then obtain w where w: "crossfilter_range ?n = Some (UArray w [0..<?n])" "fits (UArray w [0..<?n])"
    using crossfilter_range_exact by blast
  obtain ix where ix: "quicksort (\<lambda>i. ?u ! i) [0..<?n] 0 ?n = Some ix"
    "mset ix = mset [0..<?n]" "sorted (map (\<lambda>i. ?u ! i) (Js_Prelude.slice ix 0 ?n))"
    using quicksort_correct [of 0 ?n "[0..<?n]" "\<lambda>i. ?u ! i"] assms
    unfolding sorted_from_def sorted_slice_def rearranged_def by auto
  have len: "length ix = ?n" using arg_cong [OF ix(2), of size] by simp
  then have set: "set ix = {..<?n}" using index_ok_permutation(1) [of ?n ix] ix(2) by simp
  have p: "permute ?u ix = Some (map ((!) ?u) ix)" by (rule permute_Some) (use set in auto)
  have eq: "map ((!) ?u) ix = map (\<lambda>k. d_value D (newData ! k)) ix" using set by simp
  have "Js_Prelude.slice ix 0 ?n = ix" using len slice_whole [of ix] by simp
  then have srt: "sorted (map ((!) ?u) ix)" using ix(3) by (simp only:)
  have "new_ok D newData (map ((!) ?u) ix) (UArray w ix)"
    unfolding new_ok_def uarray.sel using ix(2) eq srt by (intro conjI)
  moreover have "fits (UArray w ix)" using w(2) set by (simp add: fits_def atLeast0LessThan)
  moreover have "?n \<le> 2 ^ w"
    using w(2) by (cases ?n) (auto simp: fits_def Suc_le_eq)
  ultimately show ?thesis using w(1) ix(1) p by blast
qed

lemma mark_new_correct:
  fixes D :: "('d, 'v::linorder) dimension"
  assumes "new_ok D newData vs ix" "filter_ok D" "run_refilter (d_refilter D) vs = Some bounds"
    and "length newData \<le> 2 ^ 31" "n0 + length newData \<le> length fs" "fs_fit M fs" "take_bit M (d_one D) = d_one D"
  shows "\<exists>fs'. mark_new M (d_one D) (d_refilterFunction D) vs ix bounds n0 (length newData) fs = Some fs' \<and>
    length fs' = length fs \<and> fs_fit M fs' \<and>
    (\<forall>k < length fs. fs' ! k =
       (if n0 \<le> k \<and> k < n0 + length newData \<and> \<not> passes D (d_value D (newData ! (k - n0)))
        then fs ! k OR d_one D else fs ! k))"
proof -
  let ?n = "length newData" and ?id = "\<lambda>i. elems ix ! i + n0"
  let ?fail = "\<lambda>i. \<not> passes D (vs ! i)"
  note new = new_okD [OF assms(1)]
  define ks where "ks = (case d_refilterFunction D of
       Some f \<Rightarrow> filter ?fail [0..<?n] | None \<Rightarrow> [0..<fst bounds] @ [snd bounds..<?n])"
  have or_fit: "take_bit M (x OR d_one D) = x OR d_one D" if "take_bit M x = x" for x
    using that assms(7) by simp
  define store where "store i fs = do { k \<leftarrow> uget ix i; filter_or M (d_one D) (k + n0) fs }" for i fs
  have step: "store i gs = Some (gs[?id i := gs ! ?id i OR d_one D])"
    if "i < ?n" "length gs = length fs" "fs_fit M gs" for i gs
    unfolding store_def using that new(1) new(5) [of i] assms(5,7) by (simp add: filter_or_exact)
  have stores: "ofold store is gs = Some (modify_at (\<lambda>x. x OR d_one D) (map ?id is) gs)"
    if "\<forall>i \<in> set is. i < ?n" "length gs = length fs" "fs_fit M gs" for "is" gs
    using that step or_fit new(5) assms(5) by (intro ofold_modify [where M = M and len = "length fs"]) fastforce+
  obtain lo hi where lohi: "bounds = (lo, hi)" "lo \<le> hi" "hi \<le> ?n"
    "\<And>i. i < ?n \<Longrightarrow> (lo \<le> i \<and> i < hi) = refilter_pred (d_refilter D) (vs ! i)"
  proof -
    have "sorted vs" "refilter_ok (d_refilter D)" "length vs \<le> 2 ^ 31"
      using assms(2,4) new(2,7) by (simp_all add: filter_ok_def)
    from run_refilter_correct [OF this(1,3,2)] obtain lo hi where b:
      "run_refilter (d_refilter D) vs = Some (lo, hi)" "lo \<le> hi" "hi \<le> length vs"
      "\<forall>i < length vs. lo \<le> i \<and> i < hi \<longleftrightarrow> refilter_pred (d_refilter D) (vs ! i)"
      by (elim exE conjE)
    have "bounds = (lo, hi)" using b(1) assms(3) by (simp only: option.inject)
    then show thesis using b(2-4) new(2) by (intro that [of lo hi]) simp_all
  qed
  have ks: "set ks = {i. i < ?n \<and> ?fail i}" "distinct ks"
    and run: "mark_new M (d_one D) (d_refilterFunction D) vs ix bounds n0 ?n fs = ofold store ks fs"
  proof -
    show "set ks = {i. i < ?n \<and> ?fail i}"
    proof (cases "d_refilterFunction D")
      case None
      have "passes D (vs ! i) \<longleftrightarrow> lo \<le> i \<and> i < hi" if "i < ?n" for i
        using lohi(4) [OF that] None by (simp only: passes_def option.case)
      then have "i < ?n \<and> ?fail i \<longleftrightarrow> i < lo \<or> hi \<le> i \<and> i < ?n" for i
        using lohi(2,3) by (cases "i < ?n") (simp_all, linarith)
      moreover have "set ks = {i. i < lo \<or> hi \<le> i \<and> i < ?n}" using lohi(1) None by (auto simp: ks_def)
      ultimately show ?thesis by (simp only:)
    qed (auto simp: ks_def)
    show "distinct ks" using lohi(1,2) by (simp add: ks_def split: option.split)
    show "mark_new M (d_one D) (d_refilterFunction D) vs ix bounds n0 ?n fs = ofold store ks fs"
    proof (cases "d_refilterFunction D")
      case None
      then show ?thesis by (simp add: mark_new_def ks_def store_def [abs_def] ofold_append)
    next
      case (Some f)
      have f: "f v i = passes D v" for v i
        using assms(2) Some by (simp add: filter_ok_def rank_free_def passes_def)
      show ?thesis unfolding mark_new_def ks_def Some option.case f
        by (rule ofold_filter) (simp add: store_def new(2))
    qed
  qed
  have run: "mark_new M (d_one D) (d_refilterFunction D) vs ix bounds n0 ?n fs =
      Some (modify_at (\<lambda>x. x OR d_one D) (map ?id ks) fs)"
    unfolding run using ks(1) assms(6) by (intro stores) auto
  have dist: "distinct (map ?id ks)"
    using ks new(1,4) by (auto simp: distinct_map inj_on_def ulength_def nth_eq_iff_index_eq)
  have mem: "k \<in> set (map ?id ks) \<longleftrightarrow>
      n0 \<le> k \<and> k < n0 + ?n \<and> \<not> passes D (d_value D (newData ! (k - n0)))" for k
  proof
    assume "k \<in> set (map ?id ks)"
    then show "n0 \<le> k \<and> k < n0 + ?n \<and> \<not> passes D (d_value D (newData ! (k - n0)))"
      using ks(1) new(5,6) by auto
  next
    assume k: "n0 \<le> k \<and> k < n0 + ?n \<and> \<not> passes D (d_value D (newData ! (k - n0)))"
    then have "k - n0 < ?n" by linarith
    then have "k - n0 \<in> set (elems ix)" by (simp only: new(3) lessThan_iff)
    then obtain i where i: "i < length (elems ix)" "elems ix ! i = k - n0" by (metis in_set_conv_nth)
    then have n: "i < ?n" using new(1) by (simp add: ulength_def)
    then have "i \<in> set ks" using ks(1) new(6) [OF n] i(2) k by simp
    moreover have "k = ?id i" using i(2) k by simp
    ultimately show "k \<in> set (map ?id ks)" by (simp only: set_map image_eqI)
  qed
  have "fs_fit M (modify_at (\<lambda>x. x OR d_one D) (map ?id ks) fs)"
    using assms(5,6) mem or_fit by (intro fs_fit_modify_at) auto
  then show ?thesis using run mem by (simp add: nth_modify_at [OF dist])
qed

end
