(* ===== verification/Cf_Filter.thy ===== *)
theory Cf_Filter
  imports Cf_Index
begin

unbundle bit_operations_syntax

text \<open>
  The filters of a dimension: every kind of filter makes the bits of the records and the bounds agree with the new
  filter, whatever filter was in force before, and the lists \<^verbatim>\<open>added\<close> and \<^verbatim>\<open>removed\<close> are exactly the records
  whose bit changed. Then \<^verbatim>\<open>top\<close> and \<^verbatim>\<open>bottom\<close> return the selected records in order.
\<close>

section \<open>Changes of the filter bits\<close>

definition change_ok :: "nat \<Rightarrow> 32 word \<Rightarrow> 32 word list \<Rightarrow> 32 word list \<Rightarrow> change \<Rightarrow> bool" where
  \<comment> \<open>the bit is cleared for the added and set for the removed records, and nothing else changes\<close>
  "change_ok n one fs fs' c \<longleftrightarrow>
     length fs' = length fs \<and> distinct (fst c @ snd c) \<and> set (fst c @ snd c) \<subseteq> {..<n} \<and>
     (\<forall>k < length fs. fs' ! k = (if k \<in> set (fst c @ snd c) then fs ! k XOR one else fs ! k)) \<and>
     (\<forall>k \<in> set (fst c). fs ! k AND one \<noteq> 0) \<and> (\<forall>k \<in> set (snd c). fs ! k AND one = 0)"

definition dim_ok :: "nat \<Rightarrow> 'd list \<Rightarrow> 32 word list \<Rightarrow> ('d, 'v::linorder) dimension \<Rightarrow> bool" where
  "dim_ok M data fs D \<longleftrightarrow> index_ok data D \<and> filter_ok D \<and> bounds_ok D \<and> bits_ok data fs D \<and>
     (\<exists>b < M. one_bit (d_one D) b) \<and> fs_fit M fs \<and> length data \<le> length fs \<and> length data \<le> 2 ^ 30"

lemma dim_okD:
  assumes "dim_ok M data fs D"
  shows "index_ok data D" "filter_ok D" "bounds_ok D" "bits_ok data fs D" "fs_fit M fs"
    "length data \<le> length fs" "length data \<le> 2 ^ 30" "take_bit M (d_one D) = d_one D"
  using assms one_bit_less_M unfolding dim_ok_def by blast+

lemma xor_one:
  assumes "one_bit one b"
  shows "(x XOR one) AND one = 0 \<longleftrightarrow> x AND one \<noteq> 0"
    and "x AND one \<noteq> 0 \<Longrightarrow> x AND NOT one = x XOR one"
    and "x AND one = 0 \<Longrightarrow> x OR one = x XOR one"
proof -
  note bits = bit_one_bit [OF assms] and zero = one_bit_and [OF assms]
  show "(x XOR one) AND one = 0 \<longleftrightarrow> x AND one \<noteq> 0"
    by (simp add: zero bit_xor_iff bits)
  show "x AND NOT one = x XOR one" if "x AND one \<noteq> 0"
    using that unfolding zero by (intro bit_word_eqI) (auto simp: bit_and_iff bit_xor_iff bit_not_iff bits)
  show "x OR one = x XOR one" if "x AND one = 0"
    using that unfolding zero by (intro bit_word_eqI) (auto simp: bit_or_iff bit_xor_iff bits)
qed

lemma xor_fit: "take_bit M x = x \<Longrightarrow> take_bit M one = one \<Longrightarrow> take_bit M (x XOR one) = x XOR (one :: 32 word)"
  by simp

lemma change_fit:
  assumes "change_ok n one fs fs' c" "fs_fit M fs" "take_bit M one = one"
  shows "fs_fit M fs'"
proof -
  have "take_bit M (fs' ! k) = fs' ! k" if "k < length fs'" for k
    using assms that unfolding change_ok_def by (auto simp: fs_fit_nth)
  then show ?thesis unfolding fs_fit_def by (metis in_set_conv_nth)
qed

section \<open>The incremental update\<close>

definition ranks :: "uarray \<Rightarrow> nat list \<Rightarrow> nat list" where
  \<comment> \<open>the records at some places of the index\<close>
  "ranks ix is = map (\<lambda>i. elems ix ! i) is"

lemma ranks_simps [simp]:
  "ranks ix [] = []" "ranks ix (is @ js) = ranks ix is @ ranks ix js" "ranks ix (i # is) = elems ix ! i # ranks ix is"
  by (simp_all add: ranks_def)

lemma xor_added_exact:
  assumes ix: "\<And>i. i < n \<Longrightarrow> i < ulength ix \<and> elems ix ! i < length fs" and "j \<le> n"
    and "fs_fit M fs" "take_bit M one = one"
  shows "xor_added M one ix i j (fs, ks) =
    Some (modify_at (\<lambda>x. x XOR one) (ranks ix [i..<j]) fs, ks @ ranks ix [i..<j])"
proof -
  let ?step = "\<lambda>i (fs, ks). do { k \<leftarrow> uget ix i; fs \<leftarrow> filter_xor M one k fs; Some (fs, ks @ [k]) }"
  have "ofold ?step is (gs, ks) = Some (modify_at (\<lambda>x. x XOR one) (ranks ix is) gs, ks @ ranks ix is)"
    if "\<forall>i \<in> set is. i < n" "length gs = length fs" "fs_fit M gs" for "is" gs ks
    using that
  proof (induction "is" arbitrary: gs ks)
    case (Cons i "is")
    then have i: "i < ulength ix" "elems ix ! i < length gs" using ix by simp_all
    have "fs_fit M (gs[elems ix ! i := gs ! (elems ix ! i) XOR one])"
      using i Cons.prems(3) assms(4) by (intro fs_fit_update) (simp_all add: fs_fit_nth)
    then show ?case
      using Cons.IH [of "gs[elems ix ! i := gs ! (elems ix ! i) XOR one]"] Cons.prems i assms(4)
      by (simp add: filter_xor_exact)
  qed simp
  then show ?thesis using assms(2,3) unfolding xor_added_def by simp
qed

definition new_in :: "bounds \<Rightarrow> bounds \<Rightarrow> nat list \<Rightarrow> nat list \<Rightarrow> bool" where
  "new_in old new as rs \<longleftrightarrow> distinct (as @ rs) \<and>
     set as = {i. fst new \<le> i \<and> i < snd new \<and> \<not> (fst old \<le> i \<and> i < snd old)} \<and>
     set rs = {i. fst old \<le> i \<and> i < snd old \<and> \<not> (fst new \<le> i \<and> i < snd new)}"

lemma filter_lo_hi:
  assumes ix: "\<And>i. i < n \<Longrightarrow> i < ulength (d_index D) \<and> elems (d_index D) ! i < length fs"
    and le: "d_lo0 D \<le> d_hi0 D" "d_hi0 D \<le> n" "lo1 \<le> hi1" "hi1 \<le> n"
    and fit: "fs_fit M fs" "take_bit M (d_one D) = d_one D"
  obtains "as" rs qs where
    "do { acc \<leftarrow> filter_lo M D (lo1, hi1) fs; filter_hi M D (lo1, hi1) acc } =
       Some (modify_at (\<lambda>x. x XOR d_one D) (ranks (d_index D) qs) fs, ranks (d_index D) as, ranks (d_index D) rs)"
    "mset qs = mset (as @ rs)" "new_in (d_lo0 D, d_hi0 D) (lo1, hi1) as rs"
proof -
  let ?lo0 = "d_lo0 D" and ?hi0 = "d_hi0 D" and ?ix = "d_index D" and ?x = "\<lambda>x. x XOR d_one D"
  define a1 where "a1 = (if lo1 < ?lo0 then [lo1..<min ?lo0 hi1] else [])"
  define r1 where "r1 = (if lo1 > ?lo0 then [?lo0..<min lo1 ?hi0] else [])"
  define a2 where "a2 = (if hi1 > ?hi0 then [max lo1 ?hi0..<hi1] else [])"
  define r2 where "r2 = (if hi1 < ?hi0 then [max ?lo0 hi1..<?hi0] else [])"
  have xor: "xor_added M (d_one D) ?ix i j (gs, ks) = Some (modify_at ?x (ranks ?ix [i..<j]) gs, ks @ ranks ?ix [i..<j])"
    if "j \<le> n" "fs_fit M gs" "length gs = length fs" for i j gs ks
    using xor_added_exact [of n ?ix gs j M "d_one D" i ks] ix fit(2) that by simp
  let ?fs1 = "modify_at ?x (ranks ?ix (a1 @ r1)) fs"
  have lo: "filter_lo M D (lo1, hi1) fs = Some (?fs1, ranks ?ix a1, ranks ?ix r1)"
    using le fit by (simp add: filter_lo_def Let_def xor a1_def r1_def)
  have "\<forall>k \<in> set (ranks ?ix (a1 @ r1)). k < length fs"
    using ix le by (auto simp: a1_def r1_def ranks_def)
  then have fs1: "fs_fit M ?fs1" using fit by (intro fs_fit_modify_at) simp_all
  have hi: "filter_hi M D (lo1, hi1) (?fs1, ranks ?ix a1, ranks ?ix r1) =
      Some (modify_at ?x (ranks ?ix ((a1 @ r1) @ (a2 @ r2))) fs, ranks ?ix (a1 @ a2), ranks ?ix (r1 @ r2))"
    using le fs1 by (simp add: filter_hi_def Let_def xor a2_def r2_def)
  have sets: "set (a1 @ a2) = {i. lo1 \<le> i \<and> i < hi1 \<and> \<not> (?lo0 \<le> i \<and> i < ?hi0)}"
    "set (r1 @ r2) = {i. ?lo0 \<le> i \<and> i < ?hi0 \<and> \<not> (lo1 \<le> i \<and> i < hi1)}"
    using le by (auto simp: a1_def a2_def r1_def r2_def)
  have "distinct (a1 @ a2)" "distinct (r1 @ r2)"
    using le by (auto simp: a1_def a2_def r1_def r2_def)
  moreover have "set (a1 @ a2) \<inter> set (r1 @ r2) = {}" unfolding sets by blast
  ultimately have "distinct ((a1 @ a2) @ (r1 @ r2))" by (simp only: distinct_append)
  then have "new_in (?lo0, ?hi0) (lo1, hi1) (a1 @ a2) (r1 @ r2)"
    unfolding new_in_def fst_conv snd_conv using sets by blast
  then show thesis using lo hi by (intro that [where qs = "(a1 @ r1) @ (a2 @ r2)" and as = "a1 @ a2" and rs = "r1 @ r2"]) simp_all
qed


lemma ranks_distinct:
  assumes "index_ok data D" "distinct is" "\<forall>i \<in> set is. i < length data"
  shows "distinct (ranks (d_index D) is)"
  using assms(2,3) index_ok_inj [OF assms(1)] by (simp add: ranks_def distinct_map inj_on_def)

lemma ranks_set: "set (ranks ix is) = (\<lambda>i. elems ix ! i) ` set is"
  by (simp add: ranks_def)

definition rank_bits :: "'d list \<Rightarrow> 32 word list \<Rightarrow> ('d, 'v) dimension \<Rightarrow> (nat \<Rightarrow> bool) \<Rightarrow> bool" where
  \<comment> \<open>the bit is clear exactly at the given places of the index\<close>
  "rank_bits data fs D P \<longleftrightarrow> (\<forall>i < length data. fs ! (elems (d_index D) ! i) AND d_one D = 0 \<longleftrightarrow> P i)"

lemma change_bits:
  assumes D: "index_ok data D" "one_bit (d_one D) b" "length data \<le> length fs" "rank_bits data fs D P"
    and fs': "length fs' = length fs"
      "\<And>k. k < length fs \<Longrightarrow> fs' ! k = (if k \<in> set (ranks (d_index D) (as @ rs)) then fs ! k XOR d_one D else fs ! k)"
    and as: "distinct (as @ rs)" "set as = {i. i < length data \<and> Q i \<and> \<not> P i}" "set rs = {i. i < length data \<and> P i \<and> \<not> Q i}"
  shows "change_ok (length data) (d_one D) fs fs' (ranks (d_index D) as, ranks (d_index D) rs)"
    and "rank_bits data fs' D Q"
proof -
  let ?id = "\<lambda>i. elems (d_index D) ! i"
  have lt: "\<forall>i \<in> set (as @ rs). i < length data" using as(2,3) by auto
  have id: "?id i < length data" if "i < length data" for i using index_okD(2) [OF D(1) that] .
  have old: "fs ! ?id i AND d_one D = 0 \<longleftrightarrow> P i" if "i < length data" for i
    using D(4) that by (simp add: rank_bits_def)
  show "change_ok (length data) (d_one D) fs fs' (ranks (d_index D) as, ranks (d_index D) rs)"
    unfolding change_ok_def fst_conv snd_conv ranks_simps(2) [symmetric]
  proof (intro conjI ballI allI impI)
    show "length fs' = length fs" by (rule fs'(1))
    show "distinct (ranks (d_index D) (as @ rs))" by (rule ranks_distinct [OF D(1) as(1) lt])
    show "set (ranks (d_index D) (as @ rs)) \<subseteq> {..<length data}" using id lt by (auto simp: ranks_set)
    show "fs' ! k = (if k \<in> set (ranks (d_index D) (as @ rs)) then fs ! k XOR d_one D else fs ! k)"
      if "k < length fs" for k using fs'(2) [OF that] .
    show "fs ! k AND d_one D \<noteq> 0" if k: "k \<in> set (ranks (d_index D) as)" for k
    proof -
      obtain i where "i \<in> set as" "k = ?id i" using k unfolding ranks_set by blast
      then show ?thesis using old [of i] as(2) by blast
    qed
    show "fs ! k AND d_one D = 0" if k: "k \<in> set (ranks (d_index D) rs)" for k
    proof -
      obtain i where "i \<in> set rs" "k = ?id i" using k unfolding ranks_set by blast
      then show ?thesis using old [of i] as(3) by blast
    qed
  qed
  show "rank_bits data fs' D Q"
    unfolding rank_bits_def
  proof (intro allI impI)
    fix i assume i: "i < length data"
    have "?id i \<in> set (ranks (d_index D) (as @ rs)) \<longleftrightarrow> i \<in> set (as @ rs)"
      using index_ok_inj [OF D(1) i] lt by (auto simp: ranks_set)
    moreover have "i \<in> set (as @ rs) \<longleftrightarrow> P i \<noteq> Q i" using i as(2,3) by auto
    ultimately have "fs' ! ?id i = (if P i \<noteq> Q i then fs ! ?id i XOR d_one D else fs ! ?id i)"
      using fs'(2) [of "?id i"] id [OF i] D(3) by simp
    then show "fs' ! ?id i AND d_one D = 0 \<longleftrightarrow> Q i" using xor_one(1) [OF D(2)] old [OF i] by auto
  qed
qed

lemma filter_bounds_correct:
  assumes D: "index_ok data D" "one_bit (d_one D) b" "length data \<le> length fs" "fs_fit M fs"
    "take_bit M (d_one D) = d_one D"
    and bits: "rank_bits data fs D (\<lambda>i. d_lo0 D \<le> i \<and> i < d_hi0 D)"
    and le: "d_lo0 D \<le> d_hi0 D" "d_hi0 D \<le> length data" "lo1 \<le> hi1" "hi1 \<le> length data"
  obtains fs' c where "do { acc \<leftarrow> filter_lo M D (lo1, hi1) fs; filter_hi M D (lo1, hi1) acc } = Some (fs', c)"
    "change_ok (length data) (d_one D) fs fs' c" "rank_bits data fs' D (\<lambda>i. lo1 \<le> i \<and> i < hi1)"
proof -
  have ix: "i < ulength (d_index D) \<and> elems (d_index D) ! i < length fs" if "i < length data" for i
    using index_okD(1,2) [OF D(1) that] D(3) by simp
  obtain as' rs qs where run: "do { acc \<leftarrow> filter_lo M D (lo1, hi1) fs; filter_hi M D (lo1, hi1) acc } =
       Some (modify_at (\<lambda>x. x XOR d_one D) (ranks (d_index D) qs) fs, ranks (d_index D) as', ranks (d_index D) rs)"
    and qs: "mset qs = mset (as' @ rs)" and new: "new_in (d_lo0 D, d_hi0 D) (lo1, hi1) as' rs"
    by (rule filter_lo_hi [of "length data" D fs lo1 hi1 M]) (use ix le D(4,5) in auto)
  have as': "distinct (as' @ rs)"
    "set as' = {i. i < length data \<and> (lo1 \<le> i \<and> i < hi1) \<and> \<not> (d_lo0 D \<le> i \<and> i < d_hi0 D)}"
    "set rs = {i. i < length data \<and> (d_lo0 D \<le> i \<and> i < d_hi0 D) \<and> \<not> (lo1 \<le> i \<and> i < hi1)}"
    using new le unfolding new_in_def fst_conv snd_conv by auto
  let ?fs' = "modify_at (\<lambda>x. x XOR d_one D) (ranks (d_index D) qs) fs"
  have "distinct qs" "set qs = set (as' @ rs)"
    using as'(1) mset_eq_imp_distinct_iff [OF qs] mset_eq_setD [OF qs] by blast+
  moreover from this have "distinct (ranks (d_index D) qs)" using as'(2,3) by (intro ranks_distinct [OF D(1)]) auto
  ultimately have fs': "?fs' ! k = (if k \<in> set (ranks (d_index D) (as' @ rs)) then fs ! k XOR d_one D else fs ! k)"
    if "k < length fs" for k using that by (simp only: nth_modify_at ranks_set)
  show thesis
    by (rule that [OF run change_bits [OF D(1,2,3) bits _ fs' as']]) simp_all
qed


section \<open>The update by a function\<close>

lemma filterIndexFunction_correct:
  assumes D: "index_ok data D" "one_bit (d_one D) b" "length data \<le> length fs" "fs_fit M fs"
    "take_bit M (d_one D) = d_one D" and bits: "rank_bits data fs D P"
  obtains fs' c where "filterIndexFunction M (length data) D f fs = Some (fs', c)"
    "change_ok (length data) (d_one D) fs fs' c" "rank_bits data fs' D (\<lambda>i. f (d_values D ! i) i)"
proof -
  let ?n = "length data" and ?ix = "d_index D"
  let ?Q = "\<lambda>i. f (d_values D ! i) i"
  define as' where "as' m = filter (\<lambda>i. ?Q i \<and> \<not> P i) [0..<m]" for m
  define rs where "rs m = filter (\<lambda>i. P i \<and> \<not> ?Q i) [0..<m]" for m
  define inv where "inv m acc \<longleftrightarrow> (\<exists>fs'. acc = (fs', ranks ?ix (as' m), ranks ?ix (rs m)) \<and> length fs' = length fs \<and>
    fs_fit M fs' \<and> (\<forall>k < length fs. fs' ! k = (if k \<in> set (ranks ?ix (as' m @ rs m)) then fs ! k XOR d_one D else fs ! k)))" for m acc
  define step where "step i acc = (case acc of (fs, added, removed) \<Rightarrow> do {
       k \<leftarrow> uget ?ix i;
       fk \<leftarrow> aget fs k;
       v \<leftarrow> aget (d_values D) i;
       let x = f v i;
       if (fk AND d_one D = 0) \<noteq> x then
         (if x then do { fs \<leftarrow> filter_and M (d_zero D) k fs; Some (fs, added @ [k], removed) }
          else do { fs \<leftarrow> filter_or M (d_one D) k fs; Some (fs, added, removed @ [k]) })
       else Some (fs, added, removed) })" for i acc
  have step: "\<exists>acc'. step m acc = Some acc' \<and> inv (Suc m) acc'" if m: "m < ?n" and acc: "inv m acc" for m acc
  proof -
    let ?k = "elems ?ix ! m"
    from acc obtain gs where acc: "acc = (gs, ranks ?ix (as' m), ranks ?ix (rs m))" "length gs = length fs" "fs_fit M gs"
      and gs: "\<And>k. k < length fs \<Longrightarrow> gs ! k = (if k \<in> set (ranks ?ix (as' m @ rs m)) then fs ! k XOR d_one D else fs ! k)"
      unfolding inv_def by blast
    have k: "?k < length gs" "?k < length fs" "m < ulength ?ix" "m < length (d_values D)"
      using index_okD(1,2,3) [OF D(1)] m D(3) acc(2) by (auto intro: less_le_trans)
    have "i \<noteq> m" if "i \<in> set (as' m @ rs m)" for i using that by (auto simp: as'_def rs_def)
    moreover have "i < ?n" if "i \<in> set (as' m @ rs m)" for i using that m by (auto simp: as'_def rs_def)
    ultimately have "?k \<notin> set (ranks ?ix (as' m @ rs m))" using index_ok_inj [OF D(1) m] unfolding ranks_set by blast
    then have gk: "gs ! ?k = fs ! ?k" using gs [OF k(2)] by simp
    have P: "fs ! ?k AND d_one D = 0 \<longleftrightarrow> P m" using bits m by (simp add: rank_bits_def)
    define gs' where "gs' = (if P m \<noteq> ?Q m then gs[?k := gs ! ?k XOR d_one D] else gs)"
    have upd: "as' (Suc m) = as' m @ (if ?Q m \<and> \<not> P m then [m] else [])"
      "rs (Suc m) = rs m @ (if P m \<and> \<not> ?Q m then [m] else [])"
      by (simp_all add: as'_def rs_def)
    have "step m acc = Some (gs', ranks ?ix (as' (Suc m)), ranks ?ix (rs (Suc m)))"
      using k P xor_one(2,3) [OF D(2), of "fs ! ?k"] acc(3) D(5)
      by (auto simp: step_def acc(1) gk Let_def filter_and_exact filter_or_exact gs'_def upd)
    moreover have "fs_fit M gs'"
      unfolding gs'_def using fs_fit_nth [OF acc(3) k(1)] acc(3) D(5) by (auto intro!: fs_fit_update)
    moreover have "gs' ! k = (if k \<in> set (ranks ?ix (as' (Suc m) @ rs (Suc m))) then fs ! k XOR d_one D else fs ! k)"
      if "k < length fs" for k
      using gs [OF that] k(1) gk that acc(2) by (auto simp: gs'_def upd nth_list_update)
    ultimately show ?thesis unfolding inv_def using acc(2) by (auto simp: gs'_def)
  qed
  have "inv 0 (fs, [], [])" using D(4) by (simp add: inv_def as'_def rs_def)
  then obtain acc where run: "ofold step [0..<?n] (fs, [], []) = Some acc" "inv ?n acc"
    using ofold_upt_inv [of 0 ?n inv "(fs, [], [])" step] step by auto
  then obtain fs' where fs': "acc = (fs', ranks ?ix (as' ?n), ranks ?ix (rs ?n))" "length fs' = length fs"
    "\<And>k. k < length fs \<Longrightarrow> fs' ! k = (if k \<in> set (ranks ?ix (as' ?n @ rs ?n)) then fs ! k XOR d_one D else fs ! k)"
    unfolding inv_def by blast
  have as': "distinct (as' ?n @ rs ?n)" "set (as' ?n) = {i. i < ?n \<and> ?Q i \<and> \<not> P i}" "set (rs ?n) = {i. i < ?n \<and> P i \<and> \<not> ?Q i}"
    by (auto simp: as'_def rs_def)
  have "filterIndexFunction M ?n D f fs = Some acc"
    using run(1) unfolding filterIndexFunction_def step_def [abs_def] by simp
  then show thesis using change_bits [OF D(1,2,3) bits fs'(2,3) as'] fs'(1) by (intro that) simp_all
qed


section \<open>Every kind of filter\<close>

fun arg_pred :: "'v::linorder filter_arg \<Rightarrow> 'v \<Rightarrow> bool" where
  \<comment> \<open>what the argument of \<^verbatim>\<open>filter\<close> selects\<close>
  "arg_pred Arg_null v = True"
| "arg_pred (Arg_array r) v = (fst r \<le> v \<and> v < snd r)"
| "arg_pred (Arg_function f) v = f v 0"
| "arg_pred (Arg_value w) v = (v = w)"

fun arg_ok :: "'v::linorder filter_arg \<Rightarrow> bool" where
  "arg_ok (Arg_array r) = (fst r \<le> snd r)"
| "arg_ok (Arg_function f) = rank_free f"
| "arg_ok _ = True"

definition same_index :: "('d, 'v) dimension \<Rightarrow> ('d, 'v) dimension \<Rightarrow> bool" where
  \<comment> \<open>all but the filter\<close>
  "same_index D D' \<longleftrightarrow> d_one D' = d_one D \<and> d_value D' = d_value D \<and> d_values D' = d_values D \<and>
     d_index D' = d_index D \<and> d_newValues D' = d_newValues D \<and> d_newIndex D' = d_newIndex D \<and>
     d_indexListeners D' = d_indexListeners D \<and> d_dimensionGroups D' = d_dimensionGroups D"

lemma same_index_simps [simp]:
  "same_index D D"
  "same_index D (E\<lparr>d_refilter := r\<rparr>) \<longleftrightarrow> same_index D E"
  "same_index D (E\<lparr>d_refilterFunction := g\<rparr>) \<longleftrightarrow> same_index D E"
  "same_index D (E\<lparr>d_lo0 := lo\<rparr>) \<longleftrightarrow> same_index D E"
  "same_index D (E\<lparr>d_hi0 := hi\<rparr>) \<longleftrightarrow> same_index D E"
  by (simp_all add: same_index_def)

lemma same_index_ok: "same_index D D' \<Longrightarrow> index_ok data D \<Longrightarrow> index_ok data D'"
  unfolding same_index_def index_ok_def by metis

lemma same_rank_bits: "same_index D D' \<Longrightarrow> rank_bits data fs D' P \<longleftrightarrow> rank_bits data fs D P"
  by (simp add: same_index_def rank_bits_def)

lemma bits_ok_ranks:
  assumes "index_ok data D"
  shows "bits_ok data fs D \<longleftrightarrow> rank_bits data fs D (\<lambda>i. passes D (d_values D ! i))"
proof -
  note ix = index_okD [OF assms]
  show ?thesis
    unfolding bits_ok_def rank_bits_def
    using ix(2,4) index_ok_rank [OF assms] by metis
qed

lemma bounds_ranks:
  assumes "index_ok data D" "refilter_ok r" "length data \<le> 2 ^ 30"
  obtains lo hi where "run_refilter r (d_values D) = Some (lo, hi)" "lo \<le> hi" "hi \<le> length data"
    "\<And>i. i < length data \<Longrightarrow> lo \<le> i \<and> i < hi \<longleftrightarrow> refilter_pred r (d_values D ! i)"
proof -
  note ix = index_okD [OF assms(1)]
  have "length (d_values D) \<le> 2 ^ 31" using assms(3) ix(3) by simp
  from run_refilter_correct [OF ix(5) this assms(2)] show thesis using that unfolding ix(3) by blast
qed

lemma rank_bits_cong:
  "(\<And>i. i < length data \<Longrightarrow> P i \<longleftrightarrow> Q i) \<Longrightarrow> rank_bits data fs D P \<longleftrightarrow> rank_bits data fs D Q"
  by (simp add: rank_bits_def)

lemma dim_okI:
  assumes D: "dim_ok M data fs D" and D': "same_index D D'" "filter_ok D'" "bounds_ok D'"
    and fs': "change_ok (length data) (d_one D) fs fs' c" "rank_bits data fs' D (\<lambda>i. passes D' (d_values D ! i))"
  shows "dim_ok M data fs' D'"
proof -
  note d = dim_okD [OF D]
  have ix: "index_ok data D'" using same_index_ok [OF D'(1) d(1)] .
  have "d_values D' = d_values D" "d_one D' = d_one D" using D'(1) by (simp_all add: same_index_def)
  moreover have "rank_bits data fs' D' (\<lambda>i. passes D' (d_values D' ! i))"
    using fs'(2) same_rank_bits [OF D'(1)] \<open>d_values D' = d_values D\<close> by simp
  then have "bits_ok data fs' D'" using bits_ok_ranks [OF ix] by blast
  moreover have "fs_fit M fs'" using change_fit [OF fs'(1) d(5,8)] .
  moreover have "length fs' = length fs" using fs'(1) by (simp add: change_ok_def)
  ultimately show ?thesis using D D'(2,3) ix unfolding dim_ok_def by simp
qed

lemma filter_refilter_correct:
  assumes D: "dim_ok M data fs D" and r: "refilter_ok r"
  obtains fs' c D' where "filter_refilter M (length data) r D fs = Some (fs', c, D')" "dim_ok M data fs' D'"
    "change_ok (length data) (d_one D) fs fs' c" "passes D' = refilter_pred r" "same_index D D'"
proof -
  note d = dim_okD [OF D]
  obtain b where b: "one_bit (d_one D) b" using D unfolding dim_ok_def by blast
  obtain lo hi where new: "run_refilter r (d_values D) = Some (lo, hi)" "lo \<le> hi" "hi \<le> length data"
    "\<And>i. i < length data \<Longrightarrow> lo \<le> i \<and> i < hi \<longleftrightarrow> refilter_pred r (d_values D ! i)"
    using bounds_ranks [OF d(1) r d(7)] by blast
  let ?E = "D\<lparr>d_refilter := r\<rparr>"
  let ?D' = "?E\<lparr>d_refilterFunction := None, d_lo0 := lo, d_hi0 := hi\<rparr>"
  have bits: "rank_bits data fs D (\<lambda>i. passes D (d_values D ! i))" using d(4) bits_ok_ranks [OF d(1)] by blast
  have "\<exists>fs' c. filterIndexBounds M (length data) (lo, hi) ?E fs = Some (fs', c, ?D') \<and>
      change_ok (length data) (d_one D) fs fs' c \<and> rank_bits data fs' D (\<lambda>i. lo \<le> i \<and> i < hi)"
  proof (cases "d_refilterFunction D")
    case (Some f)
    have E: "index_ok data ?E" "one_bit (d_one ?E) b" "take_bit M (d_one ?E) = d_one ?E"
      "rank_bits data fs ?E (\<lambda>i. passes D (d_values D ! i))"
      using d(8) b bits same_rank_bits [of D ?E] same_index_ok [OF _ d(1), of ?E] by simp_all
    obtain fs' c where "filterIndexFunction M (length data) ?E (\<lambda>d i. lo \<le> i \<and> i < hi) fs = Some (fs', c)"
      "change_ok (length data) (d_one ?E) fs fs' c" "rank_bits data fs' ?E (\<lambda>i. lo \<le> i \<and> i < hi)"
      using filterIndexFunction_correct [OF E(1,2) d(6,5) E(3,4), of "\<lambda>d i. lo \<le> i \<and> i < hi"] by blast
    then show ?thesis using Some same_rank_bits [of D ?E] by (auto simp: filterIndexBounds_def)
  next
    case None
    have p: "passes D = refilter_pred (d_refilter D)" using None by (simp add: passes_def fun_eq_iff)
    obtain l h where old: "run_refilter (d_refilter D) (d_values D) = Some (l, h)" "l \<le> h" "h \<le> length data"
      "\<And>i. i < length data \<Longrightarrow> l \<le> i \<and> i < h \<longleftrightarrow> refilter_pred (d_refilter D) (d_values D ! i)"
      using bounds_ranks [OF d(1) _ d(7), of "d_refilter D"] d(2) unfolding filter_ok_def by blast
    have lh: "d_lo0 D = l" "d_hi0 D = h" using d(3) old(1) by (simp_all add: bounds_ok_def)
    have E: "index_ok data ?E" "one_bit (d_one ?E) b" "take_bit M (d_one ?E) = d_one ?E"
      "rank_bits data fs ?E (\<lambda>i. d_lo0 ?E \<le> i \<and> i < d_hi0 ?E)"
      using d(8) b bits same_rank_bits [of D ?E] same_index_ok [OF _ d(1), of ?E] rank_bits_cong [OF old(4), where fs = fs and D = D]
      by (simp_all add: lh p)
    obtain fs' c where "do { acc \<leftarrow> filter_lo M ?E (lo, hi) fs; filter_hi M ?E (lo, hi) acc } = Some (fs', c)"
      "change_ok (length data) (d_one ?E) fs fs' c" "rank_bits data fs' ?E (\<lambda>i. lo \<le> i \<and> i < hi)"
      by (rule filter_bounds_correct [OF E(1,2) d(6,5) E(3,4), of lo hi]) (use old(2,3) new(2,3) lh in auto)
    then show ?thesis using None same_rank_bits [of D ?E] by (auto simp: filterIndexBounds_def)
  qed
  then obtain fs' c where run: "filterIndexBounds M (length data) (lo, hi) ?E fs = Some (fs', c, ?D')"
    and c: "change_ok (length data) (d_one D) fs fs' c" and b': "rank_bits data fs' D (\<lambda>i. lo \<le> i \<and> i < hi)" by blast
  have p': "passes ?D' = refilter_pred r" by (simp add: passes_def fun_eq_iff)
  have "dim_ok M data fs' ?D'"
    using b' rank_bits_cong [OF new(4), where fs = fs' and D = D] r new(1)
    by (intro dim_okI [OF D _ _ _ c]) (simp_all add: filter_ok_def bounds_ok_def p')
  then show thesis using run c p' new(1) by (intro that [of fs' c ?D']) (simp_all add: filter_refilter_def)
qed


lemma filterFunction_correct:
  assumes D: "dim_ok M data fs D" and f: "rank_free f"
  obtains fs' c D' where "filterFunction M (length data) f D fs = Some (fs', c, D')" "dim_ok M data fs' D'"
    "change_ok (length data) (d_one D) fs fs' c" "passes D' = (\<lambda>v. f v 0)" "same_index D D'"
proof -
  note d = dim_okD [OF D]
  obtain b where b: "one_bit (d_one D) b" using D unfolding dim_ok_def by blast
  let ?E = "D\<lparr>d_refilter := Filter_all, d_refilterFunction := Some f\<rparr>"
  let ?D' = "?E\<lparr>d_lo0 := 0, d_hi0 := length data\<rparr>"
  have bits: "rank_bits data fs D (\<lambda>i. passes D (d_values D ! i))" using d(4) bits_ok_ranks [OF d(1)] by blast
  have E: "index_ok data ?E" "one_bit (d_one ?E) b" "take_bit M (d_one ?E) = d_one ?E"
    "rank_bits data fs ?E (\<lambda>i. passes D (d_values D ! i))"
    using d(8) b bits same_rank_bits [of D ?E] same_index_ok [OF _ d(1), of ?E] by simp_all
  obtain fs' c where run: "filterIndexFunction M (length data) ?E f fs = Some (fs', c)"
    and c: "change_ok (length data) (d_one ?E) fs fs' c" and b': "rank_bits data fs' ?E (\<lambda>i. f (d_values ?E ! i) i)"
    using filterIndexFunction_correct [OF E(1,2) d(6,5) E(3,4), of f] by blast
  have p: "passes ?D' = (\<lambda>v. f v 0)" by (simp add: passes_def fun_eq_iff)
  have fv: "f v i = f v 0" for v i using f by (simp add: rank_free_def)
  have "rank_bits data fs' D (\<lambda>i. f (d_values D ! i) i)" using b' same_rank_bits [of D ?E data fs'] by simp
  then have "rank_bits data fs' D (\<lambda>i. f (d_values D ! i) 0)" by (rule rank_bits_cong [OF fv, THEN iffD1])
  moreover have "bounds_ok ?D'" using index_okD(3) [OF d(1)] by (simp add: bounds_ok_def crossfilter_filterAll_def)
  ultimately have "dim_ok M data fs' ?D'"
    using c f by (intro dim_okI [OF D, where c = c]) (simp_all add: filter_ok_def p)
  then show thesis using run c p by (intro that [of fs' c ?D']) (simp_all add: filterFunction_def)
qed

lemma dimension_filter_correct:
  assumes D: "dim_ok M data fs D" and arg: "arg_ok arg"
  obtains fs' c D' where "dimension_filter M (length data) arg D fs = Some (fs', c, D')" "dim_ok M data fs' D'"
    "change_ok (length data) (d_one D) fs fs' c" "passes D' = arg_pred arg" "same_index D D'"
proof (cases arg)
  case Arg_null
  have p: "refilter_pred Filter_all = arg_pred arg" using Arg_null by (simp add: fun_eq_iff)
  show ?thesis by (rule filter_refilter_correct [OF D, of Filter_all]) (use that Arg_null p in auto)
next
  case (Arg_array r)
  have p: "refilter_pred (Filter_range r) = arg_pred (Arg_array r)" by (simp add: fun_eq_iff)
  show ?thesis by (rule filter_refilter_correct [OF D, of "Filter_range r"]) (use that arg Arg_array p in auto)
next
  case (Arg_function f)
  have p: "(\<lambda>v. f v 0) = arg_pred (Arg_function f)" by (simp add: fun_eq_iff)
  show ?thesis by (rule filterFunction_correct [OF D, of f]) (use that arg Arg_function p in auto)
next
  case (Arg_value v)
  have p: "refilter_pred (Filter_exact v) = arg_pred (Arg_value v)" by (simp add: fun_eq_iff)
  show ?thesis by (rule filter_refilter_correct [OF D, of "Filter_exact v"]) (use that Arg_value p in auto)
qed

section \<open>The selected records in order\<close>

abbreviation chosen :: "32 word list \<Rightarrow> uarray \<Rightarrow> nat \<Rightarrow> nat \<Rightarrow> nat list" where
  \<comment> \<open>the selected records at the places from \<open>lo\<close> to \<open>hi\<close>\<close>
  "chosen fs ix lo hi \<equiv> filter (\<lambda>k. fs ! k = 0) (ranks ix [lo..<hi])"

lemma top_loop_correct:
  assumes "\<And>i. i < hi \<Longrightarrow> i < ulength ix \<and> elems ix ! i < length fs \<and> elems ix ! i < length data"
  shows "top_loop ix fs data lo hi k = Some (map ((!) data) (take k (rev (chosen fs ix lo hi))))"
  using assms
proof (induction hi arbitrary: k)
  case (Suc i)
  have i: "i < ulength ix" "elems ix ! i < length fs" "elems ix ! i < length data" using Suc.prems by simp_all
  have IH: "top_loop ix fs data lo i k = Some (map ((!) data) (take k (rev (chosen fs ix lo i))))" for k
    using Suc by simp
  show ?case using i IH by (cases k) auto
qed simp

lemma bottom_loop_correct:
  assumes "\<And>i. i < hi \<Longrightarrow> i < ulength ix \<and> elems ix ! i < length fs \<and> elems ix ! i < length data"
  shows "bottom_loop ix fs data hi i k = Some (map ((!) data) (take k (chosen fs ix i hi)))"
proof (induction "hi - i" arbitrary: i k)
  case 0
  then show ?case by (subst bottom_loop.simps) simp
next
  case (Suc m)
  then have "i < hi" by simp
  then have i: "i < ulength ix" "elems ix ! i < length fs" "elems ix ! i < length data" "[i..<hi] = i # [i + 1..<hi]"
    using assms upt_conv_Cons by simp_all
  have IH: "bottom_loop ix fs data hi (i + 1) k = Some (map ((!) data) (take k (chosen fs ix (i + 1) hi)))" for k
    using Suc by simp
  show ?case using \<open>i < hi\<close> i IH by (subst bottom_loop.simps) (cases k; auto)
qed

lemma chosen_bounds:
  assumes "dim_ok M data fs D"
  shows "chosen fs (d_index D) (d_lo0 D) (d_hi0 D) = chosen fs (d_index D) 0 (length data)"
    and "d_hi0 D \<le> length data"
proof -
  note d = dim_okD [OF assms]
  obtain l h where lh: "run_refilter (d_refilter D) (d_values D) = Some (l, h)" "l \<le> h" "h \<le> length data"
    "\<And>i. i < length data \<Longrightarrow> l \<le> i \<and> i < h \<longleftrightarrow> refilter_pred (d_refilter D) (d_values D ! i)"
    using bounds_ranks [OF d(1) _ d(7), of "d_refilter D"] d(2) unfolding filter_ok_def by blast
  have eq: "d_lo0 D = l" "d_hi0 D = h" using d(3) lh(1) by (simp_all add: bounds_ok_def)
  have bits: "rank_bits data fs D (\<lambda>i. passes D (d_values D ! i))" using d(4) bits_ok_ranks [OF d(1)] by blast
  have "passes D v \<Longrightarrow> refilter_pred (d_refilter D) v" for v
    using d(2) by (auto simp: passes_def filter_ok_def split: option.splits)
  then have out: "fs ! (elems (d_index D) ! i) \<noteq> 0" if "i < length data" "\<not> (l \<le> i \<and> i < h)" for i
    using bits lh(4) [OF that(1)] that unfolding rank_bits_def by (metis and_zero_eq and.commute)
  have "[0..<length data] = [0..<l] @ [l..<h] @ [h..<length data]"
    using lh(2,3) upt_add_eq_append [of 0 l "h - l"] upt_add_eq_append [of 0 h "length data - h"] by simp
  moreover have "filter (\<lambda>k. fs ! k = 0) (ranks (d_index D) [0..<l]) = []"
    "filter (\<lambda>k. fs ! k = 0) (ranks (d_index D) [h..<length data]) = []"
    using out lh(2,3) by (auto simp: filter_empty_conv ranks_def)
  ultimately show "chosen fs (d_index D) (d_lo0 D) (d_hi0 D) = chosen fs (d_index D) 0 (length data)"
    by (simp add: eq)
  show "d_hi0 D \<le> length data" using eq lh(3) by simp
qed

lemma ranks_all: "length data \<le> ulength ix \<Longrightarrow> ranks ix [0..<length data] = take (length data) (elems ix)"
  by (rule nth_equalityI) (simp_all add: ranks_def ulength_def)


section \<open>Properties\<close>

definition sample_dimension :: "(nat, nat) dimension" where
  "sample_dimension = (new_dimension 1 (\<lambda>d. d))\<lparr>d_values := [1, 2, 3], d_index := UArray 8 [1, 2, 0], d_hi0 := 3\<rparr>"

lemma sample_length: "length [3, 1, 2 :: nat] = 3"
  by simp

lemma sample_dimension_ok: "dim_ok 8 [3, 1, 2] [0, 0, 0] sample_dimension"
proof -
  have "index_ok [3, 1, 2] sample_dimension"
    by (simp add: index_ok_def sample_dimension_def new_dimension_def fits_def upt_rec del: mset_upt)
  moreover have "\<exists>b < 8. one_bit 1 b" by (intro exI [of _ 0]) (simp add: one_bit_def)
  moreover have "[0, 0, 0 :: 32 word] ! k = 0" if "k < 3" for k using that by (auto simp: less_Suc_eq numeral_3_eq_3)
  ultimately show ?thesis
    by (auto simp: dim_ok_def filter_ok_def bounds_ok_def bits_ok_def passes_def fs_fit_def sample_dimension_def
        new_dimension_def crossfilter_filterAll_def)
qed

text \<open>
  C1: \<^verbatim>\<open>filter\<close> with \<^verbatim>\<open>null\<close>, a value, a range whose bounds are in order, or a function that reads only the value and not
  its rank, returns, on a dimension whose filter so far is of this kind too; the bit of the dimension is then set exactly for
  the records that the new filter rejects, no other bit changes, and \<^verbatim>\<open>added\<close> and \<^verbatim>\<open>removed\<close>, which the listeners get, are
  without repetition the records whose bit was cleared and set.
\<close>

theorem filter_changes:
  assumes "dim_ok M data fs D" "arg_ok arg"
  shows "\<exists>fs' c D'. dimension_filter M (length data) arg D fs = Some (fs', c, D') \<and> dim_ok M data fs' D' \<and>
    same_index D D' \<and> change_ok (length data) (d_one D) fs fs' c \<and>
    (\<forall>k < length data. fs' ! k AND d_one D = 0 \<longleftrightarrow> arg_pred arg (d_value D (data ! k)))"
proof -
  obtain fs' c D' where run: "dimension_filter M (length data) arg D fs = Some (fs', c, D')" and D': "dim_ok M data fs' D'"
    and c: "change_ok (length data) (d_one D) fs fs' c" and p: "passes D' = arg_pred arg" and same: "same_index D D'"
    by (rule dimension_filter_correct [OF assms])
  have "\<forall>k < length data. fs' ! k AND d_one D = 0 \<longleftrightarrow> arg_pred arg (d_value D (data ! k))"
    using dim_okD(4) [OF D'] p same by (simp add: bits_ok_def same_index_def)
  then show ?thesis using run D' c same by blast
qed

theorem filter_changes_witness:
  "\<exists>fs' c D'. dimension_filter 8 3 (Arg_array (2, 3)) sample_dimension [0, 0, 0] = Some (fs', c, D') \<and>
     change_ok 3 1 [0, 0, 0] fs' c \<and> (fs' ! 0 AND 1 \<noteq> 0) \<and> (fs' ! 1 AND 1 \<noteq> 0) \<and> (fs' ! 2 AND 1 = 0)"
proof -
  obtain fs' c D' where "dimension_filter 8 3 (Arg_array (2, 3)) sample_dimension [0, 0, 0] = Some (fs', c, D')"
    "change_ok 3 (d_one sample_dimension) [0, 0, 0] fs' c"
    "\<forall>k < 3. fs' ! k AND d_one sample_dimension = 0 \<longleftrightarrow> arg_pred (Arg_array (2, 3)) (d_value sample_dimension ([3, 1, 2] ! k))"
    using filter_changes [OF sample_dimension_ok, of "Arg_array (2, 3)"] unfolding sample_length by auto
  moreover have "d_one sample_dimension = 1" "d_value sample_dimension = (\<lambda>d. d)"
    by (simp_all add: sample_dimension_def new_dimension_def)
  ultimately show ?thesis by (auto simp: numeral_3_eq_3 numeral_2_eq_2 All_less_Suc)
qed

lemma top_bottom_correct:
  assumes "dim_ok M data fs D"
  shows "\<exists>ks. mset ks = mset (filter (\<lambda>k. fs ! k = 0) [0..<length data]) \<and>
    sorted (map (\<lambda>k. d_value D (data ! k)) ks) \<and>
    (\<forall>k. dimension_bottom fs data k D = Some (map ((!) data) (take k ks)) \<and>
      dimension_top fs data k D = Some (map ((!) data) (take k (rev ks))))"
proof -
  note d = dim_okD [OF assms]
  let ?n = "length data" and ?ix = "d_index D"
  let ?ks = "chosen fs ?ix 0 ?n"
  have all: "ranks ?ix [0..<?n] = take ?n (elems ?ix)"
    using d(1) by (intro ranks_all) (simp add: index_ok_def)
  have ix: "i < ulength ?ix \<and> elems ?ix ! i < length fs \<and> elems ?ix ! i < ?n" if "i < d_hi0 D" for i
    using index_okD(1,2) [OF d(1), of i] that chosen_bounds(2) [OF assms] d(6) by simp
  have "mset ?ks = filter_mset (\<lambda>k. fs ! k = 0) (mset [0..<?n])"
    unfolding all using d(1) by (simp only: index_ok_def mset_filter)
  moreover have "sorted (map (\<lambda>k. d_value D (data ! k)) (ranks ?ix [0..<?n]))"
    unfolding all using d(1) by (metis index_ok_def)
  then have "sorted (map (\<lambda>k. d_value D (data ! k)) ?ks)" by (rule sorted_filter)
  moreover have "dimension_bottom fs data k D = Some (map ((!) data) (take k ?ks))"
    "dimension_top fs data k D = Some (map ((!) data) (take k (rev ?ks)))" for k
    unfolding dimension_bottom_def dimension_top_def
    using bottom_loop_correct [OF ix] top_loop_correct [OF ix] chosen_bounds(1) [OF assms] by simp_all
  ultimately show ?thesis by (intro exI [of _ ?ks]) (simp only: mset_filter, blast)
qed

text \<open>
  C2: \<^verbatim>\<open>bottom(k)\<close> and \<^verbatim>\<open>top(k)\<close> return the first and the last \<open>k\<close> of the records that pass the filters of all
  dimensions, each record once, in ascending and in descending order of the dimension.
\<close>

theorem top_bottom_order:
  assumes "dim_ok M data fs D"
  shows "\<exists>ks. mset ks = mset (filter (\<lambda>k. fs ! k = 0) [0..<length data]) \<and>
    sorted (map (\<lambda>k. d_value D (data ! k)) ks) \<and>
    (\<forall>k. dimension_bottom fs data k D = Some (map ((!) data) (take k ks)) \<and>
      dimension_top fs data k D = Some (map ((!) data) (take k (rev ks))))"
  by (rule top_bottom_correct [OF assms])

theorem top_bottom_order_witness:
  "\<exists>ks. set ks = {0, 1, 2} \<and> sorted (map (\<lambda>k. [3, 1, 2 :: nat] ! k) ks) \<and>
     dimension_bottom [0, 0, 0] [3, 1, 2] 2 sample_dimension = Some (map ((!) [3, 1, 2]) (take 2 ks)) \<and>
     dimension_top [0, 0, 0] [3, 1, 2] 2 sample_dimension = Some (map ((!) [3, 1, 2]) (take 2 (rev ks)))"
proof -
  obtain ks where ks: "mset ks = mset (filter (\<lambda>k. [0, 0, 0 :: 32 word] ! k = 0) [0..<3])"
    "sorted (map (\<lambda>k. d_value sample_dimension ([3, 1, 2] ! k)) ks)"
    "dimension_bottom [0, 0, 0] [3, 1, 2] 2 sample_dimension = Some (map ((!) [3, 1, 2]) (take 2 ks))"
    "dimension_top [0, 0, 0] [3, 1, 2] 2 sample_dimension = Some (map ((!) [3, 1, 2]) (take 2 (rev ks)))"
    using top_bottom_order [OF sample_dimension_ok] unfolding sample_length by blast
  have "set ks = {0, 1, 2}" using mset_eq_setD [OF ks(1)] by (simp add: upt_rec numeral_2_eq_2)
  then show ?thesis using ks(2-4) by (intro exI [of _ ks]) (simp add: sample_dimension_def new_dimension_def)
qed

end
