(* ===== verification/Cf_Records.thy ===== *)
theory Cf_Records
  imports Cf_Filter
begin

unbundle bit_operations_syntax

text \<open>
  Adding records to a dimension and removing them: the merge of the sorted new values into the old ones, and the
  compaction of the index, keep the index sorted and complete and the bits of the filter right.
\<close>

section \<open>The merge\<close>

definition merge_input ::
  "(nat \<Rightarrow> 'v::linorder) \<Rightarrow> nat \<Rightarrow> 'v list \<Rightarrow> uarray \<Rightarrow> 'v list \<Rightarrow> uarray \<Rightarrow> nat \<Rightarrow> nat \<Rightarrow> bool" where
  \<comment> \<open>two sorted runs: \<open>val\<close> is the value of a record, \<open>w\<close> the width of the new index\<close>
  "merge_input val w ov oi nv ni n0 n1 \<longleftrightarrow>
     n0 \<le> ulength oi \<and> ov = map val (take n0 (elems oi)) \<and> sorted ov \<and> (\<forall>k \<in> set (take n0 (elems oi)). k < n0 + n1) \<and>
     n1 = ulength ni \<and> nv = map (\<lambda>k. val (k + n0)) (elems ni) \<and> sorted nv \<and> (\<forall>k \<in> set (elems ni). k < n1) \<and>
     n0 + n1 \<le> 2 ^ w"

definition merge_ok ::
  "(nat \<Rightarrow> 'v::linorder) \<Rightarrow> nat \<Rightarrow> 'v list \<Rightarrow> uarray \<Rightarrow> 'v list \<Rightarrow> uarray \<Rightarrow> nat \<Rightarrow> nat \<Rightarrow> nat \<Rightarrow> nat \<Rightarrow>
     'v list \<Rightarrow> uarray \<Rightarrow> bool" where
  \<comment> \<open>the state of the merge after \<open>i0\<close> old and \<open>i1\<close> new entries\<close>
  "merge_ok val w ov oi nv ni n0 n1 i0 i1 vs ix \<longleftrightarrow>
     i0 \<le> n0 \<and> i1 \<le> n1 \<and> ulength ix = n0 + n1 \<and> awidth ix = w \<and> fits ix \<and> length vs = i0 + i1 \<and>
     mset (take (i0 + i1) (elems ix)) = mset (take i0 (elems oi)) + mset (map (\<lambda>k. k + n0) (take i1 (elems ni))) \<and>
     vs = map val (take (i0 + i1) (elems ix)) \<and> sorted vs \<and>
     (\<forall>x \<in> set vs. (i0 < n0 \<longrightarrow> x \<le> ov ! i0) \<and> (i1 < n1 \<longrightarrow> x \<le> nv ! i1))"

lemma merge_inputD:
  assumes "merge_input val w ov oi nv ni n0 n1"
  shows "n0 \<le> ulength oi" "ov = map val (take n0 (elems oi))" "sorted ov" "\<forall>k \<in> set (take n0 (elems oi)). k < n0 + n1"
    "n1 = ulength ni" "nv = map (\<lambda>k. val (k + n0)) (elems ni)" "sorted nv" "\<forall>k \<in> set (elems ni). k < n1" "n0 + n1 \<le> 2 ^ w"
    "length ov = n0" "length nv = n1"
proof -
  note I = assms [unfolded merge_input_def]
  show "n0 \<le> ulength oi" and ov: "ov = map val (take n0 (elems oi))" and "sorted ov" "\<forall>k \<in> set (take n0 (elems oi)). k < n0 + n1"
    "n1 = ulength ni" and nv: "nv = map (\<lambda>k. val (k + n0)) (elems ni)" and "sorted nv" "\<forall>k \<in> set (elems ni). k < n1" "n0 + n1 \<le> 2 ^ w"
    using I by blast+
  then show "length ov = n0" "length nv = n1" unfolding ov nv by (simp_all add: ulength_def)
qed

lemma merge_okD:
  assumes "merge_ok val w ov oi nv ni n0 n1 i0 i1 vs ix"
  shows "i0 \<le> n0" "i1 \<le> n1" "ulength ix = n0 + n1" "awidth ix = w" "fits ix" "length vs = i0 + i1"
    "mset (take (i0 + i1) (elems ix)) = mset (take i0 (elems oi)) + mset (map (\<lambda>k. k + n0) (take i1 (elems ni)))"
    "vs = map val (take (length vs) (elems ix))" "sorted vs"
    "\<And>x. x \<in> set vs \<Longrightarrow> i0 < n0 \<Longrightarrow> x \<le> ov ! i0" "\<And>x. x \<in> set vs \<Longrightarrow> i1 < n1 \<Longrightarrow> x \<le> nv ! i1"
proof -
  note S = assms [unfolded merge_ok_def]
  show "i0 \<le> n0" "i1 \<le> n1" "ulength ix = n0 + n1" "awidth ix = w" "fits ix" and l: "length vs = i0 + i1" and
    "mset (take (i0 + i1) (elems ix)) = mset (take i0 (elems oi)) + mset (map (\<lambda>k. k + n0) (take i1 (elems ni)))"
    and "sorted vs"
    "\<And>x. x \<in> set vs \<Longrightarrow> i0 < n0 \<Longrightarrow> x \<le> ov ! i0" "\<And>x. x \<in> set vs \<Longrightarrow> i1 < n1 \<Longrightarrow> x \<le> nv ! i1"
    using S by blast+
  show "vs = map val (take (length vs) (elems ix))" using S unfolding l by blast
qed

lemma merge_okI:
  assumes "i0 \<le> n0" "i1 \<le> n1" "ulength ix = n0 + n1" "awidth ix = w" "fits ix" "length vs = i0 + i1"
    "mset (take (i0 + i1) (elems ix)) = mset (take i0 (elems oi)) + mset (map (\<lambda>k. k + n0) (take i1 (elems ni)))"
    "vs = map val (take (length vs) (elems ix))" "sorted vs"
    "\<And>x. x \<in> set vs \<Longrightarrow> i0 < n0 \<Longrightarrow> x \<le> ov ! i0" "\<And>x. x \<in> set vs \<Longrightarrow> i1 < n1 \<Longrightarrow> x \<le> nv ! i1"
  shows "merge_ok val w ov oi nv ni n0 n1 i0 i1 vs ix"
  unfolding merge_ok_def using assms by (metis (no_types))

lemma merge_append:
  assumes "ulength ix = n" "awidth ix = w" "fits ix" "n \<le> 2 ^ w" "length vs < n" "k < n" "vs = map val (take (length vs) (elems ix))"
  obtains ix' where "uset ix (length vs) k = Some ix'" "ulength ix' = n" "awidth ix' = w" "fits ix'"
    "take (length vs + 1) (elems ix') = take (length vs) (elems ix) @ [k]"
    "vs @ [val k] = map val (take (length vs + 1) (elems ix'))"
proof -
  let ?l = "length vs"
  let ?ix' = "UArray w ((elems ix)[?l := k])"
  have k: "k < 2 ^ w" "?l < length (elems ix)" using assms by (simp_all add: ulength_def)
  then have run: "uset ix ?l k = Some ?ix'" using assms(2) by (simp add: uset_exact ulength_def)
  then have "fits ?ix' \<and> awidth ?ix' = awidth ix \<and> ulength ?ix' = ulength ix" by (rule uset_fits [OF assms(3)])
  moreover have t: "take (?l + 1) (elems ?ix') = take ?l (elems ix) @ [k]"
    using k(2) by (simp add: take_Suc_conv_app_nth)
  moreover have "vs @ [val k] = map val (take (?l + 1) (elems ?ix'))" unfolding t using assms(7) by simp
  ultimately show thesis using that run assms(1,2) by simp
qed

lemma sorted_snoc: "sorted vs \<Longrightarrow> \<forall>x \<in> set vs. x \<le> v \<Longrightarrow> sorted (vs @ [v])"
  by (simp add: sorted_append)

lemma merge_old:
  assumes I: "merge_input val w ov oi nv ni n0 n1" and S: "merge_ok val w ov oi nv ni n0 n1 i0 i1 vs ix"
    and i0: "i0 < n0" and le: "i1 < n1 \<Longrightarrow> ov ! i0 \<le> nv ! i1"
  obtains ix' where "aget ov i0 = Some (ov ! i0)" "uget oi i0 = Some (elems oi ! i0)"
    "uset ix (length vs) (elems oi ! i0) = Some ix'" "merge_ok val w ov oi nv ni n0 n1 (i0 + 1) i1 (vs @ [ov ! i0]) ix'"
proof -
  let ?k = "elems oi ! i0"
  note I = merge_inputD [OF I] and S = merge_okD [OF S]
  have oi: "i0 < ulength oi" "ov ! i0 = val ?k" using I(1,2) i0 by (simp_all add: ulength_def)
  have "?k \<in> set (take n0 (elems oi))" using i0 oi(1) by (metis in_set_conv_nth length_take min_less_iff_conj nth_take ulength_def)
  then have k: "?k < n0 + n1" using I(4) by blast
  have l: "length vs < n0 + n1" using S(2,6) i0 by simp
  obtain ix' where ix': "uset ix (length vs) ?k = Some ix'" "ulength ix' = n0 + n1" "awidth ix' = w" "fits ix'"
    "take (length vs + 1) (elems ix') = take (length vs) (elems ix) @ [?k]"
    "vs @ [val ?k] = map val (take (length vs + 1) (elems ix'))"
    by (rule merge_append [OF S(3,4,5) I(9) l k S(8)])
  have "merge_ok val w ov oi nv ni n0 n1 (i0 + 1) i1 (vs @ [ov ! i0]) ix'"
  proof (rule merge_okI)
    show "mset (take (i0 + 1 + i1) (elems ix')) = mset (take (i0 + 1) (elems oi)) + mset (map (\<lambda>k. k + n0) (take i1 (elems ni)))"
      using S(7) ix'(5) S(6) oi(1) by (simp add: take_Suc_conv_app_nth ulength_def add.commute)
    show "sorted (vs @ [ov ! i0])" using S(9,10) i0 by (intro sorted_snoc) auto
    show "x \<le> ov ! (i0 + 1)" if x: "x \<in> set (vs @ [ov ! i0])" "i0 + 1 < n0" for x
    proof -
      have "ov ! i0 \<le> ov ! (i0 + 1)" using I(3,10) x(2) by (intro sorted_nth_mono) simp_all
      then show ?thesis using x(1) S(10) i0 by fastforce
    qed
    show "x \<le> nv ! i1" if "x \<in> set (vs @ [ov ! i0])" "i1 < n1" for x using that S(11) le by auto
  qed (use ix' i0 S(2,6) oi(2) in simp_all)
  then show thesis using that ix'(1) oi(1) i0 I(10) by simp
qed

lemma merge_new:
  assumes I: "merge_input val w ov oi nv ni n0 n1" and S: "merge_ok val w ov oi nv ni n0 n1 i0 i1 vs ix"
    and i1: "i1 < n1" and le: "i0 < n0 \<Longrightarrow> nv ! i1 \<le> ov ! i0"
  obtains ix' where "aget nv i1 = Some (nv ! i1)" "uget ni i1 = Some (elems ni ! i1)"
    "uset ix (length vs) (elems ni ! i1 + n0) = Some ix'"
    "merge_ok val w ov oi nv ni n0 n1 i0 (i1 + 1) (vs @ [nv ! i1]) ix'"
proof -
  let ?k = "elems ni ! i1 + n0"
  note I = merge_inputD [OF I] and S = merge_okD [OF S]
  have ni: "i1 < ulength ni" "nv ! i1 = val ?k" using I(5,6) i1 by (simp_all add: ulength_def)
  have "elems ni ! i1 \<in> set (elems ni)" using ni(1) by (simp add: ulength_def)
  then have k: "?k < n0 + n1" using I(8) by (simp add: add.commute)
  have l: "length vs < n0 + n1" using S(1,6) i1 by simp
  obtain ix' where ix': "uset ix (length vs) ?k = Some ix'" "ulength ix' = n0 + n1" "awidth ix' = w" "fits ix'"
    "take (length vs + 1) (elems ix') = take (length vs) (elems ix) @ [?k]"
    "vs @ [val ?k] = map val (take (length vs + 1) (elems ix'))"
    by (rule merge_append [OF S(3,4,5) I(9) l k S(8)])
  have "merge_ok val w ov oi nv ni n0 n1 i0 (i1 + 1) (vs @ [nv ! i1]) ix'"
  proof (rule merge_okI)
    show "mset (take (i0 + (i1 + 1)) (elems ix')) = mset (take i0 (elems oi)) + mset (map (\<lambda>k. k + n0) (take (i1 + 1) (elems ni)))"
      using S(7) ix'(5) S(6) ni(1) by (simp add: take_Suc_conv_app_nth ulength_def add.commute)
    show "sorted (vs @ [nv ! i1])" using S(9,11) i1 by (intro sorted_snoc) auto
    show "x \<le> nv ! (i1 + 1)" if x: "x \<in> set (vs @ [nv ! i1])" "i1 + 1 < n1" for x
    proof -
      have "nv ! i1 \<le> nv ! (i1 + 1)" using I(7,11) x(2) by (intro sorted_nth_mono) simp_all
      then show ?thesis using x(1) S(11) i1 by fastforce
    qed
    show "x \<le> ov ! i0" if "x \<in> set (vs @ [nv ! i1])" "i0 < n0" for x using that S(10) le by auto
  qed (use ix' i1 S(1,6) ni(2) in simp_all)
  then show thesis using that ix'(1) ni(1) i1 I(11) by simp
qed

lemma merge_both_correct:
  assumes "merge_input val w ov oi nv ni n0 n1" "merge_ok val w ov oi nv ni n0 n1 i0 i1 vs ix"
  shows "\<exists>i0' i1' vs' ix'. merge_both ov oi nv ni n0 n1 i0 i1 vs ix = Some (i0', i1', vs', ix') \<and>
    merge_ok val w ov oi nv ni n0 n1 i0' i1' vs' ix' \<and> (i0' = n0 \<or> i1' = n1)"
  using assms(2)
proof (induction "(n0 - i0) + (n1 - i1)" arbitrary: i0 i1 vs ix rule: less_induct)
  case less
  show ?case
  proof (cases "i0 < n0 \<and> i1 < n1")
    case False
    moreover have "i0 \<le> n0" "i1 \<le> n1" using less.prems by (simp_all add: merge_ok_def)
    ultimately show ?thesis using less.prems by (subst merge_both.simps) auto
  next
    case True
    then have lt: "i0 < n0" "i1 < n1" by simp_all
    show ?thesis
    proof (cases "ov ! i0 < nv ! i1")
      case less': True
      obtain ix' where s: "aget ov i0 = Some (ov ! i0)" "uget oi i0 = Some (elems oi ! i0)"
          "uset ix (length vs) (elems oi ! i0) = Some ix'" "merge_ok val w ov oi nv ni n0 n1 (i0 + 1) i1 (vs @ [ov ! i0]) ix'"
        by (rule merge_old [OF assms(1) less.prems lt(1)]) (use less' in auto)
      have "aget nv i1 = Some (nv ! i1)" using merge_inputD(11) [OF assms(1)] lt(2) by simp
      then show ?thesis using less.hyps [OF _ s(4)] lt s(1-3) less' by (subst merge_both.simps) simp
    next
      case False
      obtain ix' where s: "aget nv i1 = Some (nv ! i1)" "uget ni i1 = Some (elems ni ! i1)"
          "uset ix (length vs) (elems ni ! i1 + n0) = Some ix'" "merge_ok val w ov oi nv ni n0 n1 i0 (i1 + 1) (vs @ [nv ! i1]) ix'"
        by (rule merge_new [OF assms(1) less.prems lt(2)]) (use False in auto)
      have "aget ov i0 = Some (ov ! i0)" using merge_inputD(10) [OF assms(1)] lt(1) by simp
      then show ?thesis using less.hyps [OF _ s(4)] lt s(1-3) False by (subst merge_both.simps) simp
    qed
  qed
qed


lemma merge_rest_old:
  assumes "merge_input val w ov oi nv ni n0 n1" "merge_ok val w ov oi nv ni n0 n1 i0 i1 vs ix" "i0 = n0 \<or> i1 = n1"
  obtains vs' ix' where "merge_rest ov oi 0 i0 n0 (vs, ix) = Some (vs', ix')" "merge_ok val w ov oi nv ni n0 n1 n0 i1 vs' ix'"
proof -
  let ?P = "\<lambda>i (vs, ix). merge_ok val w ov oi nv ni n0 n1 i i1 vs ix"
  have "\<exists>acc. merge_rest ov oi 0 i0 n0 (vs, ix) = Some acc \<and> ?P n0 acc"
    unfolding merge_rest_def
  proof (rule ofold_upt_inv [where P = ?P])
    fix i acc assume i: "i0 \<le> i" "i < n0" and acc: "?P i acc"
    obtain us jx where u: "acc = (us, jx)" by force
    have "i1 = n1" using assms(3) i by auto
    then obtain ix' where "aget ov i = Some (ov ! i)" "uget oi i = Some (elems oi ! i)"
      "uset jx (length us) (elems oi ! i) = Some ix'" "merge_ok val w ov oi nv ni n0 n1 (i + 1) i1 (us @ [ov ! i]) ix'"
      using merge_old [OF assms(1) _ i(2), of i1 us jx] acc unfolding u by auto
    then show "\<exists>s'. (case acc of (values, index) \<Rightarrow> do {
        v \<leftarrow> aget ov i; k \<leftarrow> uget oi i; index' \<leftarrow> uset index (length values) (k + 0); Some (values @ [v], index') }) = Some s' \<and> ?P (Suc i) s'"
      unfolding u by simp
  qed (use assms(2) merge_okD(1) in auto)
  then show thesis using that by auto
qed

lemma merge_rest_new:
  assumes "merge_input val w ov oi nv ni n0 n1" "merge_ok val w ov oi nv ni n0 n1 n0 i1 vs ix"
  obtains vs' ix' where "merge_rest nv ni n0 i1 n1 (vs, ix) = Some (vs', ix')" "merge_ok val w ov oi nv ni n0 n1 n0 n1 vs' ix'"
proof -
  let ?P = "\<lambda>i (vs, ix). merge_ok val w ov oi nv ni n0 n1 n0 i vs ix"
  have "\<exists>acc. merge_rest nv ni n0 i1 n1 (vs, ix) = Some acc \<and> ?P n1 acc"
    unfolding merge_rest_def
  proof (rule ofold_upt_inv [where P = ?P])
    fix i acc assume i: "i1 \<le> i" "i < n1" and acc: "?P i acc"
    obtain us jx where u: "acc = (us, jx)" by force
    obtain ix' where "aget nv i = Some (nv ! i)" "uget ni i = Some (elems ni ! i)"
      "uset jx (length us) (elems ni ! i + n0) = Some ix'" "merge_ok val w ov oi nv ni n0 n1 n0 (i + 1) (us @ [nv ! i]) ix'"
      using merge_new [OF assms(1) _ i(2), of n0 us jx] acc unfolding u by auto
    then show "\<exists>s'. (case acc of (values, index) \<Rightarrow> do {
        v \<leftarrow> aget nv i; k \<leftarrow> uget ni i; index' \<leftarrow> uset index (length values) (k + n0); Some (values @ [v], index') }) = Some s' \<and> ?P (Suc i) s'"
      unfolding u by simp
  qed (use assms(2) merge_okD(2) in auto)
  then show thesis using that by auto
qed

section \<open>Adding records\<close>

lemma merge_start:
  assumes "merge_input val (awidth (crossfilter_index (n0 + n1) (n0 + n1))) ov oi nv ni n0 n1"
  shows "merge_ok val (awidth (crossfilter_index (n0 + n1) (n0 + n1))) ov oi nv ni n0 n1 0 0 [] (crossfilter_index (n0 + n1) (n0 + n1))"
  by (rule merge_okI) simp_all

lemma shifted_ids: "mset (map (\<lambda>k. k + n0) ks) = mset (map (\<lambda>k. k + n0) [0..<n1])" if "mset ks = mset [0..<n1]" for ks :: "nat list"
  using that by (simp only: mset_map)

lemma merged_index:
  fixes D :: "('d, 'v::linorder) dimension"
  assumes D: "index_ok data D" and new: "new_ok D newData nv ni" and n: "length (data @ newData) \<le> 2 ^ 30"
  obtains i0 i1 vs1 ix1 acc vs ix where
    "merge_both (d_values D) (d_index D) nv ni (length data) (length newData) 0 0 []
       (crossfilter_index (length (data @ newData)) (length (data @ newData))) = Some (i0, i1, vs1, ix1)"
    "merge_rest (d_values D) (d_index D) 0 i0 (length data) (vs1, ix1) = Some acc"
    "merge_rest nv ni (length data) i1 (length newData) acc = Some (vs, ix)"
    "\<And>E. d_value E = d_value D \<Longrightarrow> d_values E = vs \<Longrightarrow> d_index E = ix \<Longrightarrow> index_ok (data @ newData) E"
proof -
  let ?n0 = "length data" and ?n1 = "length newData" and ?all = "data @ newData"
  let ?val = "\<lambda>k. d_value D (?all ! k)"
  let ?start = "crossfilter_index (?n0 + ?n1) (?n0 + ?n1)"
  let ?w = "awidth ?start"
  note ix = index_okD [OF D] and nw = new_okD [OF new]
  have w: "?n0 + ?n1 \<le> 2 ^ ?w"
    using index_holds_ids [of "?n0 + ?n1 - 1" "?n0 + ?n1" "?n0 + ?n1"] n by (cases "?n0 + ?n1") auto
  have ov: "d_values D = map ?val (take ?n0 (elems (d_index D)))"
  proof -
    have "d_values D = map (\<lambda>k. d_value D (data ! k)) (take ?n0 (elems (d_index D)))" using D unfolding index_ok_def by blast
    also have "\<dots> = map ?val (take ?n0 (elems (d_index D)))" using ix(7) by (intro map_cong) (auto simp: nth_append)
    finally show ?thesis .
  qed
  have nv: "nv = map (\<lambda>k. ?val (k + ?n0)) (elems ni)" using new by (simp add: new_ok_def nth_append)
  have I: "merge_input ?val ?w (d_values D) (d_index D) nv ni ?n0 ?n1"
    unfolding merge_input_def
    using D ov nv ix(5,7) nw(1,3,7) w by (auto simp: index_ok_def)
  obtain i0 i1 vs1 ix1 where m: "merge_both (d_values D) (d_index D) nv ni ?n0 ?n1 0 0 [] ?start = Some (i0, i1, vs1, ix1)"
    "merge_ok ?val ?w (d_values D) (d_index D) nv ni ?n0 ?n1 i0 i1 vs1 ix1" "i0 = ?n0 \<or> i1 = ?n1"
    using merge_both_correct [OF I merge_start [OF I]] by blast
  obtain vs2 ix2 where m2: "merge_rest (d_values D) (d_index D) 0 i0 ?n0 (vs1, ix1) = Some (vs2, ix2)"
    "merge_ok ?val ?w (d_values D) (d_index D) nv ni ?n0 ?n1 ?n0 i1 vs2 ix2"
    by (rule merge_rest_old [OF I m(2,3)])
  obtain vs ix' where m3: "merge_rest nv ni ?n0 i1 ?n1 (vs2, ix2) = Some (vs, ix')"
    "merge_ok ?val ?w (d_values D) (d_index D) nv ni ?n0 ?n1 ?n0 ?n1 vs ix'"
    by (rule merge_rest_new [OF I m2(2)])
  note S = merge_okD [OF m3(2)]
  have len: "length ?all = ?n0 + ?n1" by simp
  have "mset (take (?n0 + ?n1) (elems ix')) = mset [0..<?n0] + mset (map (\<lambda>k. k + ?n0) [0..<?n1])"
  proof -
    have "mset (take ?n0 (elems (d_index D))) = mset [0..<?n0]" using D unfolding index_ok_def by blast
    moreover have "mset (take ?n1 (elems ni)) = mset [0..<?n1]" using new nw(1) by (simp add: new_ok_def ulength_def)
    ultimately show ?thesis using S(7) by (simp only: mset_map)
  qed
  also have "\<dots> = mset ([0..<?n0] @ map (\<lambda>k. k + ?n0) [0..<?n1])" by (simp only: mset_append)
  also have "[0..<?n0] @ map (\<lambda>k. k + ?n0) [0..<?n1] = [0..<?n0 + ?n1]"
    using upt_add_eq_append [of 0 ?n0 ?n1] by (simp add: map_add_upt add.commute)
  finally have ms: "mset (take (?n0 + ?n1) (elems ix')) = mset [0..<?n0 + ?n1]" .
  have "index_ok ?all E" if "d_value E = d_value D" "d_values E = vs" "d_index E = ix'" for E :: "('d, 'v) dimension"
    unfolding index_ok_def len that using S(3,4,5,6,8,9) w ms by simp
  then show thesis using that m(1) m2(1) m3(1) unfolding len by blast
qed


definition same_filter :: "('d, 'v) dimension \<Rightarrow> ('d, 'v) dimension \<Rightarrow> bool" where
  \<comment> \<open>all but the index, its bounds and the new values\<close>
  "same_filter D D' \<longleftrightarrow> d_one D' = d_one D \<and> d_value D' = d_value D \<and> d_refilter D' = d_refilter D \<and>
     d_refilterFunction D' = d_refilterFunction D \<and> d_indexListeners D' = d_indexListeners D \<and>
     d_dimensionGroups D' = d_dimensionGroups D"

lemma same_filterD:
  assumes "same_filter D D'"
  shows "passes D' = passes D" "filter_ok D' \<longleftrightarrow> filter_ok D" "d_one D' = d_one D" "d_value D' = d_value D"
  using assms by (simp_all add: same_filter_def passes_def filter_ok_def fun_eq_iff split: option.split)

definition marked :: "('d, 'v::linorder) dimension \<Rightarrow> nat \<Rightarrow> 'd list \<Rightarrow> 32 word list \<Rightarrow> 32 word list \<Rightarrow> bool" where
  \<comment> \<open>the new records from \<open>n0\<close> on that the filter rejects are marked, nothing else changes\<close>
  "marked D n0 newData fs fs' \<longleftrightarrow> length fs' = length fs \<and> (\<forall>k < length fs. fs' ! k =
     (if n0 \<le> k \<and> k < n0 + length newData \<and> \<not> passes D (d_value D (newData ! (k - n0)))
      then fs ! k OR d_one D else fs ! k))"

lemma marked_bits:
  assumes m: "marked D (length data) newData fs fs'" and old: "bits_ok data fs D" and b: "one_bit (d_one D) b"
    and new: "\<And>k. length data \<le> k \<Longrightarrow> k < length (data @ newData) \<Longrightarrow> fs ! k AND d_one D = 0"
    and len: "length (data @ newData) \<le> length fs"
  shows "bits_ok (data @ newData) fs' D"
  unfolding bits_ok_def
proof (intro allI impI)
  fix k assume k: "k < length (data @ newData)"
  let ?p = "passes D (d_value D ((data @ newData) ! k))"
  have "(x OR d_one D) AND d_one D \<noteq> 0" for x using one_bit_and [OF b] bit_one_bit [OF b] one_bit_neq_0 [OF b] by (simp add: bit_or_iff)
  moreover have "fs' ! k = (if length data \<le> k \<and> \<not> ?p then fs ! k OR d_one D else fs ! k)"
    using m k len unfolding marked_def by (auto simp: nth_append)
  moreover have "fs ! k AND d_one D = 0 \<longleftrightarrow> length data \<le> k \<or> ?p"
    using old new [of k] k by (cases "k < length data") (auto simp: bits_ok_def nth_append)
  ultimately show "fs' ! k AND d_one D = 0 \<longleftrightarrow> ?p" by auto
qed

lemma preAdd_correct:
  fixes D :: "('d, 'v::linorder) dimension"
  assumes D: "index_ok data D" "filter_ok D" "bits_ok data fs D" and b: "b < M" "one_bit (d_one D) b"
    and new: "\<And>k. length data \<le> k \<Longrightarrow> k < length (data @ newData) \<Longrightarrow> fs ! k AND d_one D = 0"
    and n: "length (data @ newData) \<le> length fs" "length (data @ newData) \<le> 2 ^ 30" and fit: "fs_fit M fs"
  obtains fs' D' nv ni where
    "preAdd M (length (data @ newData)) newData (length data) (length newData) fs D = Some (fs', D')"
    "dim_ok M (data @ newData) fs' D'" "same_filter D D'" "marked D (length data) newData fs fs'"
    "d_newValues D' = Some nv" "d_newIndex D' = Some ni" "new_ok D newData nv ni" "fits ni"
proof -
  let ?n0 = "length data" and ?n1 = "length newData" and ?all = "data @ newData"
  have one: "take_bit M (d_one D) = d_one D" using one_bit_less_M [OF b(2,1)] .
  have n1: "?n1 \<le> 2 ^ 30" "?n1 \<le> 2 ^ 31" "?n0 + ?n1 \<le> length fs" using n by simp_all
  obtain w ix nv where srt: "crossfilter_range ?n1 = Some (UArray w [0..<?n1])"
    "quicksort (\<lambda>i. map (d_value D) newData ! i) [0..<?n1] 0 ?n1 = Some ix"
    "permute (map (d_value D) newData) ix = Some nv" and nok: "new_ok D newData nv (UArray w ix)"
    and wid: "fits (UArray w ix)" "?n1 \<le> 2 ^ w"
    using sort_new [OF n1(1), of D] by blast
  note nw = new_okD [OF nok]
  have rok: "refilter_ok (d_refilter D)" using D(2) by (simp add: filter_ok_def)
  obtain l h where lh: "run_refilter (d_refilter D) nv = Some (l, h)"
    using run_refilter_correct [OF nw(7) _ rok] n1(2) nw(2) by auto
  obtain fs' where mark: "mark_new M (d_one D) (d_refilterFunction D) nv (UArray w ix) (l, h) ?n0 ?n1 fs = Some fs'"
    and fs': "length fs' = length fs" "fs_fit M fs'" and mk: "marked D ?n0 newData fs fs'"
    using mark_new_correct [OF nok D(2) lh n1(2,3) fit one] unfolding marked_def by blast
  let ?E = "D\<lparr>d_newValues := Some nv, d_newIndex := Some (UArray w ix)\<rparr>"
  have bits: "bits_ok ?all fs' D" using marked_bits [OF mk D(3) b(2) new n(1)] .
  have ok: "dim_ok M ?all fs' D'" if "index_ok ?all D'" "bounds_ok D'" "same_filter D D'" for D'
  proof -
    have "bits_ok ?all fs' D'" using bits same_filterD [OF that(3)] by (simp only: bits_ok_def)
    then show ?thesis unfolding dim_ok_def using that D(2) b fs' n same_filterD [OF that(3)] by auto
  qed
  have run: "preAdd M (length ?all) newData ?n0 ?n1 fs D = (if ?n0 = 0 then
       Some (fs', ?E\<lparr>d_values := nv, d_index := UArray w ix, d_lo0 := l, d_hi0 := h\<rparr>)
     else do {
       (i0, i1, vs, ix') \<leftarrow>
         merge_both (d_values D) (d_index D) nv (UArray w ix) ?n0 ?n1 0 0 [] (crossfilter_index (length ?all) (length ?all));
       acc \<leftarrow> merge_rest (d_values D) (d_index D) 0 i0 ?n0 (vs, ix');
       (vs, ix') \<leftarrow> merge_rest nv (UArray w ix) ?n0 i1 ?n1 acc;
       bounds \<leftarrow> run_refilter (d_refilter D) vs;
       Some (fs', ?E\<lparr>d_values := vs, d_index := ix', d_lo0 := fst bounds, d_hi0 := snd bounds\<rparr>) })"
    unfolding preAdd_def by (simp add: Let_def srt lh mark)
  show thesis
  proof (cases "?n0 = 0")
    case True
    let ?D' = "?E\<lparr>d_values := nv, d_index := UArray w ix, d_lo0 := l, d_hi0 := h\<rparr>"
    have "length ix = ?n1" using nw(1) by simp
    then have "index_ok ?all ?D'" using True nok wid unfolding index_ok_def new_ok_def by auto
    moreover have "bounds_ok ?D'" "same_filter D ?D'" using lh by (simp_all add: bounds_ok_def same_filter_def)
    ultimately show thesis
      using that [of fs' ?D' nv "UArray w ix"] ok run True mk nok wid(1) by simp
  next
    case False
    obtain i0 i1 vs1 ix1 acc vs ix' where m: "merge_both (d_values D) (d_index D) nv (UArray w ix) ?n0 ?n1 0 0 []
         (crossfilter_index (length ?all) (length ?all)) = Some (i0, i1, vs1, ix1)"
      "merge_rest (d_values D) (d_index D) 0 i0 ?n0 (vs1, ix1) = Some acc"
      "merge_rest nv (UArray w ix) ?n0 i1 ?n1 acc = Some (vs, ix')"
      and iok: "\<And>E. d_value E = d_value D \<Longrightarrow> d_values E = vs \<Longrightarrow> d_index E = ix' \<Longrightarrow> index_ok ?all E"
      using merged_index [OF D(1) nok n(2)] by metis
    have vs: "index_ok ?all (?E\<lparr>d_values := vs, d_index := ix'\<rparr>)" by (rule iok) simp_all
    obtain l' h' where lh': "run_refilter (d_refilter D) vs = Some (l', h')"
      by (rule bounds_ranks [OF vs rok n(2)]) simp
    let ?D' = "?E\<lparr>d_values := vs, d_index := ix', d_lo0 := l', d_hi0 := h'\<rparr>"
    have "index_ok ?all ?D'" by (rule iok) simp_all
    moreover have "bounds_ok ?D'" "same_filter D ?D'" using lh' by (simp_all add: bounds_ok_def same_filter_def)
    moreover have "preAdd M (length ?all) newData ?n0 ?n1 fs D = Some (fs', ?D')"
      unfolding run using False m lh' by simp
    ultimately show thesis using that [of fs' ?D' nv "UArray w ix"] ok mk nok wid(1) by simp
  qed
qed


section \<open>Removing records\<close>

text \<open>The records that stay, and their new numbers.\<close>

definition kept :: "(nat \<Rightarrow> bool) \<Rightarrow> nat \<Rightarrow> nat list" where
  "kept P n = filter P [0..<n]"

definition pos :: "(nat \<Rightarrow> bool) \<Rightarrow> nat \<Rightarrow> nat" where
  "pos P k = length (kept P k)"

lemma kept_Suc [simp]: "kept P (Suc n) = kept P n @ (if P n then [n] else [])"
  by (simp add: kept_def)

lemma kept_0 [simp]: "kept P 0 = []"
  by (simp add: kept_def)

lemma length_kept: "length (kept P n) \<le> n"
  using length_filter_le [of P "[0..<n]"] by (simp add: kept_def)

lemma kept_nth: "k < n \<Longrightarrow> P k \<Longrightarrow> pos P k < length (kept P n) \<and> kept P n ! pos P k = k"
proof (induction n)
  case (Suc n)
  then show ?case by (cases "k = n") (auto simp: pos_def nth_append less_Suc_eq)
qed simp

lemma map_pos: "map (pos P) (kept P n) = [0..<length (kept P n)]"
  by (induction n) (simp_all add: pos_def)

lemma write_step:
  assumes "take j xs = as" "drop i xs = drop i ys" "j \<le> i" "i < length ys" "length xs = length ys"
  shows "xs ! i = ys ! i" "take (Suc j) (xs[j := v]) = as @ [v]" "drop (Suc i) (xs[j := v]) = drop (Suc i) ys"
    "drop (Suc i) xs = drop (Suc i) ys"
proof -
  show "xs ! i = ys ! i" using assms by (metis drop_eq_nths hd_drop_conv_nth)
  show "take (Suc j) (xs[j := v]) = as @ [v]" using assms by (simp add: take_Suc_conv_app_nth)
  show d: "drop (Suc i) xs = drop (Suc i) ys" using assms(2) by (metis drop_drop add.commute plus_1_eq_Suc)
  then show "drop (Suc i) (xs[j := v]) = drop (Suc i) ys" using assms(3) by simp
qed

definition reindexes :: "(nat \<Rightarrow> bool) \<Rightarrow> nat \<Rightarrow> uarray \<Rightarrow> bool" where
  \<comment> \<open>the array holds the new number of every record that stays\<close>
  "reindexes P n reIndex \<longleftrightarrow> ulength reIndex = n \<and> (\<forall>k < n. P k \<longrightarrow> elems reIndex ! k = pos P k)"

lemma removeData_loop:
  fixes D :: "('d, 'v::linorder) dimension"
  assumes D: "index_ok data D" and fs: "length data \<le> length fs" and re: "reindexes (\<lambda>k. fs ! k \<noteq> 0) (length data) reIndex"
  defines "L \<equiv> filter (\<lambda>k. fs ! k \<noteq> 0)" and "idx \<equiv> elems (d_index D)" and "p \<equiv> pos (\<lambda>k. fs ! k \<noteq> 0)"
  obtains vs ix where
    "ofold (\<lambda>i (values, index, j). do {
         k \<leftarrow> uget index i;
         fk \<leftarrow> aget fs k;
         if fk \<noteq> 0 then do {
           values \<leftarrow> (if i \<noteq> j then do { v \<leftarrow> aget values i; aset values j v } else Some values);
           k' \<leftarrow> uget reIndex k;
           index \<leftarrow> uset index j k';
           Some (values, index, j + 1)
         } else Some (values, index, j)
       }) [0..<length data] (d_values D, d_index D, 0) = Some (vs, ix, length (L (take (length data) idx)))"
    "take (length (L (take (length data) idx))) vs = map (\<lambda>k. d_value D (data ! k)) (L (take (length data) idx))"
    "take (length (L (take (length data) idx))) (elems ix) = map p (L (take (length data) idx))"
    "fits ix" "awidth ix = awidth (d_index D)" "ulength ix = ulength (d_index D)"
proof -
  let ?n = "length data" and ?val = "\<lambda>k. d_value D (data ! k)"
  note ok = index_okD [OF D]
  let ?P = "\<lambda>i (vs, ix, j). j = length (L (take i idx)) \<and> length vs = ?n \<and> ulength ix = ulength (d_index D) \<and>
     awidth ix = awidth (d_index D) \<and> fits ix \<and>
     take j vs = map ?val (L (take i idx)) \<and> drop i vs = drop i (d_values D) \<and>
     take j (elems ix) = map p (L (take i idx)) \<and> drop i (elems ix) = drop i idx"
  let ?f = "\<lambda>i (values, index, j). do {
         k \<leftarrow> uget index i;
         fk \<leftarrow> aget fs k;
         if fk \<noteq> 0 then do {
           values \<leftarrow> (if i \<noteq> j then do { v \<leftarrow> aget values i; aset values j v } else Some values);
           k' \<leftarrow> uget reIndex k;
           index \<leftarrow> uset index j k';
           Some (values, index, j + 1)
         } else Some (values, index, j)
       }"
  have "\<exists>s. ofold ?f [0..<?n] (d_values D, d_index D, 0) = Some s \<and> ?P ?n s"
  proof (rule ofold_upt_inv [where P = ?P])
    show "?P 0 (d_values D, d_index D, 0)" using ok(3) D by (simp add: L_def idx_def index_ok_def)
    fix i s assume i: "i < ?n" and P: "?P i s"
    obtain vs ix j where s: "s = (vs, ix, j)" by (cases s) auto
    from P have j: "j = length (L (take i idx))" and len: "length vs = ?n" "ulength ix = ulength (d_index D)"
      and w: "awidth ix = awidth (d_index D)" "fits ix"
      and v: "take j vs = map ?val (L (take i idx))" "drop i vs = drop i (d_values D)"
      and x: "take j (elems ix) = map p (L (take i idx))" "drop i (elems ix) = drop i idx"
      unfolding s prod.case by blast+
    have ji: "j \<le> i" using j length_filter_le [of "\<lambda>k. fs ! k \<noteq> 0" "take i idx"] by (simp add: L_def)
    let ?k = "idx ! i"
    have k: "?k < ?n" "i < length idx" "i < ulength ix" using ok(1,2) [OF i] len(2) by (simp_all add: idx_def ulength_def)
    have hv: "i < length (d_values D)" "length vs = length (d_values D)" "length (elems ix) = length idx"
      using i len ok(3) by (simp_all add: idx_def ulength_def)
    note wv = write_step [OF v ji hv(1,2)] and wx = write_step [OF x ji k(2) hv(3)]
    have val: "d_values D ! i = ?val ?k" using ok(4) [OF i] by (simp add: idx_def)
    have nxt: "L (take (Suc i) idx) = L (take i idx) @ (if fs ! ?k = 0 then [] else [?k])"
      using k(2) by (simp add: take_Suc_conv_app_nth L_def)
    show "\<exists>s'. ?f i s = Some s' \<and> ?P (Suc i) s'"
    proof (cases "fs ! ?k = 0")
      case True
      then have "?f i s = Some s" using s k fs wx(1) by simp
      then show ?thesis using True j len w v x wv(4) wx(4) unfolding nxt by (simp add: s)
    next
      case False
      have kp: "?k < ulength reIndex" "elems reIndex ! ?k = p ?k" using re k(1) False by (simp_all add: reindexes_def p_def)
      have "p ?k < ?n" using length_kept [of "\<lambda>k. fs ! k \<noteq> 0" ?k] k(1) by (simp add: p_def pos_def)
      then have pw: "p ?k < 2 ^ awidth ix" using D unfolding w(1) index_ok_def by (meson less_le_trans)
      have jl: "j < ulength ix" using ji k(3) by simp
      let ?ix = "UArray (awidth ix) ((elems ix)[j := p ?k])"
      have ux: "uset ix j (p ?k) = Some ?ix" using uset_exact [OF jl pw] .
      have vu: "(if i \<noteq> j then do { v \<leftarrow> aget vs i; aset vs j v } else Some vs) = Some (vs[j := ?val ?k])"
        using i ji len(1) wv(1) val by (cases "i = j") (simp_all, metis list_update_id)
      have "?f i s = Some (vs[j := ?val ?k], ?ix, j + 1)"
        using s k fs wx(1) False vu kp ux by simp
      moreover have "fits ?ix" using uset_fits [OF w(2) ux] by simp
      ultimately show ?thesis
        using False j len w(1) wv(2,3) wx(2,3) unfolding nxt by (simp add: ulength_def)
    qed
  qed simp
  then show thesis using that by (auto simp: L_def)
qed


lemma clear_tail:
  assumes "fits ix" "n \<le> ulength ix"
  shows "\<exists>ix'. ofold (\<lambda>j ix. uset ix j 0) [j..<n] ix = Some ix' \<and> take j (elems ix') = take j (elems ix) \<and>
    fits ix' \<and> awidth ix' = awidth ix \<and> ulength ix' = ulength ix"
proof (cases "j \<le> n")
  case True
  show ?thesis
  proof (rule ofold_upt_inv [where P = "\<lambda>i ix'. take j (elems ix') = take j (elems ix) \<and>
      fits ix' \<and> awidth ix' = awidth ix \<and> ulength ix' = ulength ix"])
    fix i jx assume i: "j \<le> i" "i < n"
      and P: "take j (elems jx) = take j (elems ix) \<and> fits jx \<and> awidth jx = awidth ix \<and> ulength jx = ulength ix"
    have "uset jx i 0 = Some (UArray (awidth jx) ((elems jx)[i := 0]))" using i assms(2) P by (simp add: uset_Some)
    then show "\<exists>s'. uset jx i 0 = Some s' \<and> take j (elems s') = take j (elems ix) \<and> fits s' \<and> awidth s' = awidth ix \<and> ulength s' = ulength ix"
      using uset_fits [of jx i 0] P i by auto
  qed (use True assms in auto)
qed (use assms in simp)

lemma removeData_correct:
  fixes D :: "('d, 'v::linorder) dimension"
  assumes D: "index_ok data D" "filter_ok D" and n: "length data \<le> length fs" "length data \<le> 2 ^ 30"
    and re: "reindexes (\<lambda>k. fs ! k \<noteq> 0) (length data) reIndex"
  obtains D' where "dimension_removeData reIndex (length data) fs D = Some D'"
    "index_ok (map ((!) data) (kept (\<lambda>k. fs ! k \<noteq> 0) (length data))) D'" "bounds_ok D'" "same_filter D D'"
    "d_newValues D' = d_newValues D" "d_newIndex D' = d_newIndex D"
proof -
  let ?n = "length data" and ?P = "\<lambda>k. fs ! k \<noteq> 0"
  let ?ks = "kept ?P ?n" and ?L = "filter ?P (take ?n (elems (d_index D)))"
  let ?data' = "map ((!) data) ?ks"
  note ok = index_okD [OF D(1)]
  have ms: "mset ?L = mset ?ks"
    using D(1) unfolding index_ok_def kept_def by (simp only: mset_filter)
  have j: "length ?L = length ?ks" and sL: "set ?L = set ?ks"
    using arg_cong [OF ms, of size] mset_eq_setD [OF ms] by (simp_all only: size_mset)
  have jn: "length ?L \<le> ?n" unfolding j by (rule length_kept)
  obtain vs ix where loop: "ofold (\<lambda>i (values, index, j). do {
         k \<leftarrow> uget index i;
         fk \<leftarrow> aget fs k;
         if fk \<noteq> 0 then do {
           values \<leftarrow> (if i \<noteq> j then do { v \<leftarrow> aget values i; aset values j v } else Some values);
           k' \<leftarrow> uget reIndex k;
           index \<leftarrow> uset index j k';
           Some (values, index, j + 1)
         } else Some (values, index, j)
       }) [0..<?n] (d_values D, d_index D, 0) = Some (vs, ix, length ?L)"
    and vs: "take (length ?L) vs = map (\<lambda>k. d_value D (data ! k)) ?L"
    and ix: "take (length ?L) (elems ix) = map (pos ?P) ?L" "fits ix" "awidth ix = awidth (d_index D)" "ulength ix = ulength (d_index D)"
    by (rule removeData_loop [OF D(1) n(1) re])
  have un: "?n \<le> ulength ix" "?n \<le> 2 ^ awidth ix" using D(1) ix(3,4) by (simp_all add: index_ok_def)
  obtain ix' where tail: "ofold (\<lambda>j ix. uset ix j 0) [length ?L..<?n] ix = Some ix'"
    "take (length ?L) (elems ix') = take (length ?L) (elems ix)" "fits ix'" "awidth ix' = awidth ix" "ulength ix' = ulength ix"
    using clear_tail [OF ix(2) un(1)] by blast
  have "map (\<lambda>k. d_value D (data ! k)) ?L = map (\<lambda>k. d_value D (?data' ! k)) (map (pos ?P) ?L)"
  proof -
    have "?data' ! pos ?P k = data ! k" if "k \<in> set ?L" for k
      using that kept_nth [of k ?n ?P] unfolding sL kept_def by simp
    then show ?thesis by simp
  qed
  moreover have "sorted (map (\<lambda>k. d_value D (data ! k)) (take ?n (elems (d_index D))))"
    using D(1) unfolding index_ok_def by metis
  then have "sorted (map (\<lambda>k. d_value D (data ! k)) ?L)" by (rule sorted_filter)
  moreover have "mset (map (pos ?P) ?L) = mset [0..<length ?L]"
    unfolding j map_pos [of ?P ?n, symmetric] mset_map ms ..
  ultimately have iok: "index_ok ?data' E" if "d_value E = d_value D" "d_values E = take (length ?L) vs" "d_index E = ix'" for E :: "('d, 'v) dimension"
    unfolding index_ok_def that vs using tail(2-5) ix(1) un jn by (simp add: j)
  have "index_ok ?data' (D\<lparr>d_values := take (length ?L) vs, d_index := ix'\<rparr>)" by (rule iok) simp_all
  moreover have "refilter_ok (d_refilter D)" using D(2) by (simp add: filter_ok_def)
  moreover have "length ?data' \<le> 2 ^ 30" using jn j n(2) by simp
  ultimately obtain lo hi where b: "run_refilter (d_refilter D) (take (length ?L) vs) = Some (lo, hi)"
    by (rule bounds_ranks) simp
  let ?D' = "D\<lparr>d_values := take (length ?L) vs, d_index := ix', d_lo0 := lo, d_hi0 := hi\<rparr>"
  have "dimension_removeData reIndex ?n fs D = Some ?D'"
    unfolding dimension_removeData_def loop by (simp add: tail(1) b)
  moreover have "index_ok ?data' ?D'" by (rule iok) simp_all
  ultimately show thesis using that [of ?D'] b by (simp add: bounds_ok_def same_filter_def)
qed

end
