(* ===== verification/Queue_Js.thy ===== *)
theory Queue_Js
  imports Js_Prelude
begin

text \<open>
  \<^verbatim>\<open>queue.js\<close>: the queue of asynchronous tasks with a bound on the tasks that run at the same
  time. The variables of the closure are a record; the calls of \<^verbatim>\<open>defer\<close>, \<^verbatim>\<open>await\<close>,
  \<^verbatim>\<open>awaitAll\<close> and of a task's callback are the operations; \<^verbatim>\<open>q_notified\<close> lists the calls
  of the function given to \<^verbatim>\<open>await\<close>.

  A task is what the queue sees of it: \<^term>\<open>None\<close> if it returns before it calls its callback
  (the call comes later, as an operation), \<open>Some out\<close> if it calls the callback with the
  outcome \<open>out\<close> before it returns. The variables \<^verbatim>\<open>started\<close> and \<^verbatim>\<open>remaining\<close> are
  \<^term>\<open>None\<close> when they are \<^verbatim>\<open>NaN\<close>; an infinite parallelism is \<^term>\<open>None\<close>.
\<close>

section \<open>Definitions\<close>

type_synonym ('e, 'r) task = "('e + 'r) option"

datatype ('e, 'r) slot = Deferred "('e, 'r) task" | Running | Cleared | Done 'r

datatype ('e, 'r) notification = Failed 'e | Finished "('e, 'r) slot list"
  \<comment> \<open>\<^verbatim>\<open>await(error)\<close>; \<^verbatim>\<open>await(null, tasks)\<close> or \<^verbatim>\<open>await.apply(null, [null].concat(tasks))\<close>\<close>

record ('e, 'r) queue =
  q_parallelism :: "nat option"
  q_tasks :: "('e, 'r) slot list"
  q_started :: "nat option"
  q_active :: nat
  q_remaining :: "nat option"
  q_popping :: bool
  q_error :: "'e option"
  q_await :: bool
  q_all :: bool
  q_notified :: "('e, 'r) notification list"

definition new_queue :: "nat option \<Rightarrow> ('e, 'r) queue" where
  "new_queue parallelism = \<lparr>
     q_parallelism = parallelism, q_tasks = [], q_started = Some 0, q_active = 0, q_remaining = Some 0,
     q_popping = False, q_error = None, q_await = False, q_all = False, q_notified = []\<rparr>"

definition notify :: "('e, 'r) queue \<Rightarrow> ('e, 'r) queue" where
  \<comment> \<open>before \<^verbatim>\<open>await\<close> is set, its value is the function \<^verbatim>\<open>unset\<close>, which does nothing\<close>
  "notify Q =
     (if q_await Q then Q\<lparr>q_notified := q_notified Q @
        [case q_error Q of Some e \<Rightarrow> Failed e | None \<Rightarrow> Finished (q_tasks Q)]\<rparr>
      else Q)"

definition positive :: "nat option \<Rightarrow> bool" where
  \<comment> \<open>a number as a condition: neither zero nor \<^verbatim>\<open>NaN\<close>\<close>
  "positive x = (case x of Some (Suc _) \<Rightarrow> True | _ \<Rightarrow> False)"

definition settle :: "nat \<Rightarrow> 'e + 'r \<Rightarrow> ('e, 'r) queue \<Rightarrow> ('e, 'r) queue" where
  \<comment> \<open>the body of a callback after its check, up to the call of \<^verbatim>\<open>pop\<close>\<close>
  "settle i out Q =
     (let Q = Q\<lparr>q_tasks := (q_tasks Q)[i := Cleared], q_active := q_active Q - 1\<rparr> in
      if q_error Q \<noteq> None then Q
      else case out of
        Inl e \<Rightarrow> notify (Q\<lparr>q_error := Some e, q_started := None, q_remaining := None\<rparr>)
      | Inr r \<Rightarrow>
          (let Q = Q\<lparr>q_tasks := (q_tasks Q)[i := Done r], q_remaining := map_option (\<lambda>n. n - 1) (q_remaining Q)\<rparr> in
           if positive (q_remaining Q) then Q else notify Q))"

definition may_start :: "('e, 'r) queue \<Rightarrow> bool" where
  \<comment> \<open>\<^verbatim>\<open>started < tasks.length && active < parallelism\<close>\<close>
  "may_start Q =
     ((case q_started Q of Some s \<Rightarrow> s < length (q_tasks Q) | None \<Rightarrow> False) \<and>
      (case q_parallelism Q of Some p \<Rightarrow> q_active Q < p | None \<Rightarrow> True))"

definition start :: "nat \<Rightarrow> ('e, 'r) queue \<Rightarrow> ('e, 'r) queue" where
  "start i Q = Q\<lparr>q_popping := True, q_started := Some (i + 1), q_tasks := (q_tasks Q)[i := Running],
                 q_active := q_active Q + 1\<rparr>"

definition task_of :: "('e, 'r) slot \<Rightarrow> ('e, 'r) task" where
  "task_of t = (case t of Deferred f \<Rightarrow> f | _ \<Rightarrow> None)"

definition start_next :: "('e, 'r) queue \<Rightarrow> ('e, 'r) queue" where
  \<comment> \<open>one round of the loop of \<^verbatim>\<open>pop\<close>: a callback that comes at once finds \<^verbatim>\<open>popping\<close> true\<close>
  "start_next Q =
     (let i = the (q_started Q); t = task_of (q_tasks Q ! i); Q = start i Q in
      case t of Some out \<Rightarrow> settle i out Q | None \<Rightarrow> Q)"

lemma length_settle [simp]: "length (q_tasks (settle i out Q)) = length (q_tasks Q)"
  by (auto simp: settle_def Let_def notify_def split: sum.split)

lemma length_start_next [simp]: "length (q_tasks (start_next Q)) = length (q_tasks Q)"
  by (auto simp: start_next_def start_def Let_def split: option.split)

lemma started_settle: "q_started (settle i out Q) \<in> {q_started Q, None}"
  by (auto simp: settle_def Let_def notify_def split: sum.split)

lemma started_start_next: "q_started (start_next Q) \<in> {Some (the (q_started Q) + 1), None}"
  using started_settle [of "the (q_started Q)" _ "start (the (q_started Q)) Q"]
  by (auto simp: start_next_def start_def Let_def split: option.split)

function pop :: "('e, 'r) queue \<Rightarrow> ('e, 'r) queue" where
  "pop Q = (if may_start Q then pop (start_next Q) else Q\<lparr>q_popping := False\<rparr>)"
  by auto
termination
proof (relation "measure (\<lambda>Q. case q_started Q of Some s \<Rightarrow> length (q_tasks Q) - s | None \<Rightarrow> 0)")
  fix Q :: "('e, 'r) queue"
  assume "may_start Q"
  then show "(start_next Q, Q) \<in> measure (\<lambda>Q. case q_started Q of Some s \<Rightarrow> length (q_tasks Q) - s | None \<Rightarrow> 0)"
    using started_start_next [of Q] by (auto simp: may_start_def split: option.splits)
qed simp

declare pop.simps [simp del]

definition callback :: "nat \<Rightarrow> 'e + 'r \<Rightarrow> ('e, 'r) queue \<Rightarrow> ('e, 'r) queue option" where
  \<comment> \<open>the call of the callback of task \<open>i\<close> after the task has returned\<close>
  "callback i out Q = do {
     t \<leftarrow> aget (q_tasks Q) i;
     if t \<noteq> Running then None
     else do {
       let pops = (q_error Q = None \<and> (case out of Inl e \<Rightarrow> False | Inr r \<Rightarrow>
                     positive (map_option (\<lambda>n. n - 1) (q_remaining Q))));
       let Q = settle i out Q;
       Some (if pops \<and> \<not> q_popping Q then pop Q else Q)
     }
   }"

definition defer_task :: "('e \<Rightarrow> bool) \<Rightarrow> ('e, 'r) task \<Rightarrow> ('e, 'r) queue \<Rightarrow> ('e, 'r) queue option" where
  \<comment> \<open>\<open>truthy\<close> is the truth value of an error: \<^verbatim>\<open>!error\<close> also holds for an error such as 0\<close>
  "defer_task truthy f Q =
     (if q_await Q then None
      else if (case q_error Q of None \<Rightarrow> True | Some e \<Rightarrow> \<not> truthy e)
      then Some (pop (Q\<lparr>q_tasks := q_tasks Q @ [Deferred f], q_remaining := map_option Suc (q_remaining Q)\<rparr>))
      else Some Q)"

definition await :: "bool \<Rightarrow> ('e, 'r) queue \<Rightarrow> ('e, 'r) queue option" where
  \<comment> \<open>\<^verbatim>\<open>await\<close>, or \<^verbatim>\<open>awaitAll\<close> if \<open>all\<close>\<close>
  "await all Q =
     (if q_await Q then None
      else (let Q = Q\<lparr>q_await := True, q_all := all\<rparr> in
            Some (if \<not> positive (q_remaining Q) then notify Q else Q)))"

inductive queue_step :: "('e \<Rightarrow> bool) \<Rightarrow> ('e, 'r) queue \<Rightarrow> ('e, 'r) queue \<Rightarrow> bool" for truthy where
  step_defer: "defer_task truthy f Q = Some Q' \<Longrightarrow> queue_step truthy Q Q'"
| step_await: "await all Q = Some Q' \<Longrightarrow> queue_step truthy Q Q'"
| step_callback: "callback i out Q = Some Q' \<Longrightarrow> queue_step truthy Q Q'"

inductive queue_reachable :: "('e \<Rightarrow> bool) \<Rightarrow> nat option \<Rightarrow> ('e, 'r) queue \<Rightarrow> bool" for truthy p where
  reachable_new: "queue_reachable truthy p (new_queue p)"
| reachable_step: "queue_reachable truthy p Q \<Longrightarrow> queue_step truthy Q Q' \<Longrightarrow> queue_reachable truthy p Q'"

section \<open>The invariant\<close>

definition is_deferred :: "('e, 'r) slot \<Rightarrow> bool" where
  "is_deferred t = (case t of Deferred f \<Rightarrow> True | _ \<Rightarrow> False)"

definition is_done :: "('e, 'r) slot \<Rightarrow> bool" where
  "is_done t = (case t of Done r \<Rightarrow> True | _ \<Rightarrow> False)"

lemma slot_tests [simp]:
  "is_deferred (Deferred f)" "\<not> is_deferred Running" "\<not> is_deferred Cleared" "\<not> is_deferred (Done r)"
  "\<not> is_done (Deferred f)" "\<not> is_done Running" "\<not> is_done Cleared" "is_done (Done r)"
  by (simp_all add: is_deferred_def is_done_def)

definition running :: "('e, 'r) queue \<Rightarrow> nat" where
  "running Q = length (filter (\<lambda>t. t = Running) (q_tasks Q))"

definition unfinished :: "('e, 'r) queue \<Rightarrow> nat" where
  "unfinished Q = length (filter (\<lambda>t. \<not> is_done t) (q_tasks Q))"

text \<open>
  The invariant holds between the calls of \<^verbatim>\<open>start_next\<close> inside \<^verbatim>\<open>pop\<close> as well; what
  holds only when \<^verbatim>\<open>pop\<close> has returned is \<^verbatim>\<open>settled\<close>.
\<close>

definition queue_inv :: "('e, 'r) queue \<Rightarrow> bool" where
  "queue_inv Q \<longleftrightarrow>
     q_active Q = running Q \<and>
     (\<forall>p. q_parallelism Q = Some p \<longrightarrow> q_active Q \<le> p) \<and>
     (case q_error Q of
        Some e \<Rightarrow> q_started Q = None \<and> q_remaining Q = None \<and>
          q_notified Q = (if q_await Q then [Failed e] else [])
      | None \<Rightarrow> q_remaining Q = Some (unfinished Q) \<and> Cleared \<notin> set (q_tasks Q) \<and>
          (\<exists>s \<le> length (q_tasks Q). q_started Q = Some s \<and>
             (\<forall>i < length (q_tasks Q). is_deferred (q_tasks Q ! i) \<longleftrightarrow> s \<le> i)) \<and>
          q_notified Q = (if q_await Q \<and> unfinished Q = 0 then [Finished (q_tasks Q)] else []))"

definition settled :: "('e, 'r) queue \<Rightarrow> bool" where
  "settled Q \<longleftrightarrow> \<not> q_popping Q \<and> \<not> may_start Q"

lemma positive_Some [simp]: "positive (Some n) \<longleftrightarrow> 0 < n" "\<not> positive None"
  by (auto simp: positive_def split: nat.split)

lemma filter_update_length:
  assumes "i < length xs"
  shows "length (filter P (xs[i := x])) + (if P (xs ! i) then 1 else 0) =
    length (filter P xs) + (if P x then 1 else 0)"
  using assms
proof (induction xs arbitrary: i)
  case (Cons y ys)
  then show ?case by (cases i) auto
qed simp

lemma filter_pos: "i < length xs \<Longrightarrow> P (xs ! i) \<Longrightarrow> 0 < length (filter P xs)"
  by (metis length_greater_0_conv filter_empty_conv nth_mem)

lemma inv_new: "queue_inv (new_queue p)"
  by (simp add: queue_inv_def new_queue_def running_def unfinished_def)

lemma inv_start:
  assumes "queue_inv Q" "may_start Q"
  shows "queue_inv (start (the (q_started Q)) Q)" and "q_error Q = None"
    and "the (q_started Q) < length (q_tasks Q)"
proof -
  obtain s where s: "q_started Q = Some s" "s < length (q_tasks Q)"
    using assms(2) by (auto simp: may_start_def split: option.splits)
  show "q_error Q = None" using assms(1) s by (auto simp: queue_inv_def split: option.splits)
  show "the (q_started Q) < length (q_tasks Q)" using s by simp
  have inv: "q_remaining Q = Some (unfinished Q)" "Cleared \<notin> set (q_tasks Q)"
    "\<forall>i < length (q_tasks Q). is_deferred (q_tasks Q ! i) \<longleftrightarrow> s \<le> i"
    "q_notified Q = (if q_await Q \<and> unfinished Q = 0 then [Finished (q_tasks Q)] else [])"
    using assms(1) s \<open>q_error Q = None\<close> by (auto simp: queue_inv_def)
  have d: "is_deferred (q_tasks Q ! s)" using inv(3) s(2) by simp
  then have nd: "\<not> is_done (q_tasks Q ! s)" "q_tasks Q ! s \<noteq> Running" by (auto simp: is_deferred_def split: slot.splits)
  have "running (start s Q) = running Q + 1"
    using filter_update_length [OF s(2), of "\<lambda>t. t = Running" Running] nd
    by (simp add: running_def start_def)
  moreover have u: "unfinished (start s Q) = unfinished Q" "0 < unfinished Q"
    using filter_update_length [OF s(2), of "\<lambda>t. \<not> is_done t" Running] nd
      filter_pos [OF s(2), of "\<lambda>t. \<not> is_done t"]
    by (simp_all add: unfinished_def start_def)
  moreover have "Cleared \<notin> set ((q_tasks Q)[s := Running])"
    using inv(2) set_update_subset_insert [of "q_tasks Q" s Running] by auto
  moreover have "is_deferred ((q_tasks Q)[s := Running] ! i) \<longleftrightarrow> Suc s \<le> i" if "i < length (q_tasks Q)" for i
    using inv(3) that by (cases "i = s") auto
  ultimately show "queue_inv (start (the (q_started Q)) Q)"
    using assms s inv(1,4) \<open>q_error Q = None\<close>
    by (auto simp: queue_inv_def start_def may_start_def Suc_le_eq split: option.splits)
qed

lemma inv_settle:
  assumes inv: "queue_inv Q" and i: "i < length (q_tasks Q)" "q_tasks Q ! i = Running"
  shows "queue_inv (settle i out Q)"
proof -
  have run: "running (Q\<lparr>q_tasks := (q_tasks Q)[i := t]\<rparr>) = running Q - 1" "0 < running Q" if "t \<noteq> Running" for t
    using filter_update_length [OF i(1), of "\<lambda>t. t = Running" t] i that
      filter_pos [OF i(1), of "\<lambda>t. t = Running"]
    by (simp_all add: running_def)
  have unf: "unfinished (Q\<lparr>q_tasks := (q_tasks Q)[i := Done r]\<rparr>) = unfinished Q - 1" "0 < unfinished Q" for r
    using filter_update_length [OF i(1), of "\<lambda>t. \<not> is_done t" "Done r"] i
      filter_pos [OF i(1), of "\<lambda>t. \<not> is_done t"]
    by (simp_all add: unfinished_def)
  have set: "Cleared \<notin> set ((q_tasks Q)[i := Done r])" if "Cleared \<notin> set (q_tasks Q)" for r
    using that set_update_subset_insert [of "q_tasks Q" i "Done r"] by auto
  have def: "is_deferred ((q_tasks Q)[i := Done r] ! j) = is_deferred (q_tasks Q ! j)"
    if "j < length (q_tasks Q)" for r j
    using i that by (cases "j = i") auto
  show ?thesis
  proof (cases "q_error Q")
    case (Some e)
    then show ?thesis
      using inv run [of Cleared] by (auto simp: settle_def Let_def queue_inv_def running_def)
  next
    case None
    show ?thesis
    proof (cases out)
      case (Inl e)
      then show ?thesis
        using inv None run [of Cleared] unf(2)
        by (auto simp: settle_def Let_def queue_inv_def running_def unfinished_def notify_def)
    next
      case (Inr r)
      then show ?thesis
        using inv None run [of "Done r"] unf(1) [of r] unf(2) set [of r] def [of _ r]
        by (auto simp: settle_def Let_def queue_inv_def running_def unfinished_def notify_def)
    qed
  qed
qed

lemma inv_start_next:
  assumes "queue_inv Q" "may_start Q"
  shows "queue_inv (start_next Q)"
  using inv_start [OF assms] inv_settle [OF inv_start(1) [OF assms]]
  by (auto simp: start_next_def Let_def start_def split: option.split)

lemma inv_pop: "queue_inv Q \<Longrightarrow> queue_inv (pop Q) \<and> settled (pop Q)"
proof (induction Q rule: pop.induct)
  case (1 Q)
  show ?case
  proof (cases "may_start Q")
    case True
    then have "queue_inv (pop (start_next Q)) \<and> settled (pop (start_next Q))"
      using 1(1) [OF True inv_start_next [OF 1(2) True]] by blast
    then show ?thesis using True by (subst (1 2) pop.simps) simp
  next
    case False
    have "queue_inv (Q\<lparr>q_popping := False\<rparr>)" "\<not> may_start (Q\<lparr>q_popping := False\<rparr>)"
      using 1(2) False
      by (auto simp: queue_inv_def running_def unfinished_def may_start_def split: option.splits)
    then show ?thesis using False by (subst (1 2) pop.simps) (simp add: settled_def)
  qed
qed

lemma popping_settle [simp]: "q_popping (settle i out Q) = q_popping Q"
  by (auto simp: settle_def Let_def notify_def split: sum.split)

lemma inv_callback:
  assumes "queue_inv Q" "settled Q" "callback i out Q = Some Q'"
  shows "queue_inv Q' \<and> settled Q'"
proof -
  define pops where "pops = (q_error Q = None \<and> (case out of Inl e \<Rightarrow> False | Inr r \<Rightarrow>
       positive (map_option (\<lambda>n. n - 1) (q_remaining Q))))"
  have i: "i < length (q_tasks Q)" "q_tasks Q ! i = Running"
    and Q': "Q' = (if pops \<and> \<not> q_popping (settle i out Q) then pop (settle i out Q) else settle i out Q)"
    using assms(3) by (auto simp: callback_def aget_def pops_def Let_def split: if_splits)
  have inv: "queue_inv (settle i out Q)" using inv_settle assms(1) i by blast
  show ?thesis
  proof (cases pops)
    case True
    then show ?thesis using inv_pop [OF inv] Q' assms(2) by (simp add: settled_def)
  next
    case False
    have "\<not> may_start (settle i out Q)"
    proof (cases "q_error (settle i out Q)")
      case (Some e)
      then show ?thesis using inv by (auto simp: queue_inv_def may_start_def)
    next
      case None
      then have err: "q_error Q = None" "\<exists>r. out = Inr r"
        by (auto simp: settle_def Let_def notify_def split: sum.splits if_splits)
      then have "q_remaining (settle i out Q) = map_option (\<lambda>n. n - 1) (q_remaining Q)"
        by (auto simp: settle_def Let_def notify_def)
      moreover have "q_remaining (settle i out Q) = Some (unfinished (settle i out Q))"
        using inv None by (simp add: queue_inv_def)
      moreover have "\<not> positive (map_option (\<lambda>n. n - 1) (q_remaining Q))"
        using False err by (auto simp: pops_def)
      ultimately have "unfinished (settle i out Q) = 0" by (metis positive_Some(1) neq0_conv)
      then have "\<not> is_deferred t" if "t \<in> set (q_tasks (settle i out Q))" for t
        using that by (auto simp: unfinished_def filter_empty_conv is_done_def is_deferred_def split: slot.splits)
      then show ?thesis
        using inv None by (auto simp: queue_inv_def may_start_def)
    qed
    then show ?thesis using inv Q' False assms(2) by (simp add: settled_def)
  qed
qed

lemma inv_defer:
  assumes "queue_inv Q" "settled Q" "defer_task truthy f Q = Some Q'"
  shows "queue_inv Q' \<and> settled Q'"
proof -
  let ?Q = "Q\<lparr>q_tasks := q_tasks Q @ [Deferred f], q_remaining := map_option Suc (q_remaining Q)\<rparr>"
  have await: "\<not> q_await Q" and Q': "Q' = Q \<or> Q' = pop ?Q"
    using assms(3) by (auto simp: defer_task_def split: if_splits)
  have counts: "running ?Q = running Q" "unfinished ?Q = Suc (unfinished Q)"
    by (simp_all add: running_def unfinished_def)
  have "queue_inv ?Q"
  proof (cases "q_error Q")
    case None
    then obtain s where s: "s \<le> length (q_tasks Q)" "q_started Q = Some s"
      "\<forall>i < length (q_tasks Q). is_deferred (q_tasks Q ! i) \<longleftrightarrow> s \<le> i"
      using assms(1) by (auto simp: queue_inv_def)
    then have "\<forall>i < Suc (length (q_tasks Q)). is_deferred ((q_tasks Q @ [Deferred f]) ! i) \<longleftrightarrow> s \<le> i"
      by (simp add: nth_append less_Suc_eq)
    then show ?thesis using assms(1) await None s(1,2) counts by (auto simp: queue_inv_def)
  next
    case (Some e)
    then show ?thesis using assms(1) counts by (auto simp: queue_inv_def)
  qed
  then show ?thesis using inv_pop [of ?Q] Q' assms(1,2) by blast
qed

lemma inv_await:
  assumes "queue_inv Q" "settled Q" "await all Q = Some Q'"
  shows "queue_inv Q' \<and> settled Q'"
proof -
  let ?Q = "Q\<lparr>q_await := True, q_all := all\<rparr>"
  have await: "\<not> q_await Q" and Q': "Q' = (if \<not> positive (q_remaining Q) then notify ?Q else ?Q)"
    using assms(3) by (auto simp: await_def Let_def split: if_splits)
  have counts: "running Q' = running Q" "unfinished Q' = unfinished Q" "may_start Q' = may_start Q"
    unfolding Q' by (simp_all add: running_def unfinished_def may_start_def notify_def split: option.split)
  have "queue_inv Q'"
  proof (cases "q_error Q")
    case (Some e)
    then have "Q' = notify ?Q" using assms(1) Q' by (simp add: queue_inv_def)
    then show ?thesis using assms(1) await counts Some by (auto simp: queue_inv_def notify_def)
  next
    case None
    then have inv: "q_remaining Q = Some (unfinished Q)" "q_notified Q = []"
      using assms(1) await by (simp_all add: queue_inv_def)
    then have "q_notified Q' = (if unfinished Q = 0 then [Finished (q_tasks Q)] else [])"
      using None by (simp add: Q' notify_def)
    moreover have "q_tasks Q' = q_tasks Q" "q_started Q' = q_started Q" "q_active Q' = q_active Q" "q_await Q'"
      "q_error Q' = q_error Q" "q_remaining Q' = q_remaining Q" "q_parallelism Q' = q_parallelism Q"
      by (simp_all add: Q' notify_def)
    ultimately show ?thesis using assms(1) None counts(1,2) unfolding queue_inv_def by force
  qed
  moreover have "settled Q'" using assms(2) counts(3) Q' by (simp add: settled_def notify_def)
  ultimately show ?thesis ..
qed

lemma parallelism_settle [simp]: "q_parallelism (settle i out Q) = q_parallelism Q"
  by (auto simp: settle_def Let_def notify_def split: sum.split)

lemma parallelism_pop [simp]: "q_parallelism (pop Q) = q_parallelism Q"
proof (induction Q rule: pop.induct)
  case (1 Q)
  have "q_parallelism (start_next Q) = q_parallelism Q"
    by (auto simp: start_next_def Let_def start_def split: option.split)
  with 1 show ?case by (subst pop.simps) simp
qed

lemma parallelism_step: "queue_step truthy Q Q' \<Longrightarrow> q_parallelism Q' = q_parallelism Q"
  by (auto simp: queue_step.simps defer_task_def await_def callback_def notify_def Let_def aget_def
      split: if_splits)

lemma reachable_inv:
  "queue_reachable truthy p Q \<Longrightarrow> queue_inv Q \<and> settled Q \<and> q_parallelism Q = p"
proof (induction rule: queue_reachable.induct)
  case reachable_new
  have "settled (new_queue p)" by (simp add: settled_def may_start_def new_queue_def)
  then show ?case using inv_new by (auto simp: new_queue_def)
next
  case (reachable_step Q Q')
  then have "queue_inv Q' \<and> settled Q'"
    using inv_defer inv_await inv_callback by (metis queue_step.cases)
  then show ?case using reachable_step parallelism_step by metis
qed

lemma pop_keeps:
  "queue_inv Q \<Longrightarrow> i < length (q_tasks Q) \<Longrightarrow> \<not> is_deferred (q_tasks Q ! i) \<Longrightarrow> q_tasks (pop Q) ! i = q_tasks Q ! i"
proof (induction Q rule: pop.induct)
  case (1 Q)
  show ?case
  proof (cases "may_start Q")
    case True
    note start = inv_start [OF 1(2) True]
    have "is_deferred (q_tasks Q ! the (q_started Q))"
      using 1(2) start by (auto simp: queue_inv_def)
    then have "the (q_started Q) \<noteq> i" using 1(4) by auto
    then have "q_tasks (start_next Q) ! i = q_tasks Q ! i"
      by (auto simp: start_next_def Let_def start_def settle_def notify_def split: option.split sum.split)
    then show ?thesis
      using 1(1) [OF True inv_start_next [OF 1(2) True]] 1(3,4) True by (subst pop.simps) simp
  qed (subst pop.simps, simp)
qed

lemma callback_slot:
  assumes "queue_inv Q" "callback i out Q = Some Q'"
  shows "q_tasks Q' ! i \<noteq> Running"
proof -
  have i: "i < length (q_tasks Q)" "q_tasks Q ! i = Running"
    and Q': "Q' = settle i out Q \<or> Q' = pop (settle i out Q)"
    using assms(2) by (auto simp: callback_def aget_def Let_def split: if_splits)
  have "q_tasks (settle i out Q) ! i \<noteq> Running \<and> \<not> is_deferred (q_tasks (settle i out Q) ! i)"
    using i(1) by (auto simp: settle_def Let_def notify_def split: sum.split)
  then show ?thesis using Q' pop_keeps [OF inv_settle [OF assms(1) i]] i(1) by auto
qed

text \<open>A run for the examples: two tasks at a time, one of three at once, one still running.\<close>

definition sample_queue :: "(nat, nat) queue" where
  "sample_queue = (case do {
     Q \<leftarrow> defer_task (\<lambda>e. e \<noteq> 0) None (new_queue (Some 1));
     Q \<leftarrow> defer_task (\<lambda>e. e \<noteq> 0) (Some (Inr 7)) Q;
     Q \<leftarrow> defer_task (\<lambda>e. e \<noteq> 0) None Q;
     Q \<leftarrow> await False Q;
     callback 0 (Inr 5) Q
   } of Some Q \<Rightarrow> Q | None \<Rightarrow> new_queue (Some 1))"

lemma sample_reachable: "queue_reachable (\<lambda>e. e \<noteq> 0) (Some 1) sample_queue"
  unfolding sample_queue_def
  by (auto split: option.split Option.bind_splits intro!: reachable_new)
    (meson reachable_new reachable_step step_defer step_await step_callback)

lemma sample_state:
  "q_tasks sample_queue = [Done 5, Done 7, Running]" "q_error sample_queue = None" "q_await sample_queue"
  "q_active sample_queue = 1"
  by code_simp+

section \<open>Properties\<close>

text \<open>
  C12: in every reachable state the queue counts its running tasks exactly, never runs more
  than the parallelism allows, and starts the tasks in the order they were deferred: a task
  waits only behind tasks that have been started.
\<close>

theorem queue_bounded:
  assumes "queue_reachable truthy (Some p) Q"
  shows "length (filter (\<lambda>t. t = Running) (q_tasks Q)) = q_active Q \<and> q_active Q \<le> p \<and>
    (q_error Q = None \<longrightarrow>
      (\<exists>s. \<forall>i < length (q_tasks Q). is_deferred (q_tasks Q ! i) \<longleftrightarrow> s \<le> i))"
proof -
  have inv: "queue_inv Q" "q_parallelism Q = Some p" using reachable_inv [OF assms] by simp_all
  have "\<exists>s. \<forall>i < length (q_tasks Q). is_deferred (q_tasks Q ! i) \<longleftrightarrow> s \<le> i" if "q_error Q = None"
    using inv(1) that unfolding queue_inv_def option.case by auto
  then show ?thesis using inv by (simp add: queue_inv_def running_def)
qed

theorem queue_bounded_witness:
  "length (filter (\<lambda>t. t = Running) (q_tasks sample_queue)) = 1 \<and> q_active sample_queue \<le> 1"
  using queue_bounded [OF sample_reachable] sample_state by simp

text \<open>
  C10: the function given to \<^verbatim>\<open>await\<close> is called at most once, never before it is given, and
  exactly when the queue is over: with the error as soon as one task has failed, otherwise
  with the results of all tasks in the order of the tasks, once the last of them has come.
\<close>

theorem await_notified_once:
  assumes "queue_reachable truthy p Q"
  shows "q_notified Q =
    (if \<not> q_await Q then []
     else case q_error Q of
       Some e \<Rightarrow> [Failed e]
     | None \<Rightarrow> if \<forall>t \<in> set (q_tasks Q). is_done t then [Finished (q_tasks Q)] else [])"
  using reachable_inv [OF assms]
  by (auto simp: queue_inv_def unfinished_def filter_empty_conv split: option.splits)

theorem await_notified_once_witness: "q_notified sample_queue = []"
  using await_notified_once [OF sample_reachable] sample_state by simp

text \<open>
  C11: the queue does not stall. While no task has failed, a task still waits only if as many
  tasks as the parallelism allows are running; with a parallelism of at least one, some task
  is running as long as one is unfinished.
\<close>

theorem queue_not_stalled:
  assumes "queue_reachable truthy p Q" "q_error Q = None" "t \<in> set (q_tasks Q)" "\<not> is_done t" "p \<noteq> Some 0"
  shows "Running \<in> set (q_tasks Q) \<and> (is_deferred t \<longrightarrow> p = Some (q_active Q))"
proof -
  have inv: "queue_inv Q" "settled Q" "q_parallelism Q = p" using reachable_inv [OF assms(1)] by auto
  obtain s where s: "q_started Q = Some s" "\<forall>i < length (q_tasks Q). is_deferred (q_tasks Q ! i) \<longleftrightarrow> s \<le> i"
    and clear: "Cleared \<notin> set (q_tasks Q)" and active: "q_active Q = running Q"
    using inv(1) assms(2) by (auto simp: queue_inv_def)
  have waits: "p = Some (q_active Q)" if "is_deferred t"
  proof -
    obtain i where "i < length (q_tasks Q)" "q_tasks Q ! i = t" using assms(3) by (auto simp: in_set_conv_nth)
    then have "s < length (q_tasks Q)" using s(2) that by auto
    then show ?thesis
      using inv s(1) by (auto simp: settled_def may_start_def queue_inv_def split: option.splits)
  qed
  have "Running \<in> set (q_tasks Q)"
  proof (cases "is_deferred t")
    case True
    then have "0 < running Q" using waits active assms(5) by auto
    then show ?thesis by (auto simp: running_def filter_empty_conv)
  next
    case False
    then have "t = Running" using assms(3,4) clear by (cases t) auto
    then show ?thesis using assms(3) by simp
  qed
  then show ?thesis using waits by blast
qed

theorem queue_not_stalled_witness: "Running \<in> set (q_tasks sample_queue)"
  using queue_not_stalled [OF sample_reachable, of Running] sample_state by simp

text \<open>
  C13: in a reachable state a callback that has been called throws when it is called again, and
  after \<^verbatim>\<open>await\<close> neither a further task nor a second \<^verbatim>\<open>await\<close> is accepted.
\<close>

theorem queue_misuse_throws:
  assumes "queue_reachable truthy p Q"
  shows "(callback i out Q = Some Q' \<longrightarrow> callback i out' Q' = None) \<and>
   (q_await Q \<longrightarrow> defer_task truthy f Q = None \<and> await all Q = None)"
proof -
  have "callback i out' Q' = None" if "callback i out Q = Some Q'"
    using callback_slot [OF _ that] reachable_inv [OF assms] by (auto simp: callback_def aget_def)
  then show ?thesis by (simp add: defer_task_def await_def)
qed

theorem queue_misuse_throws_witness: "await True sample_queue = None"
  using queue_misuse_throws [OF sample_reachable] sample_state by blast

end
