(* ===== verification/Js_Double.thy ===== *)
theory Js_Double
  imports Complex_Main "HOL-Library.Log_Nat" "HOL-Library.Code_Target_Numeral"
begin

text \<open>
  JavaScript numbers are binary64 floating-point numbers. Where a script divides or multiplies numbers that are not
  all exact, the model computes the rational result and rounds it with \<open>double\<close> to the nearest double, ties to the
  even significand. Only positive numbers below the overflow threshold occur; the result of a rounding is again a
  rational. The lemmas bound the relative error.
\<close>

section \<open>Rounding\<close>

definition round_even :: "rat \<Rightarrow> int" where
  "round_even y = (let n = \<lfloor>y\<rfloor>; r = y - of_int n in
     if r < 1 / 2 then n else if r > 1 / 2 then n + 1 else if even n then n else n + 1)"

definition exponent :: "rat \<Rightarrow> int" where
  \<comment> \<open>the binary exponent of a positive number\<close>
  "exponent x = (if x \<ge> 1 then int (floorlog 2 (nat \<lfloor>x\<rfloor>)) - 1 else - int (floorlog 2 (nat \<lceil>1 / x\<rceil> - 1)))"

definition double :: "rat \<Rightarrow> rat" where
  \<comment> \<open>53 bits of precision, and subnormal numbers below \<open>2 ^ -1022\<close>\<close>
  "double x = (if x \<le> 0 then 0 else
     let e = max (exponent x) (- 1022) - 52; ulp = (if e \<ge> 0 then 2 ^ nat e else 1 / 2 ^ nat (- e)) in
     of_int (round_even (x / ulp)) * ulp)"

section \<open>The error of a rounding\<close>

lemma round_even_error: "\<bar>of_int (round_even y) - y\<bar> \<le> 1 / 2"
proof -
  have "of_int \<lfloor>y\<rfloor> \<le> y" "y < of_int \<lfloor>y\<rfloor> + 1" by linarith+
  then show ?thesis unfolding round_even_def Let_def by (auto simp: abs_le_iff)
qed

lemma round_even_ge: "of_int n \<le> y \<Longrightarrow> n \<le> round_even y"
proof -
  assume "of_int n \<le> y"
  then have "n \<le> \<lfloor>y\<rfloor>" by (simp add: le_floor_iff)
  then show ?thesis by (auto simp: round_even_def Let_def)
qed

lemma exponent_ge_1:
  assumes "1 \<le> x"
  shows "2 ^ nat (exponent x) \<le> x" "x < 2 ^ (nat (exponent x) + 1)" "0 \<le> exponent x"
proof -
  define n where "n = nat \<lfloor>x\<rfloor>"
  have n: "0 < n" using assms by (simp add: n_def)
  then have l: "0 < floorlog 2 n" by (simp add: floorlog_def)
  have b: "2 ^ (floorlog 2 n - 1) \<le> n" "n < 2 ^ floorlog 2 n" using floorlog_bounds [of n 2] n by simp_all
  have e: "nat (exponent x) = floorlog 2 n - 1" "nat (exponent x) + 1 = floorlog 2 n" "0 \<le> exponent x"
    using assms l by (simp_all add: exponent_def n_def)
  have "0 \<le> \<lfloor>x\<rfloor>" using assms by simp
  then have "of_nat n = (of_int \<lfloor>x\<rfloor> :: rat)" by (simp add: n_def of_nat_nat)
  then have x: "of_nat n \<le> x" "x < of_nat n + 1" by linarith+
  have "of_nat (2 ^ (floorlog 2 n - 1)) \<le> x" using b(1) x(1) by (meson of_nat_le_iff order.trans)
  then show "2 ^ nat (exponent x) \<le> x" unfolding e(1) by simp
  have "n + 1 \<le> 2 ^ floorlog 2 n" using b(2) by simp
  then have "of_nat (n + 1) \<le> (of_nat (2 ^ floorlog 2 n) :: rat)" by (rule of_nat_mono)
  then have "x < of_nat (2 ^ floorlog 2 n)" using x(2) unfolding of_nat_add of_nat_1 by (rule less_le_trans [rotated])
  then show "x < 2 ^ (nat (exponent x) + 1)" unfolding e(2) by simp
  show "0 \<le> exponent x" by (rule e(3))
qed

lemma double_ge_1:
  assumes "1 \<le> x"
  shows "\<bar>double x - x\<bar> \<le> x / 2 ^ 53" "1 \<le> double x"
proof -
  note e = exponent_ge_1 [OF assms]
  define k where "k = nat (exponent x)"
  define ulp :: rat where "ulp = (if exponent x - 52 \<ge> 0 then 2 ^ nat (exponent x - 52) else 1 / 2 ^ nat (- (exponent x - 52)))"
  have ulp: "ulp * 2 ^ 52 = 2 ^ k"
  proof (cases "exponent x - 52 \<ge> 0")
    case True
    then have "k = nat (exponent x - 52) + 52" by (simp add: k_def)
    then show ?thesis using True by (simp add: ulp_def power_add)
  next
    case False
    then have "52 = k + nat (- (exponent x - 52))" using e(3) by (simp add: k_def)
    then have "(2 :: rat) ^ 52 = 2 ^ k * 2 ^ nat (- (exponent x - 52))" by (metis power_add)
    then show ?thesis using False by (simp add: ulp_def divide_eq_eq)
  qed
  have pos: "0 < ulp" by (simp add: ulp_def)
  have d: "double x = of_int (round_even (x / ulp)) * ulp"
    using assms e(3) by (simp add: double_def Let_def ulp_def max_def)
  have "double x - x = (of_int (round_even (x / ulp)) - x / ulp) * ulp" using pos by (simp add: d left_diff_distrib)
  then have "\<bar>double x - x\<bar> = \<bar>of_int (round_even (x / ulp)) - x / ulp\<bar> * ulp" using pos by (simp add: abs_mult)
  also have "\<dots> \<le> 1 / 2 * ulp" using round_even_error pos by (intro mult_right_mono) auto
  also have "\<dots> = 2 ^ k / 2 ^ 53" using ulp by (simp add: field_simps)
  also have "\<dots> \<le> x / 2 ^ 53" using e(1) by (simp add: k_def divide_right_mono)
  finally show "\<bar>double x - x\<bar> \<le> x / 2 ^ 53" .
  have "of_int (2 ^ 52) \<le> x / ulp" using e(1) ulp pos by (simp add: k_def le_divide_eq mult.commute)
  then have "(2 :: int) ^ 52 \<le> round_even (x / ulp)" by (rule round_even_ge)
  then have "(2 :: rat) ^ 52 \<le> of_int (round_even (x / ulp))" by (metis of_int_le_iff of_int_numeral of_int_power)
  then have "2 ^ 52 * ulp \<le> double x" unfolding d using pos by (intro mult_right_mono) auto
  then have "2 ^ k \<le> double x" using ulp by (simp add: mult.commute)
  then show "1 \<le> double x" by (rule order.trans [OF one_le_power, rotated]) simp
qed

lemma double_le:
  assumes "2 \<le> double x"
  shows "1 \<le> x" "double x \<le> 2 * x"
proof -
  show x: "1 \<le> x"
  proof (rule ccontr)
    assume "\<not> 1 \<le> x"
    then have x1: "x < 1" by simp
    have x0: "0 < x" using assms by (simp add: double_def split: if_splits)
    define e where "e = max (exponent x) (- 1022) - 52"
    define ulp :: rat where "ulp = 1 / 2 ^ nat (- e)"
    have "e < 0" using x1 by (simp add: e_def exponent_def)
    then have d: "double x = of_int (round_even (x / ulp)) * ulp"
      using x0 by (simp add: double_def Let_def e_def [symmetric] ulp_def)
    have ulp: "0 < ulp" "ulp \<le> 1" by (simp_all add: ulp_def)
    have "of_int (round_even (x / ulp)) \<le> x / ulp + 1 / 2" using round_even_error [of "x / ulp"] unfolding abs_le_iff by linarith
    then have "double x \<le> (x / ulp + 1 / 2) * ulp" unfolding d using ulp(1) by (intro mult_right_mono) auto
    then have "double x \<le> x + ulp / 2" using ulp(1) by (simp add: distrib_right)
    then show False using x1 ulp(2) assms by simp
  qed
  have "x / 2 ^ 53 \<le> x" using x by (simp add: divide_le_eq)
  then show "double x \<le> 2 * x" using double_ge_1(1) [OF x] unfolding abs_le_iff by linarith
qed

end
