(* ===== verification/Js_String.thy ===== *)
theory Js_String
  imports Js_Prelude
begin

text \<open>
  Strings as the browser code builds and reads them: decimal numerals, joining and cutting,
  and \<^verbatim>\<open>encodeURI\<close>. A character is a code unit below 256; code units above that do not
  occur in the modelled strings. The lemmas are the round trips between numbers and numerals.
\<close>

section \<open>Definitions\<close>

subsection \<open>Decimal numerals\<close>

definition digit_char :: "nat \<Rightarrow> char" where
  "digit_char d = char_of (48 + d)"

fun nat_str :: "nat \<Rightarrow> string" where
  \<comment> \<open>\<^verbatim>\<open>String(n)\<close> of an integer that is not negative\<close>
  "nat_str n = (if n < 10 then [digit_char n] else nat_str (n div 10) @ [digit_char (n mod 10)])"

declare nat_str.simps [simp del]

definition int_str :: "int \<Rightarrow> string" where
  "int_str i = (if i < 0 then ''-'' @ nat_str (nat (- i)) else nat_str (nat i))"

definition digit_value :: "char \<Rightarrow> nat option" where
  "digit_value c = (let v = of_char c :: nat in if 48 \<le> v \<and> v \<le> 57 then Some (v - 48) else None)"

fun digits_value :: "nat \<Rightarrow> string \<Rightarrow> nat option" where
  \<comment> \<open>the number of a string of digits, after the digits read so far\<close>
  "digits_value acc [] = Some acc"
| "digits_value acc (c # cs) = do { d \<leftarrow> digit_value c; digits_value (10 * acc + d) cs }"

definition is_digits :: "string \<Rightarrow> bool" where
  "is_digits s = list_all (\<lambda>c. digit_value c \<noteq> None) s"

definition number_of :: "string \<Rightarrow> int option" where
  \<comment> \<open>\<^verbatim>\<open>Number(s)\<close> of an integer numeral, \<^term>\<open>None\<close> for \<^verbatim>\<open>NaN\<close>\<close>
  "number_of s = (case s of
       [] \<Rightarrow> Some 0
     | c # cs \<Rightarrow>
         if c = CHR ''-'' \<and> cs \<noteq> [] then map_option (\<lambda>n. - int n) (digits_value 0 cs)
         else if c = CHR ''+'' \<and> cs \<noteq> [] then map_option int (digits_value 0 cs)
         else map_option int (digits_value 0 s))"

subsection \<open>Joining and cutting\<close>

fun join :: "string \<Rightarrow> string list \<Rightarrow> string" where
  "join sep [] = []"
| "join sep [s] = s"
| "join sep (s # t # ss) = s @ sep @ join sep (t # ss)"

definition substring :: "nat \<Rightarrow> nat \<Rightarrow> string \<Rightarrow> string" where
  \<comment> \<open>\<^verbatim>\<open>s.substring(a, b)\<close> for \<open>a \<le> b\<close>; positions past the end are cut\<close>
  "substring a b s = take (b - a) (drop a s)"

definition substr :: "nat \<Rightarrow> nat \<Rightarrow> string \<Rightarrow> string" where
  "substr a n s = take n (drop a s)"

definition slice_last :: "nat \<Rightarrow> string \<Rightarrow> string" where
  \<comment> \<open>\<^verbatim>\<open>s.slice(-n)\<close>\<close>
  "slice_last n s = drop (length s - n) s"

fun starts_with :: "string \<Rightarrow> string \<Rightarrow> bool" where
  "starts_with [] s = True"
| "starts_with (c # cs) [] = False"
| "starts_with (c # cs) (d # ds) = (c = d \<and> starts_with cs ds)"

fun replace_first :: "string \<Rightarrow> string \<Rightarrow> string \<Rightarrow> string" where
  \<comment> \<open>\<^verbatim>\<open>s.replace(p, r)\<close> with a string pattern: the first occurrence only\<close>
  "replace_first p r [] = (if p = [] then r else [])"
| "replace_first p r (c # cs) =
     (if starts_with p (c # cs) then r @ drop (length p) (c # cs) else c # replace_first p r cs)"

subsection \<open>encodeURI\<close>

definition uri_plain :: string where
  \<comment> \<open>the characters that \<^verbatim>\<open>encodeURI\<close> leaves as they are\<close>
  "uri_plain = ''ABCDEFGHIJKLMNOPQRSTUVWXYZabcdefghijklmnopqrstuvwxyz0123456789-_.!~*();/?:@&=+$,#''
     @ [CHR 0x27]"

definition hex_char :: "nat \<Rightarrow> char" where
  "hex_char d = (if d < 10 then char_of (48 + d) else char_of (55 + d))"

definition percent :: "nat \<Rightarrow> string" where
  "percent b = [CHR ''%'', hex_char (b div 16), hex_char (b mod 16)]"

definition encode_char :: "char \<Rightarrow> string" where
  \<comment> \<open>the percent escapes of the UTF-8 bytes: one byte below 128, two bytes below 2048\<close>
  "encode_char c =
     (let v = of_char c :: nat in
      if c \<in> set uri_plain then [c]
      else if v < 128 then percent v
      else percent (192 + v div 64) @ percent (128 + v mod 64))"

definition encodeURI :: "string \<Rightarrow> string" where
  "encodeURI s = concat (map encode_char s)"

section \<open>Numerals\<close>

lemma digit_value_digit [simp]: "d < 10 \<Longrightarrow> digit_value (digit_char d) = Some d"
  by (simp add: digit_value_def digit_char_def Let_def)

lemma digits_value_append:
  "digits_value acc (s @ t) = do { n \<leftarrow> digits_value acc s; digits_value n t }"
  by (induction s arbitrary: acc) (auto split: Option.bind_splits)

lemma digits_value_nat_str: "digits_value acc (nat_str n) = Some (acc * 10 ^ length (nat_str n) + n)"
proof (induction n arbitrary: acc rule: nat_str.induct)
  case (1 n)
  show ?case
  proof (cases "n < 10")
    case True
    then show ?thesis by (simp add: nat_str.simps [of n])
  next
    case False
    have "digits_value acc (nat_str n) =
        digits_value (acc * 10 ^ length (nat_str (n div 10)) + n div 10) [digit_char (n mod 10)]"
      using False 1 [OF False, of acc] by (simp add: nat_str.simps [of n] digits_value_append)
    then show ?thesis using False
      by (simp add: nat_str.simps [of n] algebra_simps)
  qed
qed

lemma digits_value_zeros [simp]: "digits_value 0 (replicate k (CHR ''0'') @ s) = digits_value 0 s"
  by (induction k) (auto simp: digit_value_def)

lemma nat_str_not_Nil [simp]: "nat_str n \<noteq> []"
  by (simp add: nat_str.simps [of n])

lemma nat_str_value [simp]: "digits_value 0 (nat_str n) = Some n"
  using digits_value_nat_str [of 0 n] by simp

lemma nat_str_inject [simp]: "nat_str m = nat_str n \<longleftrightarrow> m = n"
  using nat_str_value by (metis option.inject)

lemma is_digits_digits_value: "is_digits s \<longleftrightarrow> digits_value acc s \<noteq> None"
  by (induction s arbitrary: acc) (auto simp: is_digits_def split: Option.bind_splits)

lemma nat_str_digits [simp]: "is_digits (nat_str n)"
  using is_digits_digits_value [of "nat_str n" 0] by simp

lemma is_digits_Nil [simp]: "is_digits []"
  by (simp add: is_digits_def)

lemma is_digits_append [simp]: "is_digits (s @ t) \<longleftrightarrow> is_digits s \<and> is_digits t"
  by (simp add: is_digits_def)

lemma is_digits_Cons [simp]: "is_digits (c # t) \<longleftrightarrow> digit_value c \<noteq> None \<and> is_digits t"
  by (simp add: is_digits_def)

lemma nat_str_length: "length (nat_str n) \<le> k \<longleftrightarrow> n < 10 ^ k" if "0 < k"
  using that
proof (induction n arbitrary: k rule: nat_str.induct)
  case (1 n)
  show ?case
  proof (cases "n < 10")
    case True
    have "(10 :: nat) ^ 1 \<le> 10 ^ k" using 1(2) by (intro power_increasing) auto
    then show ?thesis using True 1(2) by (simp add: nat_str.simps [of n])
  next
    case False
    then have len: "length (nat_str n) = Suc (length (nat_str (n div 10)))" by (simp add: nat_str.simps [of n])
    show ?thesis
    proof (cases "k = 1")
      case True
      have "0 < length (nat_str (n div 10))" by simp
      then show ?thesis using False True len by simp
    next
      case k: False
      then obtain j where j: "k = Suc j" "0 < j" using 1(2) by (cases k) auto
      have "n < 10 * 10 ^ j \<longleftrightarrow> n div 10 < 10 ^ j" by (simp add: less_mult_imp_div_less div_less_iff_less_mult mult.commute)
      then show ?thesis using 1(1) [OF False j(2)] len j(1) by simp
    qed
  qed
qed

lemma first_digit: "digit_value (hd (nat_str n)) \<noteq> None"
  using nat_str_digits [of n] by (cases "nat_str n") auto

lemma sign_not_digit [simp]: "digit_value (CHR ''-'') = None" "digit_value (CHR ''+'') = None"
  "digit_value (CHR ''T'') = None" "digit_value (CHR '':'') = None" "digit_value (CHR ''.'') = None"
  "digit_value (CHR ''Z'') = None"
  by (simp_all add: digit_value_def)

lemma number_of_digits: "is_digits s \<Longrightarrow> number_of s = map_option int (digits_value 0 s)"
  by (cases s) (auto simp: number_of_def)

lemma number_of_int_str [simp]: "number_of (int_str i) = Some i"
proof (cases "i < 0")
  case True
  then show ?thesis by (simp add: int_str_def number_of_def)
next
  case False
  then show ?thesis by (simp add: int_str_def number_of_digits)
qed

lemma length_substring [simp]: "length (substring a b s) \<le> b - a"
  by (simp add: substring_def)

lemma starts_with_append [simp]: "starts_with p (p @ s)"
  by (induction p) auto

lemma starts_with_iff: "starts_with p s \<longleftrightarrow> (\<exists>t. s = p @ t)"
  by (induction p s rule: starts_with.induct) auto

lemma substring_prefix: "substring 0 (length p) s = p \<longleftrightarrow> starts_with p s"
  by (auto simp: substring_def starts_with_iff) (metis append_take_drop_id)

end
