(* ===== verification/D3_Helpers.thy ===== *)
theory D3_Helpers
  imports Js_Double Js_String
begin

text \<open>
  \<^verbatim>\<open>d3_helpers.js\<close>: the formatting helpers that every page uses. The formatters that
  \<^verbatim>\<open>d3.format\<close> and \<^verbatim>\<open>d3.time.format.utc\<close> return are a parameter, a record of functions,
  and so is \<^verbatim>\<open>Date.parse\<close>; a date is the result of \<^verbatim>\<open>Date.parse\<close>, \<^term>\<open>None\<close> for
  \<^verbatim>\<open>NaN\<close>. A property that the JSON object lacks is \<^term>\<open>None\<close>.

  Characters outside Latin-1 appear as the bytes of the UTF-8 source file.
\<close>

section \<open>Definitions\<close>

type_synonym date = "int option"

record d3_formats =
  formatDate :: "date \<Rightarrow> string"
  formatMonthYear :: "date \<Rightarrow> string"
  formatYear :: "date \<Rightarrow> string"
  formatTime :: "date \<Rightarrow> string"
  formatWeek :: "date \<Rightarrow> nat"
  formatHour :: "date \<Rightarrow> nat"
  formatNumber :: "int \<Rightarrow> string"
  formatFixed :: "int option \<Rightarrow> string"
  formatPercent :: "rat \<Rightarrow> string"

definition numberWithDelimiter :: "d3_formats \<Rightarrow> int \<Rightarrow> string option" where
  "numberWithDelimiter d3 number = (if number \<noteq> 0 then Some (formatFixed d3 (Some number)) else None)"

subsection \<open>File sizes\<close>

definition toFixed1 :: "rat \<Rightarrow> string" where
  \<comment> \<open>\<^verbatim>\<open>x.toFixed(1)\<close> of a double that is not negative: the tenth nearest to its exact value, halves upwards\<close>
  "toFixed1 x = (let n = nat \<lfloor>10 * x + 1 / 2\<rfloor> in nat_str (n div 10) @ ''.'' @ nat_str (n mod 10))"

function human_loop :: "rat \<Rightarrow> nat \<Rightarrow> rat \<times> nat" where
  \<comment> \<open>the \<^verbatim>\<open>do ... while\<close> loop, which divides doubles; \<open>u\<close> is the next index into \<^verbatim>\<open>units\<close>\<close>
  "human_loop bytes u =
     (let bytes = double (bytes / 1000) in if bytes \<ge> 1000 then human_loop bytes (u + 1) else (bytes, u))"
  by auto
termination
proof (relation "measure (\<lambda>(bytes, u). nat \<lfloor>bytes\<rfloor>)")
  fix bytes x :: rat and u :: nat
  assume x: "x = double (bytes / 1000)" "1000 \<le> x"
  then have "x \<le> 2 * (bytes / 1000)" using double_le(2) [of "bytes / 1000"] by simp
  then have "x + 1 \<le> bytes" using x(2) by simp
  then have "\<lfloor>x + 1\<rfloor> \<le> \<lfloor>bytes\<rfloor>" by (rule floor_mono)
  then have "\<lfloor>x\<rfloor> < \<lfloor>bytes\<rfloor>" by linarith
  moreover have "0 \<le> \<lfloor>x\<rfloor>" using x(2) by simp
  ultimately have "nat \<lfloor>x\<rfloor> < nat \<lfloor>bytes\<rfloor>" by (simp only: nat_less_eq_zless)
  then show "((x, u + 1), bytes, u) \<in> measure (\<lambda>(bytes, u). nat \<lfloor>bytes\<rfloor>)" by (simp only: in_measure split)
qed simp

declare human_loop.simps [simp del]

definition units :: "string list" where
  "units = [''KB'', ''MB'', ''GB'', ''TB'', ''PB'']"

definition js_at :: "string list \<Rightarrow> nat \<Rightarrow> string" where
  \<comment> \<open>an array element as a part of a string\<close>
  "js_at xs i = (if i < length xs then xs ! i else ''undefined'')"

definition numberToHumanSize :: "nat \<Rightarrow> string" where
  "numberToHumanSize bytes =
     (if bytes < 1000 then nat_str bytes @ '' B''
      else let (b, u) = human_loop (of_nat bytes) 0 in toFixed1 b @ '' '' @ js_at units u)"

subsection \<open>Dates\<close>

datatype part = Num int | Str string
  \<comment> \<open>an element of \<^verbatim>\<open>date-parts\<close>: a number, or the string that the function leaves there\<close>

fun part_number :: "part \<Rightarrow> int option" where
  "part_number (Num i) = Some i"
| "part_number (Str s) = number_of s"

fun part_string :: "part \<Rightarrow> string" where
  "part_string (Num i) = int_str i"
| "part_string (Str s) = s"

definition pad_part :: "part \<Rightarrow> string" where
  "pad_part p = (case part_number p of
       Some i \<Rightarrow> if i < 10 then ''0'' @ part_string p else part_string p
     | None \<Rightarrow> part_string p)"

definition datePartsToDate :: "(string \<Rightarrow> date) \<Rightarrow> part list \<Rightarrow> date option \<times> part list" where
  \<comment> \<open>the date, \<^term>\<open>None\<close> for \<^verbatim>\<open>null\<close>, and the array that the loop has changed in place\<close>
  "datePartsToDate parse date_parts =
     (if length date_parts = 0 \<or> length date_parts > 3 then (None, date_parts)
      else let strs = map pad_part date_parts in
        (Some (parse (join ''-'' strs @ ''T12:00'')), map Str strs))"

definition formattedDate :: "d3_formats \<Rightarrow> date option \<Rightarrow> nat \<Rightarrow> string option" where
  \<comment> \<open>\<^term>\<open>None\<close> where the switch has no case\<close>
  "formattedDate d3 date len =
     (case date of
        None \<Rightarrow> None
      | Some t \<Rightarrow>
          if len = 1 then Some (formatYear d3 t)
          else if len = 2 then Some (formatMonthYear d3 t)
          else if len = 3 then Some (formatDate d3 t)
          else None)"

definition js_string :: "string option \<Rightarrow> string" where
  "js_string x = (case x of Some s \<Rightarrow> s | None \<Rightarrow> ''undefined'')"

subsection \<open>Pagination\<close>

record bootpag_options =
  bp_total :: int
  bp_page :: int
  bp_maxVisible :: nat
  bp_href :: string
  bp_leaps :: bool
  bp_prev :: "string option"
  bp_next :: "string option"

definition laquo :: string where "laquo = [CHR 0xC2, CHR 0xAB]"
definition raquo :: string where "raquo = [CHR 0xC2, CHR 0xBB]"

definition paginate :: "int option \<Rightarrow> int \<Rightarrow> string \<Rightarrow> bootpag_options option" where
  \<comment> \<open>\<open>page\<close> is \<^term>\<open>None\<close> for the empty string; the result is the call of \<^verbatim>\<open>bootpag\<close>, if any\<close>
  "paginate page total_pages href =
     (case page of
        None \<Rightarrow> None
      | Some p \<Rightarrow>
          if total_pages > 1 then
            Some \<lparr>bp_total = total_pages, bp_page = p, bp_maxVisible = 10, bp_href = href, bp_leaps = False,
                  bp_prev = (if p > 1 then Some laquo else None),
                  bp_next = (if p < total_pages then Some raquo else None)\<rparr>
          else None)"

subsection \<open>Works\<close>

definition work_prefixes :: "string list" where
  "work_prefixes = [''http://doi.org/'', ''http://www.ncbi.nlm.nih.gov/pubmed/'',
     ''http://www.ncbi.nlm.nih.gov/pmc/works/PMC'', ''http://www.ncbi.nlm.nih.gov/pmc/works/PMC'',
     ''http://arxiv.org/abs/'', ''http://n2t.net/'']"

definition strip_scheme :: "string \<Rightarrow> string" where
  \<comment> \<open>\<^verbatim>\<open>id.replace(/^https?:\/\//, '')\<close>\<close>
  "strip_scheme s =
     (if starts_with ''http://'' s then drop 7 s
      else if starts_with ''https://'' s then drop 8 s else s)"

definition pathForWork :: "string option \<Rightarrow> string" where
  "pathForWork i =
     (case i of
        None \<Rightarrow> ''''
      | Some s \<Rightarrow>
          if \<exists>p \<in> set work_prefixes. substring 0 (length p) s = p then strip_scheme s else s)"

type_synonym events = "string \<Rightarrow> int option"

definition event_count :: "events \<Rightarrow> string \<Rightarrow> int" where
  \<comment> \<open>\<^verbatim>\<open>work.events[name] || 0\<close>\<close>
  "event_count ev name = (case ev name of Some n \<Rightarrow> n | None \<Rightarrow> 0)"

record signposts =
  viewed :: int
  cited :: "int option"
  saved :: int
  discussed :: int

definition signpostsFromWork :: "events \<Rightarrow> signposts" where
  "signpostsFromWork ev = \<lparr>
     viewed = event_count ev ''counter'' + event_count ev ''pmc'',
     cited = ev ''crossref'',
     saved = event_count ev ''citeulike'' + event_count ev ''mendeley'',
     discussed = event_count ev ''facebook'' + event_count ev ''twitter'' + event_count ev ''twitter_search''\<rparr>"

record source =
  s_id :: string
  s_title :: string
  s_group_id :: string

record relation_type =
  rt_id :: string
  rt_inverse_title :: string

fun find_first :: "('a \<Rightarrow> bool) \<Rightarrow> 'a list \<Rightarrow> 'a option" where
  \<comment> \<open>\<^verbatim>\<open>xs.filter(P)[0]\<close>\<close>
  "find_first P [] = None"
| "find_first P (x # xs) = (if P x then Some x else find_first P xs)"

datatype js_result = Js_string string | Js_array "string list"

definition bullet :: string where
  "bullet = [CHR '' '', CHR 0xE2, CHR 0x80, CHR 0xA2, CHR '' '']"

definition signpost_parts :: "d3_formats \<Rightarrow> signposts \<Rightarrow> string list" where
  "signpost_parts d3 sp =
     (if viewed sp > 0 then [''Viewed: '' @ formatFixed d3 (Some (viewed sp))] else []) @
     (case cited sp of Some c \<Rightarrow> if c > 0 then [''Cited: '' @ formatFixed d3 (Some c)] else [] | None \<Rightarrow> []) @
     (if saved sp > 0 then [''Saved: '' @ formatFixed d3 (Some (saved sp))] else []) @
     (if discussed sp > 0 then [''Discussed: '' @ formatFixed d3 (Some (discussed sp))] else [])"

definition signpostsToString ::
  "d3_formats \<Rightarrow> events \<Rightarrow> source list \<Rightarrow> string option \<Rightarrow> string option \<Rightarrow> js_result" where
  "signpostsToString d3 ev sources source_id sort_by =
     (let name = (case source_id of Some s \<Rightarrow> if s \<noteq> '''' then s else (case sort_by of Some t \<Rightarrow> t | None \<Rightarrow> '''')
                  | None \<Rightarrow> (case sort_by of Some t \<Rightarrow> t | None \<Rightarrow> ''''));
          source = (if name \<noteq> '''' then find_first (\<lambda>d. s_id d = name) sources else None);
          a = (case source of Some s \<Rightarrow> [s_title s @ '': '' @ formatFixed d3 (ev name)] | None \<Rightarrow> []);
          b = signpost_parts d3 (signpostsFromWork ev) in
      if length b > 0 then Js_string (join '' | '' (a @ [join bullet b]))
      else if length a > 0 then Js_array a
      else Js_string '''')"

definition relationToString ::
  "string \<Rightarrow> string \<Rightarrow> source list \<Rightarrow> relation_type list \<Rightarrow> string list" where
  "relationToString source_id relation_type_id sources relation_types =
     (case find_first (\<lambda>d. s_id d = source_id) sources of
        None \<Rightarrow> []
      | Some source \<Rightarrow>
          (case find_first (\<lambda>d. rt_id d = relation_type_id) relation_types of
             None \<Rightarrow> []
           | Some relation_type \<Rightarrow> [rt_inverse_title relation_type, '' via '' @ s_title source]))"

definition formattedAuthor :: "(string \<times> string) list \<Rightarrow> string" where
  "formattedAuthor author =
     (let names = map (\<lambda>(given, family). given @ '' '' @ family) author; n = length names in
      if n \<le> 2 then join '' & '' names
      else if n \<le> 4 then join '', '' (take (n - 1) names) @ '' & '' @ names ! (n - 1)
      else join '', '' (take 3 names) @ '', <em>et al</em>'')"

definition event_types :: "(string \<times> string) list" where
  "event_types = [(''article-journal'', ''Journal article''), (''article-newspaper'', ''News''),
     (''post'', ''Blog post''), (''webpage'', ''Web page''), (''broadcast'', ''Podcast/Video''),
     (''personal_communication'', ''Personal communication'')]"

definition formattedType :: "string \<Rightarrow> string" where
  "formattedType t = (case map_of event_types t of Some s \<Rightarrow> s | None \<Rightarrow> ''Other'')"

section \<open>File sizes\<close>

definition rel_error :: rat where
  \<comment> \<open>of one rounding\<close>
  "rel_error = 1 / 2 ^ 53"

lemma double_bounds:
  assumes "1 \<le> x"
  shows "x * (1 - rel_error) \<le> double x" "double x \<le> x * (1 + rel_error)"
proof -
  have "\<bar>double x - x\<bar> \<le> x * rel_error" using double_ge_1(1) [OF assms] by (simp add: rel_error_def)
  then show "x * (1 - rel_error) \<le> double x" "double x \<le> x * (1 + rel_error)"
    unfolding abs_le_iff right_diff_distrib distrib_left by linarith+
qed

lemma human_loop_correct:
  assumes "1000 \<le> x"
  shows "\<exists>k v. human_loop x u = (v, u + k) \<and> 1 \<le> v \<and> v < 1000 \<and>
    x * (1 - rel_error) ^ Suc k \<le> v * 1000 ^ Suc k \<and> v * 1000 ^ Suc k \<le> x * (1 + rel_error) ^ Suc k"
  using assms
proof (induction x u rule: human_loop.induct)
  case (1 x u)
  have x: "1 \<le> x / 1000" using 1(2) by simp
  let ?y = "double (x / 1000)"
  have y: "x * (1 - rel_error) \<le> ?y * 1000" "?y * 1000 \<le> x * (1 + rel_error)" "1 \<le> ?y"
    using double_bounds [OF x] double_ge_1(2) [OF x] by simp_all
  show ?case
  proof (cases "?y \<ge> 1000")
    case False
    then show ?thesis using y by (intro exI [of _ 0] exI [of _ ?y]) (simp add: human_loop.simps [of x])
  next
    case True
    then obtain k v where k: "human_loop ?y (u + 1) = (v, u + 1 + k)" "1 \<le> v" "v < 1000"
      "?y * (1 - rel_error) ^ Suc k \<le> v * 1000 ^ Suc k" "v * 1000 ^ Suc k \<le> ?y * (1 + rel_error) ^ Suc k"
      using 1(1) [OF refl True True] by blast
    define P Q T where "P = (1 - rel_error) ^ Suc k" "Q = (1 + rel_error) ^ Suc k" "T = (1000 :: rat) ^ Suc k"
    have "x * (1 - rel_error) * P \<le> ?y * 1000 * P" using y(1) by (rule mult_right_mono) (simp add: P_Q_T_def rel_error_def)
    moreover have "?y * 1000 * Q \<le> x * (1 + rel_error) * Q" using y(2) by (rule mult_right_mono) (simp add: P_Q_T_def rel_error_def)
    moreover have "?y * 1000 * P \<le> v * T * 1000" "v * T * 1000 \<le> ?y * 1000 * Q" using k(4,5) unfolding P_Q_T_def [symmetric] by linarith+
    ultimately have "x * (1 - rel_error) * P \<le> v * T * 1000" "v * T * 1000 \<le> x * (1 + rel_error) * Q" by linarith+
    moreover have "x * (1 - rel_error) ^ Suc (Suc k) = x * (1 - rel_error) * P" "x * (1 + rel_error) ^ Suc (Suc k) = x * (1 + rel_error) * Q"
      "v * 1000 ^ Suc (Suc k) = v * T * 1000" unfolding P_Q_T_def by (simp_all only: power_Suc ac_simps)
    ultimately have "x * (1 - rel_error) ^ Suc (Suc k) \<le> v * 1000 ^ Suc (Suc k)"
      "v * 1000 ^ Suc (Suc k) \<le> x * (1 + rel_error) ^ Suc (Suc k)" by (simp_all only:)
    then show ?thesis using True k(1-3)
      by (intro exI [of _ "Suc k"] exI [of _ v]) (simp add: human_loop.simps [of x])
  qed
qed

lemma human_units:
  assumes "bytes < 2 ^ 53" "1 \<le> v" "v * 1000 ^ Suc k \<le> of_nat bytes * (1 + rel_error) ^ Suc k"
  shows "k < 5"
proof -
  have "(1000 :: rat) ^ Suc k \<le> v * 1000 ^ Suc k" using assms(2) by simp
  also have "\<dots> \<le> of_nat bytes * (1 + rel_error) ^ Suc k" by (rule assms(3))
  also have "\<dots> \<le> of_nat bytes * 2 ^ Suc k" by (intro mult_left_mono power_mono) (simp_all add: rel_error_def)
  finally have "(500 :: rat) ^ Suc k * 2 ^ Suc k \<le> of_nat bytes * 2 ^ Suc k" by (simp flip: power_mult_distrib)
  then have "(500 :: rat) ^ Suc k \<le> of_nat bytes" by (rule mult_right_le_imp_le) simp
  then have "of_nat (500 ^ Suc k) \<le> (of_nat bytes :: rat)" by simp
  then have "500 ^ Suc k \<le> bytes" by (simp only: of_nat_le_iff)
  also have "bytes < 500 ^ 6" using assms(1) by simp
  finally have "Suc k < 6" by (rule power_less_imp_less_exp [rotated]) simp
  then show ?thesis by simp
qed

lemma rel_error_power:
  assumes "k < 5" "0 \<le> b"
  shows "b - b / 2 ^ 50 \<le> b * (1 - rel_error) ^ Suc k" "b * (1 + rel_error) ^ Suc k \<le> b + b / 2 ^ 50"
proof -
  have k: "Suc k \<le> 5" using assms(1) by simp
  have "1 - 1 / 2 ^ 50 \<le> (1 - rel_error) ^ 5" "(1 + rel_error) ^ 5 \<le> 1 + 1 / 2 ^ 50"
    by (simp_all add: rel_error_def power_divide)
  moreover have "(1 - rel_error) ^ 5 \<le> (1 - rel_error) ^ Suc k" by (rule power_decreasing [OF k]) (simp_all add: rel_error_def)
  moreover have "(1 + rel_error) ^ Suc k \<le> (1 + rel_error) ^ 5" by (rule power_increasing [OF k]) (simp add: rel_error_def)
  ultimately have "1 - 1 / 2 ^ 50 \<le> (1 - rel_error) ^ Suc k" "(1 + rel_error) ^ Suc k \<le> 1 + 1 / 2 ^ 50" by (blast intro: order.trans)+
  from mult_left_mono [OF this(1) assms(2)] mult_left_mono [OF this(2) assms(2)]
  show "b - b / 2 ^ 50 \<le> b * (1 - rel_error) ^ Suc k" "b * (1 + rel_error) ^ Suc k \<le> b + b / 2 ^ 50"
    by (simp_all only: right_diff_distrib distrib_left mult_1_right times_divide_eq_right)
qed

section \<open>Properties\<close>




text \<open>
  C17: one to three date parts that are natural numbers are joined to the ISO form, in which each part is the decimal
  numeral of its number with at least two digits and no other leading zero, and the array is left with these strings;
  no other number of parts gives a date.
\<close>

theorem dateParts_iso:
  "\<exists>strs. list_all2 (\<lambda>n s. digits_value 0 s = Some n \<and> length s = max 2 (length (nat_str n))) ns strs \<and>
    datePartsToDate parse (map (\<lambda>n. Num (int n)) ns) =
      (if length ns \<in> {1, 2, 3} then (Some (parse (join ''-'' strs @ ''T12:00'')), map Str strs)
       else (None, map (\<lambda>n. Num (int n)) ns))"
proof -
  have pad: "digits_value 0 (pad_part (Num (int n))) = Some n \<and> length (pad_part (Num (int n))) = max 2 (length (nat_str n))" for n
  proof (cases "n < 10")
    case True
    have "length (nat_str n) \<le> 1" using True nat_str_length [of 1 n] by simp
    then have "length (nat_str n) = 1" using nat_str_not_Nil [of n] by (cases "nat_str n") auto
    then show ?thesis using True digits_value_zeros [of 1 "nat_str n"] by (simp add: pad_part_def int_str_def)
  next
    case False
    then have "2 \<le> length (nat_str n)" using nat_str_length [of 1 n] by simp
    then show ?thesis using False by (simp add: pad_part_def int_str_def)
  qed
  have "length ns \<in> {1, 2, 3} \<longleftrightarrow> \<not> (length ns = 0 \<or> length ns > 3)"
    by (simp only: insert_iff empty_iff) presburger
  then show ?thesis
    using pad by (intro exI [of _ "map (\<lambda>n. pad_part (Num (int n))) ns"])
      (simp add: datePartsToDate_def Let_def list_all2_conv_all_nth o_def)
qed

text \<open>
  C20: the function changes its argument: a second call on the same array pads a single digit
  again and parses another string.
\<close>

theorem dateParts_twice:
  assumes "0 \<le> m" "m < 10"
  shows "snd (datePartsToDate parse [Num y, Num m]) = [Str (pad_part (Num y)), Str (''0'' @ int_str m)] \<and>
    snd (datePartsToDate parse (snd (datePartsToDate parse [Num y, Num m]))) =
      [Str (pad_part (Str (pad_part (Num y)))), Str (''00'' @ int_str m)]"
proof -
  have "number_of (''0'' @ int_str m) = Some m"
    using assms digits_value_zeros [of 1 "nat_str (nat m)"]
    by (simp add: int_str_def number_of_digits digit_value_def)
  then show ?thesis using assms by (simp add: datePartsToDate_def Let_def pad_part_def)
qed

theorem dateParts_twice_witness:
  "snd (datePartsToDate (\<lambda>_. None) (snd (datePartsToDate (\<lambda>_. None) [Num 2015, Num 4]))) =
     [Str (pad_part (Str (pad_part (Num 2015)))), Str (''00'' @ int_str 4)]"
  by (rule dateParts_twice [THEN conjunct2]) simp_all

end
