(* ===== verification/Js_Pages.thy ===== *)
theory Js_Pages
  imports D3_Helpers
begin

text \<open>
  The pages that list works: \<^verbatim>\<open>works/index.js\<close>, \<^verbatim>\<open>publishers/works.js\<close>,
  \<^verbatim>\<open>references/index.js\<close>, \<^verbatim>\<open>works/references.js\<close>, \<^verbatim>\<open>works/recommendations.js\<close>, the
  smaller pages \<^verbatim>\<open>sources/index.js\<close> and \<^verbatim>\<open>docs/show.js\<close>, and the DOM part of
  \<^verbatim>\<open>paginate\<close> in \<^verbatim>\<open>d3_helpers.js\<close>.

  A page script reads the attributes of \<^verbatim>\<open>#api_key\<close>, asks the API and then changes the
  document. The changes are listed in order: one chain of \<^verbatim>\<open>d3\<close> calls that adds an element
  with its attributes and content is one entry. A script that throws stops where it throws; the
  changes made before stay. The views set every attribute that the scripts put into a string;
  \<^verbatim>\<open>data-model\<close>, which some views lack, is only compared with other strings, and its
  absence is the empty string here. A property that is missing is \<^verbatim>\<open>undefined\<close>.
\<close>

section \<open>Definitions\<close>

subsection \<open>Changes of the document\<close>

datatype node = Elem string "(string \<times> string) list" "node list" | Text string | Html string

datatype dom_op =
    Remove string
  | Set_text string string
  | Insert string node
  | Append string node
  | Set_style string string string
  | Bootpag string bootpag_options
  | Warn

type_synonym run = "dom_op list \<times> string option"
  \<comment> \<open>the changes, and the name of the error that ended the script, if any\<close>

definition and_then :: "run \<Rightarrow> run \<Rightarrow> run" where
  "and_then r1 r2 = (case snd r1 of Some e \<Rightarrow> r1 | None \<Rightarrow> (fst r1 @ fst r2, snd r2))"

definition run_each :: "('a \<Rightarrow> run) \<Rightarrow> 'a list \<Rightarrow> run" where
  \<comment> \<open>a loop over an array\<close>
  "run_each f xs = foldr (\<lambda>x r. and_then (f x) r) xs ([], None)"

subsection \<open>Queries\<close>

type_synonym attributes = "string \<Rightarrow> string"
  \<comment> \<open>\<^verbatim>\<open>params.attr('data-' + name)\<close>\<close>

definition page_attr :: "attributes \<Rightarrow> string" where
  "page_attr attr = (if attr ''page'' = '''' then ''1'' else attr ''page'')"

definition add_param :: "string \<Rightarrow> string \<Rightarrow> string \<Rightarrow> string" where
  \<comment> \<open>\<^verbatim>\<open>if (v !== "") { query += "&name=" + v; }\<close>\<close>
  "add_param name v query = (if v \<noteq> '''' then query @ ''&'' @ name @ ''='' @ v else query)"

definition works_query :: "attributes \<Rightarrow> string" where
  "works_query attr =
     add_param ''sort'' (attr ''sort'')
       (add_param ''source_id'' (attr ''source_id'')
         (add_param ''publisher_id'' (attr ''publisher_id'')
           (add_param ''class_name'' (attr ''class_name'')
             (add_param ''q'' (attr ''q'')
               (add_param ''per_page'' (attr ''per_page'')
                 (encodeURI (''/api/works?page='' @ page_attr attr)))))))"

definition publisher_works_query :: "attributes \<Rightarrow> string" where
  "publisher_works_query attr =
     add_param ''sort'' (attr ''sort'')
       (add_param ''source_id'' (attr ''source_id'')
         (add_param ''per_page'' (attr ''per_page'')
           (encodeURI (''/api/publishers/'' @ attr ''publisher_id'' @ ''/works?page='' @ page_attr attr))))"

definition references_query :: "attributes \<Rightarrow> string" where
  "references_query attr =
     add_param ''relation_type_id'' (attr ''relation_type_id'')
       (add_param ''source_id'' (attr ''source_id'')
         (add_param ''q'' (attr ''q'')
           (add_param ''per_page'' (attr ''per_page'')
             (encodeURI (''/api/references?page='' @ page_attr attr)))))"

definition work_list_query :: "string \<Rightarrow> attributes \<Rightarrow> string" where
  \<comment> \<open>\<open>kind\<close> is \<^verbatim>\<open>references\<close> or \<^verbatim>\<open>recommendations\<close>\<close>
  "work_list_query kind attr =
     add_param ''relation_type_id'' (attr ''relation_type_id'')
       (add_param ''source_id'' (attr ''source_id'')
         (add_param ''per_page'' (attr ''per_page'')
           (encodeURI (''/api/works/'' @ pathForWork (Some (attr ''pid'')) @ ''/'' @ kind @ ''?page='' @ page_attr attr))))"

definition docs_query :: "attributes \<Rightarrow> string" where
  "docs_query attr = encodeURI (''/api/docs/'' @ attr ''id'')"

subsection \<open>The works of a response\<close>

record work =
  w_id :: string
  w_title :: string
  w_parts :: "part list"
  w_events :: events
  w_source_id :: string
  w_relation_type_id :: string
  w_work_id :: string

record response =
  r_works :: "work list option"
  r_page :: "int option"
  r_total_pages :: int

definition paginate_page :: "response \<Rightarrow> string \<Rightarrow> run" where
  "paginate_page json href =
     (case paginate (r_page json) (r_total_pages json) href of
        Some options \<Rightarrow>
          ([Append ''#content'' (Elem ''div'' [(''id'', ''paginator''), (''class'', ''text-center'')] []),
            Bootpag ''#paginator'' options], None)
      | None \<Rightarrow> ([], None))"

definition alert :: "string \<Rightarrow> string \<Rightarrow> dom_op list" where
  "alert target message =
     [Set_text target '''', Insert target (Elem ''div'' [(''class'', ''alert alert-info'')] [Text message])]"

definition text_of :: "string option \<Rightarrow> string" where
  \<comment> \<open>\<^verbatim>\<open>selection.text(v)\<close> clears the text for \<^verbatim>\<open>null\<close>\<close>
  "text_of v = (case v of Some s \<Rightarrow> s | None \<Rightarrow> '''')"

definition result_text :: "js_result \<Rightarrow> string" where
  \<comment> \<open>a string, or an array as a string\<close>
  "result_text r = (case r of Js_string s \<Rightarrow> s | Js_array ss \<Rightarrow> join '','' ss)"

definition work_heading :: "string \<Rightarrow> work \<Rightarrow> dom_op" where
  "work_heading target w = Append target (Elem ''h4'' [(''class'', ''work'')]
     [Elem ''a'' [(''href'', ''/works/'' @ pathForWork (Some (w_id w)))] [Html (w_title w)]])"

definition work_date :: "d3_formats \<Rightarrow> (string \<Rightarrow> date) \<Rightarrow> string \<Rightarrow> work \<Rightarrow> dom_op" where
  "work_date d3 parse target w = Append target (Elem ''span'' [(''class'', ''date'')]
     [Text (js_string (formattedDate d3 (fst (datePartsToDate parse (w_parts w))) (length (w_parts w))) @ ''. '')])"

definition work_link :: "string \<Rightarrow> work \<Rightarrow> dom_op" where
  "work_link target w = Append target (Elem ''a'' [(''href'', w_id w)] [Text (w_id w)])"

definition work_signposts ::
  "d3_formats \<Rightarrow> source list \<Rightarrow> string option \<Rightarrow> string option \<Rightarrow> string \<Rightarrow> work \<Rightarrow> dom_op" where
  "work_signposts d3 sources source_id sort_by target w =
     Append target (Elem ''p'' [] [Text (result_text (signpostsToString d3 (w_events w) sources source_id sort_by))])"

definition work_relation :: "source list \<Rightarrow> relation_type list \<Rightarrow> string \<Rightarrow> work \<Rightarrow> dom_op list" where
  "work_relation sources relation_types target w =
     (let relation = relationToString (w_source_id w) (w_relation_type_id w) sources relation_types in
      [Append target (Elem ''span'' []
         [Text (js_at relation 0 @ '' ''),
          Elem ''a'' [(''href'', ''/works/'' @ pathForWork (Some (w_work_id w)))] [Html (w_work_id w)]]),
       Append target (Elem ''span'' [] [Text (if 1 < length relation then relation ! 1 else '''')])])"

subsection \<open>works/index.js\<close>

definition works_href :: "attributes \<Rightarrow> string" where
  "works_href attr =
     add_param ''sort'' (attr ''sort'')
       (add_param ''source_id'' (attr ''source_id'')
         ((if attr ''model'' \<noteq> ''publisher'' then add_param ''publisher_id'' (attr ''publisher_id'') else (\<lambda>s. s))
           (add_param ''class_name'' (attr ''class_name'')
             (add_param ''q'' (attr ''q'') ''?page={{number}}''))))"

definition worksViz ::
  "d3_formats \<Rightarrow> (string \<Rightarrow> date) \<Rightarrow> attributes \<Rightarrow> response \<Rightarrow> source list \<Rightarrow> run" where
  "worksViz d3 parse attr json sources =
     and_then ([Remove ''#loading-results''], None)
       (case r_works json of
          None \<Rightarrow> (alert ''#content'' ''There are currently no works'' @
                   (if attr ''model'' = ''source'' then [Remove ''div#rss''] else []), None)
        | Some [] \<Rightarrow> (alert ''#content'' ''There are currently no works'' @
                   (if attr ''model'' = ''source'' then [Remove ''div#rss''] else []), None)
        | Some works \<Rightarrow>
            and_then ([Insert ''#content'' (Elem ''div'' [(''id'', ''results'')] [])], None)
              (run_each (\<lambda>w.
                 ([work_heading ''#results'' w, work_date d3 parse ''#results'' w, work_link ''#results'' w,
                   work_signposts d3 sources (Some (attr ''source_id'')) (Some (attr ''sort'')) ''#results'' w], None)) works))"

definition works_page ::
  "d3_formats \<Rightarrow> (string \<Rightarrow> date) \<Rightarrow> attributes \<Rightarrow> 'e + source list \<times> response \<Rightarrow> run" where
  \<comment> \<open>the function given to \<^verbatim>\<open>await\<close>\<close>
  "works_page d3 parse attr loaded =
     (case loaded of
        Inl e \<Rightarrow> ([Warn], None)
      | Inr (sources, json) \<Rightarrow>
          and_then (worksViz d3 parse attr json sources)
            (if attr ''model'' \<noteq> ''source'' then paginate_page json (works_href attr) else ([], None)))"

subsection \<open>publishers/works.js\<close>

definition publisher_worksViz ::
  "d3_formats \<Rightarrow> (string \<Rightarrow> date) \<Rightarrow> string option \<Rightarrow> string option \<Rightarrow> attributes \<Rightarrow>
     response \<Rightarrow> source list \<Rightarrow> run" where
  \<comment> \<open>the script reads the variables \<^verbatim>\<open>q\<close> and \<^verbatim>\<open>model\<close>, which it does not declare: \<open>q\<close> and
    \<open>model\<close> are their values as globals, \<^term>\<open>None\<close> where no such global exists\<close>
  "publisher_worksViz d3 parse q model attr json sources =
     (case q of
        None \<Rightarrow> ([], Some ''ReferenceError'')
      | Some qv \<Rightarrow>
          if attr ''publisher_id'' \<noteq> '''' \<and> model = None then ([], Some ''ReferenceError'')
          else and_then ([Remove ''#loading-results''], None)
            (if r_works json = None \<or> r_works json = Some [] then
               and_then (alert ''#content'' ''There are currently no works'', None)
                 (case model of
                    None \<Rightarrow> ([], Some ''ReferenceError'')
                  | Some m \<Rightarrow> (if m = ''source'' then [Remove ''div#rss''] else [], None))
             else
               and_then ([Insert ''#content'' (Elem ''div'' [(''id'', ''results'')] [])], None)
                 (run_each (\<lambda>w.
                    ([work_heading ''#results'' w, work_date d3 parse ''#results'' w, work_link ''#results'' w,
                      work_signposts d3 sources (Some (attr ''source_id'')) (Some (attr ''sort'')) ''#results'' w], None))
                   (the (r_works json)))))"

definition publisher_works_href :: "string \<Rightarrow> string \<Rightarrow> attributes \<Rightarrow> string" where
  "publisher_works_href q model attr =
     add_param ''sort'' (attr ''sort'')
       (add_param ''source_id'' (attr ''source_id'')
         ((if model \<noteq> ''publisher'' then add_param ''publisher_id'' (attr ''publisher_id'') else (\<lambda>s. s))
           (add_param ''q'' q ''?page={{number}}'')))"

definition publisher_works_page ::
  "d3_formats \<Rightarrow> (string \<Rightarrow> date) \<Rightarrow> string option \<Rightarrow> string option \<Rightarrow> attributes \<Rightarrow>
     'e + source list \<times> response \<Rightarrow> run" where
  "publisher_works_page d3 parse q model attr loaded =
     (case loaded of
        Inl e \<Rightarrow> ([Warn], None)
      | Inr (sources, json) \<Rightarrow>
          and_then (publisher_worksViz d3 parse q model attr json sources)
            (paginate_page json (publisher_works_href (text_of q) (text_of model) attr)))"

subsection \<open>references/index.js\<close>

definition references_href :: "attributes \<Rightarrow> string" where
  "references_href attr =
     add_param ''source_id'' (attr ''source_id'')
       (add_param ''relation_type_id'' (attr ''relation_type_id'')
         (add_param ''q'' (attr ''q'') ''?page={{number}}''))"

definition references_eventsViz ::
  "d3_formats \<Rightarrow> (string \<Rightarrow> date) \<Rightarrow> response \<Rightarrow> source list \<Rightarrow> relation_type list \<Rightarrow> run" where
  "references_eventsViz d3 parse json sources relation_types =
     and_then ([Remove ''#loading-results''], None)
       (if r_works json = None \<or> r_works json = Some [] then
          (alert ''#content'' ''There are currently no references'', None)
        else
          and_then ([Insert ''#content'' (Elem ''div'' [(''id'', ''results'')] [])], None)
            (run_each (\<lambda>w.
               ([work_heading ''#results'' w, work_date d3 parse ''#results'' w, work_link ''#results'' w,
                 work_signposts d3 sources None None ''#results'' w] @
                work_relation sources relation_types ''#results'' w @
                [work_signposts d3 sources None None ''#results'' w], None))
              (the (r_works json))))"

definition references_page ::
  "d3_formats \<Rightarrow> (string \<Rightarrow> date) \<Rightarrow> attributes \<Rightarrow> 'e + source list \<times> relation_type list \<times> response \<Rightarrow> run" where
  "references_page d3 parse attr loaded =
     (case loaded of
        Inl e \<Rightarrow> ([Warn], None)
      | Inr (sources, relation_types, json) \<Rightarrow>
          and_then (references_eventsViz d3 parse json sources relation_types)
            (paginate_page json (references_href attr)))"

subsection \<open>works/references.js and works/recommendations.js\<close>

fun baseUniq_loop :: "'ref list \<Rightarrow> 'ref list \<Rightarrow> 'ref list" where
  \<comment> \<open>the loop of \<^verbatim>\<open>baseUniq\<close> of \<^verbatim>\<open>lodash.js\<close> without iteratee and comparator, where \<^verbatim>\<open>seen\<close> is \<^verbatim>\<open>result\<close>\<close>
  "baseUniq_loop result [] = result"
| "baseUniq_loop result (value # array) =
     (if value \<in> set result then baseUniq_loop result array else baseUniq_loop (result @ [value]) array)"

definition uniq :: "'ref list \<Rightarrow> 'ref list" where
  \<comment> \<open>\<^verbatim>\<open>_.uniq(array)\<close>: objects are compared by reference, and there is no second parameter\<close>
  "uniq array = (if array \<noteq> [] then baseUniq_loop [] array else [])"

definition uniq_works :: "work list option \<Rightarrow> work list" where
  \<comment> \<open>\<^verbatim>\<open>_.uniq(data, "id")\<close>: the response is parsed to a new object for every element, so that the
    positions stand for the references\<close>
  "uniq_works data = (case data of None \<Rightarrow> [] | Some ws \<Rightarrow> map ((!) ws) (uniq [0..<length ws]))"

definition work_list_href :: "attributes \<Rightarrow> string" where
  "work_list_href attr =
     add_param ''source_id'' (attr ''source_id'')
       (add_param ''relation_type_id'' (attr ''relation_type_id'') ''?page={{number}}'')"

definition work_references_eventsViz ::
  "d3_formats \<Rightarrow> (string \<Rightarrow> date) \<Rightarrow> string option \<Rightarrow> attributes \<Rightarrow> response \<Rightarrow> source list \<Rightarrow>
     relation_type list \<Rightarrow> run" where
  \<comment> \<open>the script reads \<^verbatim>\<open>sort\<close>, which it does not declare; \<open>sort_by\<close> is its value as a global\<close>
  "work_references_eventsViz d3 parse sort_by attr json sources relation_types =
     (let data = uniq_works (r_works json) in
      and_then ([Remove ''#loading-results''], None)
       (if data = [] then (alert ''#content'' ''There are currently no references'', None)
        else
          and_then ([Insert ''#content'' (Elem ''div'' [(''id'', ''results'')] [])], None)
            (and_then
              (run_each (\<lambda>w.
                 and_then
                   ([work_heading ''#results'' w, work_date d3 parse ''#results'' w, work_link ''#results'' w,
                     work_signposts d3 sources None None ''#results'' w] @
                    work_relation sources relation_types ''#results'' w, None)
                   (case sort_by of
                      None \<Rightarrow> ([], Some ''ReferenceError'')
                    | Some s \<Rightarrow> ([work_signposts d3 sources (Some (attr ''source_id'')) (Some s) ''#results'' w], None)))
                data)
              ([Set_style ''div#rss'' ''display'' ''inline''], None))))"

definition recommendationsViz ::
  "d3_formats \<Rightarrow> (string \<Rightarrow> date) \<Rightarrow> attributes \<Rightarrow> response \<Rightarrow> source list \<Rightarrow> run" where
  "recommendationsViz d3 parse attr json sources =
     (let data = uniq_works (r_works json) in
      and_then ([Remove ''#loading-recommendations''], None)
       (if data = [] then (alert ''#content-recommendations'' ''There are currently no recommendations'', None)
        else
          and_then ([Insert ''#content-recommendations'' (Elem ''div'' [(''id'', ''results-recommendations'')] [])], None)
            (run_each (\<lambda>w.
               ([work_heading ''#results-recommendations'' w, work_date d3 parse ''#results-recommendations'' w,
                 work_link ''#results-recommendations'' w,
                 work_signposts d3 sources (Some (attr ''source_id'')) (Some (attr ''sort'')) ''#results'' w], None))
              data)))"

definition work_list_page :: "run \<Rightarrow> attributes \<Rightarrow> response \<Rightarrow> run" where
  \<comment> \<open>the functions given to \<^verbatim>\<open>await\<close> in both scripts: the list, then the pagination\<close>
  "work_list_page viz attr json = and_then viz (paginate_page json (work_list_href attr))"

subsection \<open>sources/index.js\<close>

record source_status =
  ss_id :: string
  ss_queued :: int
  ss_stale :: int
  ss_count :: int
  ss_average :: int

definition sourcesViz :: "d3_formats \<Rightarrow> source_status list \<Rightarrow> run" where
  "sourcesViz d3 data = run_each (\<lambda>s.
     ([Set_text (''#queued_count_'' @ ss_id s) (text_of (numberWithDelimiter d3 (ss_queued s))),
       Set_text (''#stale_count_'' @ ss_id s) (text_of (numberWithDelimiter d3 (ss_stale s))),
       Set_text (''#response_count_'' @ ss_id s) (text_of (numberWithDelimiter d3 (ss_count s))),
       Set_text (''#average_count_'' @ ss_id s) (text_of (numberWithDelimiter d3 (ss_average s)))], None)) data"

section \<open>What a query determines\<close>

fun split_at :: "char \<Rightarrow> string \<Rightarrow> string \<times> string" where
  \<comment> \<open>the parts before and after the first \<open>c\<close>\<close>
  "split_at c [] = ([], [])"
| "split_at c (x # xs) = (if x = c then ([], xs) else let (a, b) = split_at c xs in (x # a, b))"

fun split_on :: "char \<Rightarrow> string \<Rightarrow> string list" where
  "split_on c [] = [[]]"
| "split_on c (x # xs) =
     (if x = c then [] # split_on c xs
      else case split_on c xs of [] \<Rightarrow> [[x]] | y # ys \<Rightarrow> (x # y) # ys)"

definition query_fields :: "string \<Rightarrow> (string \<times> string) list" where
  \<comment> \<open>a left inverse of the composition of the queries, for the proofs\<close>
  "query_fields url = map (split_at (CHR ''='')) (split_on (CHR ''&'') (snd (split_at (CHR ''?'') url)))"

lemma split_at_absent [simp]: "c \<notin> set a \<Longrightarrow> split_at c (a @ c # b) = (a, b)"
  by (induction a) auto

lemma split_at_append: "c \<in> set s \<Longrightarrow> split_at c (s @ t) = (fst (split_at c s), snd (split_at c s) @ t)"
  by (induction s) (auto simp: case_prod_unfold Let_def)

lemma split_on_absent [simp]: "c \<notin> set a \<Longrightarrow> split_on c a = [a]"
  by (induction a) auto

lemma split_on_not_Nil [simp]: "split_on c s \<noteq> []"
  by (cases s) (auto split: list.split)

lemma split_on_append: "c \<notin> set a \<Longrightarrow> split_on c (s @ c # a) = split_on c s @ [a]"
  by (induction s) (auto split: list.split)

definition plain_value :: "string \<Rightarrow> bool" where
  "plain_value v \<longleftrightarrow> CHR ''&'' \<notin> set v"

lemma query_fields_add_param:
  assumes "CHR ''?'' \<in> set url" "CHR ''='' \<notin> set name" "CHR ''&'' \<notin> set name" "plain_value v"
  shows "query_fields (add_param name v url) = query_fields url @ (if v = '''' then [] else [(name, v)])"
  using assms split_on_append [of "CHR ''&''" "name @ ''='' @ v" "snd (split_at (CHR ''?'') url)"]
  by (simp add: query_fields_def add_param_def split_at_append plain_value_def)

lemma set_add_param: "CHR ''?'' \<in> set url \<Longrightarrow> CHR ''?'' \<in> set (add_param name v url)"
  by (simp add: add_param_def)

lemma encodeURI_append: "encodeURI (s @ t) = encodeURI s @ encodeURI t"
  by (simp add: encodeURI_def)

lemma digits_are_plain: "list_all (\<lambda>d. digit_char d \<in> set uri_plain) [0..<10]"
  by code_simp

lemma digit_is_plain:
  assumes "digit_value c \<noteq> None"
  shows "c \<in> set uri_plain"
proof -
  define d where "d = (of_char c :: nat) - 48"
  have "d < 10" "c = digit_char d"
    using assms by (auto simp: digit_value_def digit_char_def d_def Let_def split: if_splits)
  then show ?thesis using digits_are_plain by (simp add: list_all_iff)
qed

lemma encodeURI_digits [simp]: "is_digits s \<Longrightarrow> encodeURI s = s"
  using digit_is_plain by (induction s) (auto simp: encodeURI_def encode_char_def)

lemma encodeURI_works: "encodeURI ''/api/works?page='' = ''/api/works?page=''"
  by code_simp

section \<open>The works on a page\<close>

fun heading_of :: "dom_op \<Rightarrow> string list" where
  \<comment> \<open>the link of the heading that a change adds\<close>
  "heading_of (Append target (Elem tag ats [Elem tag2 [(a, href)] body])) =
     (if tag = ''h4'' \<and> a = ''href'' then [href] else [])"
| "heading_of _ = []"

definition headings :: "run \<Rightarrow> string list" where
  "headings r = concat (map heading_of (fst r))"

definition path_of :: "work \<Rightarrow> string" where
  "path_of w = ''/works/'' @ pathForWork (Some (w_id w))"

lemma heading_simps [simp]:
  "heading_of (work_heading t w) = [path_of w]"
  "heading_of (work_date d3 parse t w) = []"
  "heading_of (work_link t w) = []"
  "heading_of (work_signposts d3 ss si so t w) = []"
  by (simp_all add: work_heading_def work_date_def work_link_def work_signposts_def path_of_def)

lemma heading_relation [simp]: "concat (map heading_of (work_relation ss rts t w)) = []"
  by (simp add: work_relation_def Let_def)

lemma headings_and_then:
  "headings (and_then r1 r2) = headings r1 @ (if snd r1 = None then headings r2 else [])"
  "snd (and_then r1 r2) = (case snd r1 of Some e \<Rightarrow> Some e | None \<Rightarrow> snd r2)"
  by (auto simp: and_then_def headings_def split: option.split)

lemma headings_run_each:
  assumes "\<And>x. snd (f x) = None" "\<And>x. headings (f x) = g x"
  shows "headings (run_each f xs) = concat (map g xs)" and "snd (run_each f xs) = None"
  using assms by (induction xs) (simp_all add: run_each_def headings_and_then, simp_all add: headings_def)

lemma headings_pair [simp]: "headings (ops, e) = concat (map heading_of ops)"
  by (simp add: headings_def)

lemma baseUniq_distinct: "distinct (result @ array) \<Longrightarrow> baseUniq_loop result array = result @ array"
  by (induction result array rule: baseUniq_loop.induct) auto

lemma uniq_works_all [simp]: "uniq_works data = (case data of None \<Rightarrow> [] | Some ws \<Rightarrow> ws)"
  by (simp add: uniq_works_def uniq_def baseUniq_distinct map_nth split: option.split)

definition query_names :: "string list" where
  "query_names = [''per_page'', ''q'', ''class_name'', ''publisher_id'', ''source_id'', ''sort'']"

lemma works_query_fields:
  assumes "is_digits (attr ''page'')"
    and "\<forall>n \<in> set query_names. plain_value (attr n)"
  shows "query_fields (works_query attr) = (''page'', page_attr attr) # filter (\<lambda>(n, v). v \<noteq> '''') (map (\<lambda>n. (n, attr n)) query_names)"
proof -
  have page: "is_digits (page_attr attr)" using assms(1) by (simp add: page_attr_def digit_value_def)
  then have amp: "CHR ''&'' \<notin> set (page_attr attr)" by (auto simp: is_digits_def list_all_iff digit_value_def)
  define base where "base = encodeURI (''/api/works?page='' @ page_attr attr)"
  have b: "base = ''/api/works?page='' @ page_attr attr"
    using page by (simp only: base_def encodeURI_append encodeURI_works encodeURI_digits)
  have q: "CHR ''?'' \<in> set base" by (simp add: b)
  have base: "query_fields base = [(''page'', page_attr attr)]"
    using amp by (simp add: b query_fields_def)
  show ?thesis
    using assms(2) q unfolding works_query_def base_def [symmetric] query_names_def
    by (simp add: query_fields_add_param set_add_param base)
qed

lemma fields_inject:
  fixes a b :: "string \<Rightarrow> string"
  assumes "filter (\<lambda>(n, v). v \<noteq> []) (map (\<lambda>n. (n, a n)) ns) = filter (\<lambda>(n, v). v \<noteq> []) (map (\<lambda>n. (n, b n)) ns)"
  shows "\<forall>n \<in> set ns. a n = b n"
proof
  fix n assume n: "n \<in> set ns"
  have mem: "(n, v) \<in> set (filter (\<lambda>(n, v). v \<noteq> []) (map (\<lambda>n. (n, f n)) ns)) \<longleftrightarrow> v = f n \<and> v \<noteq> []" for f v
    using n by auto
  have eq: "v = a n \<and> v \<noteq> [] \<longleftrightarrow> v = b n \<and> v \<noteq> []" for v
    unfolding mem [of v a, symmetric] mem [of v b, symmetric] assms ..
  show "a n = b n" using eq [of "a n"] eq [of "b n"] by auto
qed

definition sample_work :: work where
  "sample_work = \<lparr>w_id = ''a'', w_title = ''t'', w_parts = [], w_events = (\<lambda>_. None),
     w_source_id = '''', w_relation_type_id = '''', w_work_id = ''b''\<rparr>"

section \<open>Properties\<close>



text \<open>
  With an ampersand this fails: a search text that contains one gives the query of a page with other attributes.
\<close>

lemma works_query_unescaped:
  assumes "a \<noteq> ''''" "b \<noteq> ''''" "\<forall>n \<in> {''class_name'', ''publisher_id'', ''source_id'', ''sort''}. attr n = ''''"
  shows "works_query (attr(''q'' := a @ ''&sort='' @ b)) = works_query (attr(''q'' := a, ''sort'' := b))"
  using assms by (simp add: works_query_def add_param_def page_attr_def)

text \<open>
  C15: the list of works has one heading for every work of the response, in its order, linked to
  the path of the work; without works the page shows only the message, and the script never
  throws.
\<close>

theorem worksViz_lists_works:
  "headings (worksViz d3 parse attr json sources) =
     (case r_works json of None \<Rightarrow> [] | Some ws \<Rightarrow> map path_of ws) \<and>
   snd (worksViz d3 parse attr json sources) = None \<and>
   (r_works json \<in> {None, Some []} \<longrightarrow>
     (\<exists>ops. fst (worksViz d3 parse attr json sources) =
        [Remove ''#loading-results'', Set_text ''#content'' '''',
         Insert ''#content'' (Elem ''div'' [(''class'', ''alert alert-info'')] [Text ''There are currently no works''])] @
        ops \<and> set ops \<subseteq> {Remove ''div#rss''}))"
proof (cases "r_works json")
  case None
  then show ?thesis by (auto simp: worksViz_def and_then_def headings_def alert_def)
next
  case (Some ws)
  have each: "headings (run_each (\<lambda>w. ([work_heading t w, work_date d3 parse t w, work_link t w,
        work_signposts d3 sources si so t w], None)) ws) = map path_of ws"
    "snd (run_each (\<lambda>w. ([work_heading t w, work_date d3 parse t w, work_link t w,
        work_signposts d3 sources si so t w], None)) ws) = None" for t si so
    by (simp_all add: headings_run_each [where g = "\<lambda>w. [path_of w]"])
  show ?thesis
  proof (cases ws)
    case Nil
    with Some show ?thesis by (auto simp: worksViz_def and_then_def headings_def alert_def)
  next
    case (Cons w ws')
    with Some show ?thesis using each by (simp add: worksViz_def headings_and_then)
  qed
qed

theorem worksViz_lists_works_witness:
  "\<forall>d3 parse attr sources.
     headings (worksViz d3 parse attr \<lparr>r_works = Some [sample_work, sample_work\<lparr>w_id := ''c''\<rparr>], r_page = None, r_total_pages = 0\<rparr> sources) =
       [''/works/a'', ''/works/c''] \<and>
     snd (worksViz d3 parse attr \<lparr>r_works = None, r_page = None, r_total_pages = 0\<rparr> sources) = None"
proof (intro allI)
  fix d3 parse attr sources
  have "path_of sample_work = ''/works/a''" "path_of (sample_work\<lparr>w_id := ''c''\<rparr>) = ''/works/c''" by code_simp+
  then show "headings (worksViz d3 parse attr \<lparr>r_works = Some [sample_work, sample_work\<lparr>w_id := ''c''\<rparr>], r_page = None, r_total_pages = 0\<rparr> sources) =
       [''/works/a'', ''/works/c''] \<and>
     snd (worksViz d3 parse attr \<lparr>r_works = None, r_page = None, r_total_pages = 0\<rparr> sources) = None"
    using worksViz_lists_works [of d3 parse attr "\<lparr>r_works = Some [sample_work, sample_work\<lparr>w_id := ''c''\<rparr>], r_page = None, r_total_pages = 0\<rparr>" sources]
      worksViz_lists_works [of d3 parse attr "\<lparr>r_works = None, r_page = None, r_total_pages = 0\<rparr>" sources]
    by simp
qed

text \<open>
  C16: the page of references of a work shows every work of the response, in order: the call that is
  meant to remove the works with a repeated id removes nothing. This needs the variable \<^verbatim>\<open>sort\<close> of some other script;
  without it the script throws within the first work and no further work is shown.
\<close>

theorem work_references_all:
  assumes "r_works json = Some ws" "ws \<noteq> []"
  shows "headings (work_references_eventsViz d3 parse (Some s) attr json sources rts) = map path_of ws \<and>
    snd (work_references_eventsViz d3 parse (Some s) attr json sources rts) = None \<and>
    headings (work_references_eventsViz d3 parse None attr json sources rts) = [path_of (hd ws)] \<and>
    snd (work_references_eventsViz d3 parse None attr json sources rts) = Some ''ReferenceError''"
proof -
  obtain w ws' where ws: "ws = w # ws'" using assms(2) by (cases ws) auto
  have each: "headings (run_each (\<lambda>w. and_then
       ([work_heading t w, work_date d3 parse t w, work_link t w, work_signposts d3 sources a b t w] @
          work_relation sources rts t w, None)
       ([work_signposts d3 sources c d t w], None)) xs) = map path_of xs"
    "snd (run_each (\<lambda>w. and_then
       ([work_heading t w, work_date d3 parse t w, work_link t w, work_signposts d3 sources a b t w] @
          work_relation sources rts t w, None)
       ([work_signposts d3 sources c d t w], None)) xs) = None" for t a b c d xs
    by (simp_all add: headings_run_each [where g = "\<lambda>w. [path_of w]"] headings_and_then)
  have first: "headings (run_each (\<lambda>w. and_then
       ([work_heading t w, work_date d3 parse t w, work_link t w, work_signposts d3 sources a b t w] @
          work_relation sources rts t w, None) ([], Some e)) (x # xs)) = [path_of x]"
    "snd (run_each (\<lambda>w. and_then
       ([work_heading t w, work_date d3 parse t w, work_link t w, work_signposts d3 sources a b t w] @
          work_relation sources rts t w, None) ([], Some e)) (x # xs)) = Some e" for t a b e x xs
    by (simp_all add: run_each_def headings_and_then)
  show ?thesis
    using assms(1) each first
    by (simp add: work_references_eventsViz_def Let_def headings_and_then alert_def ws)
qed

theorem work_references_all_witness:
  "\<forall>d3 parse attr.
     headings (work_references_eventsViz d3 parse (Some '''') attr
       \<lparr>r_works = Some [sample_work, sample_work], r_page = None, r_total_pages = 0\<rparr> [] []) = [''/works/a'', ''/works/a''] \<and>
     snd (work_references_eventsViz d3 parse None attr
       \<lparr>r_works = Some [sample_work, sample_work], r_page = None, r_total_pages = 0\<rparr> [] []) = Some ''ReferenceError''"
proof (intro allI)
  fix d3 parse attr
  have "path_of sample_work = ''/works/a''" by code_simp
  then show "headings (work_references_eventsViz d3 parse (Some '''') attr
       \<lparr>r_works = Some [sample_work, sample_work], r_page = None, r_total_pages = 0\<rparr> [] []) = [''/works/a'', ''/works/a''] \<and>
     snd (work_references_eventsViz d3 parse None attr
       \<lparr>r_works = Some [sample_work, sample_work], r_page = None, r_total_pages = 0\<rparr> [] []) = Some ''ReferenceError''"
    using work_references_all [of "\<lparr>r_works = Some [sample_work, sample_work], r_page = None, r_total_pages = 0\<rparr>"
        "[sample_work, sample_work]" d3 parse "''''" attr "[]" "[]"] by simp
qed

end
