(* ===== verification/Js_Bootpag.thy ===== *)
theory Js_Bootpag
  imports D3_Helpers
begin

text \<open>
  \<^verbatim>\<open>jquery.bootpag.js\<close>: the pagination bar. The bar is the list of its \<^verbatim>\<open>li\<close> elements; an
  element is its class, its \<^verbatim>\<open>data-lp\<close> attribute, the text and the address of its link, and
  whether it is disabled, active and visible. Updates of a selection that is empty do nothing.
\<close>

section \<open>Definitions\<close>

datatype kind = First | Prev | Page | Next | Last
  \<comment> \<open>the class of an element; the numbered elements have none\<close>

record settings =
  b_total :: int
  b_page :: int
  b_maxVisible :: int
  b_leaps :: bool
  b_href :: string
  b_hrefVariable :: string
  b_next :: string
  b_prev :: string
  b_firstLastUse :: bool
  b_first :: string
  b_last :: string

record item =
  i_kind :: kind
  i_lp :: int
  i_label :: string
  i_href :: string
  i_disabled :: bool
  i_active :: bool
  i_shown :: bool

definition default_settings :: settings where
  \<comment> \<open>\<open>maxVisible\<close>, which is \<^verbatim>\<open>null\<close> by default, is set by \<^verbatim>\<open>bootpag\<close>\<close>
  "default_settings = \<lparr>
     b_total = 0, b_page = 1, b_maxVisible = 0, b_leaps = True, b_href = ''javascript:void(0);'',
     b_hrefVariable = ''{{number}}'', b_next = ''&raquo;'', b_prev = ''&laquo;'', b_firstLastUse = False,
     b_first = ''<span aria-hidden=\"true\">&larr;</span>'', b_last = ''<span aria-hidden=\"true\">&rarr;</span>''\<rparr>"

definition href :: "settings \<Rightarrow> int \<Rightarrow> string" where
  "href s c = replace_first (b_hrefVariable s) (int_str c) (b_href s)"

definition new_item :: "settings \<Rightarrow> kind \<Rightarrow> int \<Rightarrow> string \<Rightarrow> item" where
  "new_item s k lp label = \<lparr>i_kind = k, i_lp = lp, i_label = label, i_href = href s lp,
     i_disabled = False, i_active = False, i_shown = True\<rparr>"

definition build :: "settings \<Rightarrow> item list" where
  \<comment> \<open>the markup of the bar; an empty \<open>prev\<close> or \<open>next\<close> stands for \<^verbatim>\<open>null\<close>\<close>
  "build s =
     (if b_firstLastUse s then [new_item s First 1 (b_first s)] else []) @
     (if b_prev s \<noteq> '''' then [new_item s Prev 1 (b_prev s)] else []) @
     map (\<lambda>c. new_item s Page c (int_str c)) [1..min (b_total s) (b_maxVisible s)] @
     (if b_next s \<noteq> '''' then
        [new_item s Next (if b_leaps s \<and> b_total s > b_maxVisible s
                          then min (b_maxVisible s + 1) (b_total s) else 2) (b_next s)]
      else []) @
     (if b_firstLastUse s then [new_item s Last (b_total s) (b_last s)] else [])"

definition update_at :: "nat option \<Rightarrow> (item \<Rightarrow> item) \<Rightarrow> item list \<Rightarrow> item list" where
  "update_at i f items = (case i of
       Some i \<Rightarrow> if i < length items then items[i := f (items ! i)] else items
     | None \<Rightarrow> items)"

fun renumber :: "settings \<Rightarrow> int \<Rightarrow> item list \<Rightarrow> item list" where
  \<comment> \<open>the loop over the numbered elements; \<open>lp\<close> is the number of the next one\<close>
  "renumber s lp [] = []"
| "renumber s lp (x # xs) =
     (if i_kind x = Page
      then x\<lparr>i_lp := lp, i_shown := lp \<le> b_total s, i_label := int_str lp, i_href := href s lp\<rparr> # renumber s (lp + 1) xs
      else x # renumber s lp xs)"

definition is_current :: "int \<Rightarrow> item \<Rightarrow> bool" where
  "is_current page x \<longleftrightarrow> i_kind x = Page \<and> i_lp x = page"

definition prev_lp :: "settings \<Rightarrow> int \<Rightarrow> int \<Rightarrow> int" where
  "prev_lp s maxV page = (if page - 1 < 1 then 1
     else if b_leaps s \<and> page - 1 \<ge> b_maxVisible s then ((page - 1) div maxV) * maxV else page - 1)"

definition next_lp :: "settings \<Rightarrow> int \<Rightarrow> int \<Rightarrow> int" where
  "next_lp s vis page = (if page + 1 > b_total s then b_total s
     else if b_leaps s \<and> page + 1 < b_total s - b_maxVisible s
     then vis + b_maxVisible s + (if b_maxVisible s = 1 then 0 else 1) else page + 1)"

definition render_links :: "settings \<Rightarrow> int \<Rightarrow> int \<Rightarrow> int \<Rightarrow> item list \<Rightarrow> item list" where
  \<comment> \<open>the updates of the elements at the two ends of the bar\<close>
  "render_links s maxV vis page items =
     (let lp = prev_lp s maxV page;
          items = (if b_firstLastUse s then update_at (Some 0) (\<lambda>x. x\<lparr>i_disabled := (page = 1)\<rparr>) items else items);
          items = update_at (Some (if b_firstLastUse s then 1 else 0))
                    (\<lambda>x. x\<lparr>i_disabled := (page = 1), i_lp := lp, i_href := href s lp\<rparr>) items;
          lp = next_lp s vis page;
          n = length items;
          items = update_at (if b_firstLastUse s then (if n < 2 then None else Some (n - 2))
                             else if n = 0 then None else Some (n - 1))
                    (\<lambda>x. x\<lparr>i_disabled := (page = b_total s), i_lp := lp, i_href := href s lp\<rparr>) items in
      update_at (if n = 0 then None else Some (n - 1)) (\<lambda>x. x\<lparr>i_disabled := (page = b_total s)\<rparr>) items)"

definition renderPage :: "settings \<Rightarrow> item list \<Rightarrow> int \<Rightarrow> settings \<times> item list" where
  "renderPage s items page0 =
     (let maxV = (if b_maxVisible s = 0 then 1 else b_maxVisible s);
          vis = ((page0 - 1) div maxV) * maxV;
          page = (if page0 < 0 then 0 else if page0 > b_total s then b_total s else page0);
          s = s\<lparr>b_page := page\<rparr>;
          items = map (\<lambda>x. x\<lparr>i_active := False\<rparr>) items;
          items = render_links s maxV vis page items;
          items = (if \<not> list_ex (is_current page) items
                   then renumber s (1 + vis + (if page \<le> vis then - b_maxVisible s else 0)) items else items) in
      (s, map (\<lambda>x. if is_current page x then x\<lparr>i_active := True\<rparr> else x) items))"

definition bootpag :: "int option \<Rightarrow> settings \<Rightarrow> (settings \<times> item list) option" where
  \<comment> \<open>\<open>maxVisible\<close> is \<^term>\<open>None\<close> for \<^verbatim>\<open>null\<close>; the result is \<^term>\<open>None\<close> where the
    plugin leaves the element as it is\<close>
  "bootpag maxVisible s =
     (if b_total s \<le> 0 then None
      else let s = s\<lparr>b_maxVisible := (case maxVisible of Some m \<Rightarrow> m | None \<Rightarrow> b_total s)\<rparr> in
        Some (renderPage s (build s) (b_page s)))"

definition paginationClick :: "settings \<times> item list \<Rightarrow> nat \<Rightarrow> (settings \<times> item list) \<times> int option" where
  \<comment> \<open>the new bar and the argument of the event \<^verbatim>\<open>page\<close>, if it is triggered\<close>
  "paginationClick bar i =
     (let (s, items) = bar in
      if i < length items \<and> \<not> i_disabled (items ! i) \<and> \<not> i_active (items ! i)
      then (renderPage s items (i_lp (items ! i)), Some (i_lp (items ! i)))
      else (bar, None))"

definition settings_of :: "bootpag_options \<Rightarrow> settings" where
  \<comment> \<open>the settings of the call in \<^verbatim>\<open>paginate\<close>, over the defaults\<close>
  "settings_of opts = default_settings\<lparr>b_total := bp_total opts, b_page := bp_page opts,
     b_maxVisible := int (bp_maxVisible opts), b_href := bp_href opts, b_leaps := bp_leaps opts,
     b_prev := (case bp_prev opts of Some p \<Rightarrow> p | None \<Rightarrow> ''''),
     b_next := (case bp_next opts of Some p \<Rightarrow> p | None \<Rightarrow> '''')\<rparr>"

section \<open>The numbered elements form a window\<close>

definition window :: "settings \<Rightarrow> int \<Rightarrow> item list \<Rightarrow> bool" where
  \<comment> \<open>the numbers \<open>base + 1\<close>, \<open>base + 2\<close>, ... in order, visible up to the total\<close>
  "window s base xs \<longleftrightarrow> (\<forall>i < length xs. i_kind (xs ! i) = Page \<and> i_lp (xs ! i) = base + 1 + int i \<and>
     (i_shown (xs ! i) \<longleftrightarrow> i_lp (xs ! i) \<le> b_total s))"

definition bar_ok :: "settings \<Rightarrow> item list \<Rightarrow> bool" where
  \<comment> \<open>a bar with the elements \<open>prev\<close> and \<open>next\<close> around the window\<close>
  "bar_ok s items \<longleftrightarrow> (\<exists>p xs nx base. items = p # xs @ [nx] \<and> i_kind p = Prev \<and> i_kind nx = Next \<and>
     int (length xs) = min (b_total s) (b_maxVisible s) \<and> window s base xs \<and> 0 \<le> base \<and>
     (b_total s \<le> b_maxVisible s \<longrightarrow> base = 0))"

definition ends_ok :: "settings \<Rightarrow> item list \<Rightarrow> bool" where
  "ends_ok s items \<longleftrightarrow>
     i_lp (hd items) = max 1 (b_page s - 1) \<and> (i_disabled (hd items) \<longleftrightarrow> b_page s = 1) \<and>
     i_lp (last items) = min (b_total s) (b_page s + 1) \<and> (i_disabled (last items) \<longleftrightarrow> b_page s = b_total s)"

definition active_page :: "settings \<Rightarrow> item list \<Rightarrow> int \<Rightarrow> bool" where
  "active_page s items page \<longleftrightarrow>
     filter i_active items = filter (is_current page) items \<and> length (filter i_active items) = 1 \<and>
     list_all (\<lambda>x. i_active x \<longrightarrow> i_shown x) items"

lemma renumber_window:
  assumes "\<forall>x \<in> set xs. i_kind x = Page"
  shows "window s base (renumber s (base + 1) xs) \<and> length (renumber s (base + 1) xs) = length xs"
  using assms
proof (induction xs arbitrary: base)
  case (Cons x xs)
  have "window s (base + 1) (renumber s (base + 1 + 1) xs)" "length (renumber s (base + 1 + 1) xs) = length xs"
    using Cons.IH [of "base + 1"] Cons.prems by simp_all
  then show ?case using Cons.prems by (auto simp: window_def nth_Cons less_Suc_eq_0_disj split: nat.split)
qed (simp add: window_def)

lemma renumber_append:
  "\<forall>x \<in> set xs. i_kind x = Page \<Longrightarrow>
     renumber s lp (xs @ ys) = renumber s lp xs @ renumber s (lp + int (length xs)) ys"
  by (induction xs arbitrary: lp) (auto simp: add.assoc)

lemma renumber_other: "\<forall>x \<in> set xs. i_kind x \<noteq> Page \<Longrightarrow> renumber s lp xs = xs"
  by (induction xs) auto

lemma window_kind: "window s base xs \<Longrightarrow> x \<in> set xs \<Longrightarrow> i_kind x = Page"
  by (auto simp: window_def in_set_conv_nth)

lemma window_current:
  assumes "window s base xs" "base < page" "page \<le> base + int (length xs)"
  shows "filter (is_current page) xs = [xs ! nat (page - base - 1)]"
proof -
  let ?i = "nat (page - base - 1)"
  have i: "?i < length xs" using assms(2,3) by simp
  have cur: "is_current page (xs ! j) \<longleftrightarrow> j = ?i" if "j < length xs" for j
    using assms(1,2) that by (auto simp: window_def is_current_def)
  have split: "xs = take ?i xs @ xs ! ?i # drop (Suc ?i) xs" using i by (rule id_take_nth_drop)
  have "filter (is_current page) (take ?i xs) = []" "filter (is_current page) (drop (Suc ?i) xs) = []"
    using cur i by (auto simp: filter_empty_conv in_set_conv_nth)
  then show ?thesis using split cur [OF i] by (metis append_Nil filter.simps(2) filter_append append_Nil2)
qed

lemma filter_mark:
  assumes "\<forall>x \<in> set xs. \<not> i_active x"
  shows "filter i_active (map (\<lambda>x. if is_current page x then x\<lparr>i_active := True\<rparr> else x) xs) =
      filter (is_current page) (map (\<lambda>x. if is_current page x then x\<lparr>i_active := True\<rparr> else x) xs)"
    and "length (filter (is_current page) (map (\<lambda>x. if is_current page x then x\<lparr>i_active := True\<rparr> else x) xs)) =
      length (filter (is_current page) xs)"
  using assms by (induction xs) (auto simp: is_current_def)

lemma window_map:
  assumes "window s base xs" "\<And>x. i_kind (f x) = i_kind x \<and> i_lp (f x) = i_lp x \<and> i_shown (f x) = i_shown x"
  shows "window s base (map f xs)"
  using assms by (simp add: window_def)

lemma window_total: "window (s\<lparr>b_page := p\<rparr>) base xs \<longleftrightarrow> window s base xs"
  by (simp add: window_def)

lemma active_renumber: "\<forall>x \<in> set xs. \<not> i_active x \<Longrightarrow> \<forall>x \<in> set (renumber s lp xs). \<not> i_active x"
  by (induction xs arbitrary: lp) auto

lemma render_links_form:
  assumes "\<not> b_firstLastUse s" "\<not> b_leaps s"
  shows "render_links s maxV vis page (p # xs @ [nx]) =
    p\<lparr>i_disabled := (page = 1), i_lp := max 1 (page - 1), i_href := href s (max 1 (page - 1))\<rparr> # xs @
    [nx\<lparr>i_disabled := (page = b_total s), i_lp := min (b_total s) (page + 1),
        i_href := href s (min (b_total s) (page + 1))\<rparr>]"
proof -
  have "prev_lp s maxV page = max 1 (page - 1)" "next_lp s vis page = min (b_total s) (page + 1)"
    using assms(2) by (auto simp: prev_lp_def next_lp_def)
  then show ?thesis using assms(1) by (simp add: render_links_def Let_def update_at_def)
qed

lemma vis_less: "1 \<le> m \<Longrightarrow> ((page - 1) div m) * m < page" for m :: int
  using pos_mod_sign [of m "page - 1"] mult_div_mod_eq [of m "page - 1"]
  unfolding mult.commute [of "(page - 1) div m"] by linarith

lemma render_form:
  assumes "\<not> b_firstLastUse s" "\<not> b_leaps s" "1 \<le> b_maxVisible s" "1 \<le> page" "page \<le> b_total s"
    and "i_kind p = Prev" "i_kind nx = Next" "\<forall>x \<in> set xs. i_kind x = Page \<and> \<not> i_active x"
    and "\<not> i_active p" "\<not> i_active nx"
  defines "s' \<equiv> s\<lparr>b_page := page\<rparr>"
    and "vis \<equiv> ((page - 1) div b_maxVisible s) * b_maxVisible s"
    and "mark \<equiv> \<lambda>x. if is_current page x then x\<lparr>i_active := True\<rparr> else x"
  shows "(let items = render_links s' (b_maxVisible s) vis page (p # xs @ [nx]);
              items = (if \<not> list_ex (is_current page) items then renumber s' (vis + 1) items else items) in
          map mark items) =
      p\<lparr>i_disabled := (page = 1), i_lp := max 1 (page - 1), i_href := href s' (max 1 (page - 1))\<rparr> #
      map mark (if list_ex (is_current page) xs then xs else renumber s' (vis + 1) xs) @
      [nx\<lparr>i_disabled := (page = b_total s), i_lp := min (b_total s) (page + 1),
        i_href := href s' (min (b_total s) (page + 1))\<rparr>]"
  using assms(1-8) by (auto simp: render_links_form s'_def Let_def renumber_append is_current_def mark_def)

lemma render_window:
  assumes w: "window s base xs" "0 \<le> base" "b_total s \<le> m \<longrightarrow> base = 0" "int (length xs) = min (b_total s) m"
    and p: "1 \<le> m" "1 \<le> page" "page \<le> b_total s"
  defines "vis \<equiv> ((page - 1) div m) * m"
  defines "ys \<equiv> if list_ex (is_current page) xs then xs else renumber s (vis + 1) xs"
  shows "\<exists>base. window s base ys \<and> length ys = length xs \<and> 0 \<le> base \<and> (b_total s \<le> m \<longrightarrow> base = 0) \<and>
    base < page \<and> page \<le> base + int (length ys)"
proof (cases "list_ex (is_current page) xs")
  case True
  then obtain i where "i < length xs" "is_current page (xs ! i)" by (auto simp: list_ex_length)
  then have "base < page" "page \<le> base + int (length xs)" using w(1) by (auto simp: window_def is_current_def)
  then show ?thesis using True w by (auto simp: ys_def)
next
  case False
  have more: "\<not> b_total s \<le> m"
  proof
    assume "b_total s \<le> m"
    then have "nat (page - 1) < length xs" "is_current page (xs ! nat (page - 1))"
      using w p by (auto simp: window_def is_current_def)
    then show False using False by (auto simp: list_ex_length)
  qed
  have "\<forall>x \<in> set xs. i_kind x = Page" using w(1) window_kind by blast
  note ren = renumber_window [OF this, of s vis]
  have "vis < page" using vis_less [OF p(1)] by (simp add: vis_def)
  moreover have "page \<le> vis + m"
    using pos_mod_bound [of m "page - 1"] mult_div_mod_eq [of m "page - 1"] p(1)
    unfolding vis_def mult.commute [of "(page - 1) div m"] by linarith
  moreover have "0 \<le> vis" using p by (simp add: vis_def pos_imp_zdiv_nonneg_iff)
  ultimately show ?thesis using False ren more w(4) by (intro exI [of _ vis]) (simp add: ys_def)
qed

lemma mark_active:
  assumes "window s base ys" "base < page" "page \<le> base + int (length ys)" "page \<le> b_total s"
    and "\<forall>y \<in> set ys. \<not> i_active y" "\<not> i_active p" "\<not> i_active nx" "i_kind p = Prev" "i_kind nx = Next"
  defines "mark \<equiv> \<lambda>x. if is_current page x then x\<lparr>i_active := True\<rparr> else x"
  shows "active_page s (p # map mark ys @ [nx]) page"
proof -
  have none: "\<not> is_current page p" "\<not> is_current page nx" using assms(8,9) by (simp_all add: is_current_def)
  have one: "length (filter (is_current page) ys) = 1" using window_current [OF assms(1-3)] by simp
  have shown: "i_active (mark y) \<longrightarrow> i_shown (mark y)" if "y \<in> set ys" for y
    using that assms(1,4,5) by (auto simp: mark_def is_current_def window_def in_set_conv_nth)
  show ?thesis
    using filter_mark [OF assms(5), of page] none one shown assms(6,7)
    by (simp add: active_page_def mark_def [symmetric] list_all_iff)
qed

lemma renderPage_eq:
  assumes "1 \<le> b_maxVisible s" "1 \<le> page" "page \<le> b_total s"
  defines "vis \<equiv> ((page - 1) div b_maxVisible s) * b_maxVisible s"
  shows "renderPage s items page = (s\<lparr>b_page := page\<rparr>,
    (let items = render_links (s\<lparr>b_page := page\<rparr>) (b_maxVisible s) vis page (map (\<lambda>x. x\<lparr>i_active := False\<rparr>) items);
         items = (if \<not> list_ex (is_current page) items then renumber (s\<lparr>b_page := page\<rparr>) (vis + 1) items else items) in
     map (\<lambda>x. if is_current page x then x\<lparr>i_active := True\<rparr> else x) items))"
proof -
  have "(if b_maxVisible s = 0 then 1 else b_maxVisible s) = b_maxVisible s" using assms(1) by simp
  moreover have "(if page < 0 then 0 else if page > b_total s then b_total s else page) = page" using assms(2,3) by simp
  moreover have "b_maxVisible (s\<lparr>b_page := page\<rparr>) = b_maxVisible s" by simp
  moreover have "1 + vis + (if page \<le> vis then - b_maxVisible s else 0) = vis + 1"
    using vis_less [OF assms(1), of page] by (simp add: vis_def)
  ultimately show ?thesis unfolding renderPage_def Let_def vis_def by (simp only: )
qed

lemma renderPage_correct:
  assumes ok: "bar_ok s items" and opts: "\<not> b_firstLastUse s" "\<not> b_leaps s" "1 \<le> b_maxVisible s"
    and page: "1 \<le> page" "page \<le> b_total s"
    and r: "renderPage s items page = (s', items')"
  shows "s' = s\<lparr>b_page := page\<rparr> \<and> bar_ok s' items' \<and> active_page s' items' page \<and> ends_ok s' items'"
proof -
  obtain p xs nx base where it: "items = p # xs @ [nx]" "i_kind p = Prev" "i_kind nx = Next"
    "int (length xs) = min (b_total s) (b_maxVisible s)" "window s base xs" "0 \<le> base"
    "b_total s \<le> b_maxVisible s \<longrightarrow> base = 0"
    using ok unfolding bar_ok_def by blast
  define off where "off = (\<lambda>x :: item. x\<lparr>i_active := False\<rparr>)"
  define vis where "vis = ((page - 1) div b_maxVisible s) * b_maxVisible s"
  define t where "t = s\<lparr>b_page := page\<rparr>"
  define ys where "ys = (if list_ex (is_current page) (map off xs) then map off xs
    else renumber t (vis + 1) (map off xs))"
  define mark where "mark = (\<lambda>x. if is_current page x then x\<lparr>i_active := True\<rparr> else x)"
  have wx: "window t base (map off xs)"
    using it(5) by (intro window_map) (simp_all add: t_def window_total off_def)
  have kinds: "\<forall>x \<in> set (map off xs). i_kind x = Page \<and> \<not> i_active x"
    using window_kind [OF it(5)] by (auto simp: off_def)
  obtain base' where w: "window t base' ys" "length ys = length xs" "0 \<le> base'"
    "b_total t \<le> b_maxVisible s \<longrightarrow> base' = 0" "base' < page" "page \<le> base' + int (length ys)"
    using render_window [OF wx it(6), of "b_maxVisible s" page] it(4,7) opts(3) page
    unfolding ys_def vis_def by (auto simp: t_def)
  have inactive: "\<forall>y \<in> set ys. \<not> i_active y"
    using kinds active_renumber [of "map off xs"] by (simp add: ys_def)
  have res: "renderPage s items page = (t, (off p)\<lparr>i_disabled := (page = 1), i_lp := max 1 (page - 1),
      i_href := href t (max 1 (page - 1))\<rparr> # map mark ys @ [(off nx)\<lparr>i_disabled := (page = b_total s),
      i_lp := min (b_total s) (page + 1), i_href := href t (min (b_total s) (page + 1))\<rparr>])"
    unfolding it(1) ys_def
      renderPage_eq [OF opts(3) page, of "p # xs @ [nx]", folded off_def t_def vis_def mark_def, unfolded list.map map_append]
    by (subst render_form [OF opts page, of "off p" "off nx" "map off xs", folded t_def vis_def mark_def])
      (use kinds it(2,3) in \<open>auto simp: off_def\<close>)
  have "window t base' (map mark ys)" using w(1) by (rule window_map) (simp add: mark_def)
  then show ?thesis
    using r [unfolded res] w mark_active [OF w(1,5,6) _ inactive, folded mark_def] it(2-4) page
    by (auto simp: bar_ok_def ends_ok_def t_def off_def window_total)
qed

section \<open>The bars that clicks can reach\<close>

inductive reached :: "int option \<Rightarrow> settings \<Rightarrow> settings \<times> item list \<Rightarrow> bool" for m s where
  start: "bootpag m s = Some bar \<Longrightarrow> reached m s bar"
| click: "reached m s bar \<Longrightarrow> i < length (snd bar) \<Longrightarrow> i_shown (snd bar ! i) \<Longrightarrow>
    reached m s (fst (paginationClick bar i))"

definition bar_inv :: "settings \<Rightarrow> settings \<times> item list \<Rightarrow> bool" where
  "bar_inv s bar \<longleftrightarrow> fst bar = s\<lparr>b_page := b_page (fst bar)\<rparr> \<and>
     1 \<le> b_page (fst bar) \<and> b_page (fst bar) \<le> b_total s \<and> bar_ok (fst bar) (snd bar) \<and>
     active_page (fst bar) (snd bar) (b_page (fst bar)) \<and> ends_ok (fst bar) (snd bar)"

lemma upto_window: "window s 0 (map (\<lambda>c. new_item s Page c (int_str c)) [1..min (b_total s) m])"
proof -
  have "[1..min (b_total s) m] ! i = 1 + int i" if "i < nat (min (b_total s) m)" for i
    using that by (intro nth_upto) linarith
  then show ?thesis by (auto simp: window_def new_item_def)
qed

lemma build_ok:
  assumes "b_prev s \<noteq> ''''" "b_next s \<noteq> ''''" "\<not> b_firstLastUse s" "1 \<le> b_maxVisible s" "1 \<le> b_total s"
  shows "bar_ok s (build s)"
  unfolding bar_ok_def
proof (intro exI conjI)
  show "build s = new_item s Prev 1 (b_prev s) #
      map (\<lambda>c. new_item s Page c (int_str c)) [1..min (b_total s) (b_maxVisible s)] @
      [new_item s Next (if b_leaps s \<and> b_total s > b_maxVisible s
        then min (b_maxVisible s + 1) (b_total s) else 2) (b_next s)]"
    using assms(1-3) by (simp add: build_def)
  show "window s 0 (map (\<lambda>c. new_item s Page c (int_str c)) [1..min (b_total s) (b_maxVisible s)])"
    by (rule upto_window)
qed (use assms(4,5) in \<open>auto simp: new_item_def\<close>)

lemma bar_ok_lp:
  assumes "bar_ok s items" "ends_ok s items" "i < length items" "i_shown (items ! i)"
    and "1 \<le> b_page s" "b_page s \<le> b_total s"
  shows "1 \<le> i_lp (items ! i) \<and> i_lp (items ! i) \<le> b_total s"
proof -
  obtain p xs nx base where it: "items = p # xs @ [nx]" "window s base xs" "0 \<le> base"
    using assms(1) unfolding bar_ok_def by blast
  consider "i = 0" | j where "i = Suc j" "j < length xs" | "i = Suc (length xs)"
    using assms(3) it(1) by (cases i) (auto simp: less_Suc_eq)
  then show ?thesis
  proof cases
    case 2
    then have "items ! i = xs ! j" using it(1) by (simp add: nth_append)
    then show ?thesis using it(2,3) 2(2) assms(4) by (simp add: window_def)
  qed (use it(1) assms(2,5,6) in \<open>simp_all add: ends_ok_def\<close>)
qed

lemma render_inv:
  assumes "bar_ok t items" "t = s\<lparr>b_page := q\<rparr>" "\<not> b_firstLastUse s" "\<not> b_leaps s" "1 \<le> b_maxVisible s"
    and "1 \<le> page" "page \<le> b_total s"
  shows "bar_inv s (renderPage t items page)"
proof -
  obtain s' items' where r: "renderPage t items page = (s', items')" by (cases "renderPage t items page")
  show ?thesis using renderPage_correct [OF assms(1) _ _ _ assms(6) _ r] assms(2-7) unfolding r bar_inv_def by auto
qed

lemma click_inv:
  assumes "bar_inv s bar" "\<not> b_firstLastUse s" "\<not> b_leaps s" "1 \<le> b_maxVisible s"
    and "i < length (snd bar)" "i_shown (snd bar ! i)"
  shows "bar_inv s (fst (paginationClick bar i))"
proof -
  obtain t items where bar: "bar = (t, items)" by (cases bar)
  have t: "t = s\<lparr>b_page := b_page t\<rparr>" and bt: "bar_ok t items" "ends_ok t items" "1 \<le> b_page t" "b_page t \<le> b_total s"
    using assms(1) by (auto simp: bar bar_inv_def)
  have tot: "b_total t = b_total s" by (subst t) simp
  have "1 \<le> i_lp (items ! i) \<and> i_lp (items ! i) \<le> b_total s"
    using bar_ok_lp [OF bt(1,2)] assms(5,6) bt(3,4) by (simp add: bar tot)
  then have "bar_inv s (renderPage t items (i_lp (items ! i)))" using render_inv [OF bt(1) t assms(2-4)] by simp
  then show ?thesis using assms(1) by (simp add: paginationClick_def bar)
qed

lemma reached_inv:
  assumes "reached (Some m) s bar" "b_prev s \<noteq> ''''" "b_next s \<noteq> ''''" "\<not> b_firstLastUse s" "\<not> b_leaps s"
    and "1 \<le> m" "1 \<le> b_page s" "b_page s \<le> b_total s"
  shows "bar_inv (s\<lparr>b_maxVisible := m\<rparr>) bar"
  using assms(1)
proof induction
  case (start bar)
  let ?s = "s\<lparr>b_maxVisible := m\<rparr>"
  have "bar = renderPage ?s (build ?s) (b_page s)"
    using start assms(7,8) by (simp add: bootpag_def Let_def split: if_splits)
  then show ?case
    using render_inv [of ?s "build ?s" "b_page s" ?s "b_page s"] build_ok [of ?s] assms(2-8) by simp
next
  case (click bar i)
  then show ?case using click_inv assms by simp
qed

section \<open>Properties\<close>

text \<open>
  C21: The pagination bar always shows where the reader is. Take a bar that \<open>bootpag\<close> makes with
  both arrows, without leaps, at a page in range, and any sequence of clicks on its visible elements: the bar
  then has exactly one active element, which is a visible numbered one and carries the current page, that
  page is in range, the arrows lead to the neighbouring pages and are disabled exactly at the two ends.
\<close>
theorem bootpag_clicks:
  assumes "reached (Some m) s (t, items)"
    and "b_prev s \<noteq> ''''" "b_next s \<noteq> ''''" "\<not> b_firstLastUse s" "\<not> b_leaps s"
    and "1 \<le> m" "1 \<le> b_page s" "b_page s \<le> b_total s"
  shows "1 \<le> b_page t \<and> b_page t \<le> b_total s \<and>
    (\<exists>x. filter i_active items = [x] \<and> i_kind x = Page \<and> i_shown x \<and> i_lp x = b_page t) \<and>
    i_kind (hd items) = Prev \<and> i_lp (hd items) = max 1 (b_page t - 1) \<and> (i_disabled (hd items) \<longleftrightarrow> b_page t = 1) \<and>
    i_kind (last items) = Next \<and> i_lp (last items) = min (b_total s) (b_page t + 1) \<and>
    (i_disabled (last items) \<longleftrightarrow> b_page t = b_total s)"
proof -
  have inv: "bar_inv (s\<lparr>b_maxVisible := m\<rparr>) (t, items)" using reached_inv assms by blast
  then have t: "t = s\<lparr>b_maxVisible := m, b_page := b_page t\<rparr>" and a: "active_page t items (b_page t)"
    and b: "bar_ok t items" and e: "ends_ok t items" and p: "1 \<le> b_page t" "b_page t \<le> b_total s"
    by (simp_all add: bar_inv_def)
  have tot: "b_total t = b_total s" by (subst t) simp
  have eq: "filter i_active items = filter (is_current (b_page t)) items" "length (filter i_active items) = 1"
    using a unfolding active_page_def by blast+
  then obtain x where x: "filter i_active items = [x]" by (metis One_nat_def length_0_conv length_Suc_conv)
  have "x \<in> set (filter i_active items)" "x \<in> set (filter (is_current (b_page t)) items)"
    using x eq(1) by simp_all
  then have "x \<in> set items" "i_active x" "is_current (b_page t) x" by simp_all
  then have "i_kind x = Page \<and> i_shown x \<and> i_lp x = b_page t"
    using a by (simp add: active_page_def list_all_iff is_current_def)
  then show ?thesis using p x e b tot by (auto simp: ends_ok_def bar_ok_def)
qed

definition sample_settings :: settings where
  "sample_settings = default_settings\<lparr>b_total := 5, b_leaps := False\<rparr>"

lemma sample_bar: "bootpag (Some 2) sample_settings = Some (the (bootpag (Some 2) sample_settings))"
  by (simp add: bootpag_def Let_def sample_settings_def default_settings_def)

lemma sample_next: "i_shown (snd (the (bootpag (Some 2) sample_settings)) ! 3)"
    "3 < length (snd (the (bootpag (Some 2) sample_settings)))"
  by code_simp+

theorem bootpag_clicks_witness:
  "\<exists>x. filter i_active (snd (fst (paginationClick (the (bootpag (Some 2) sample_settings)) 3))) = [x] \<and> i_shown x"
proof -
  let ?bar = "the (bootpag (Some 2) sample_settings)"
  have "reached (Some 2) sample_settings (fst (paginationClick ?bar 3))"
    using sample_next by (intro reached.click reached.start sample_bar)
  then have "reached (Some 2) sample_settings
      (fst (fst (paginationClick ?bar 3)), snd (fst (paginationClick ?bar 3)))" by simp
  from bootpag_clicks [OF this] show ?thesis by (simp add: sample_settings_def default_settings_def) blast
qed

text \<open>
  The bar of the last page is wrong. \<open>paginate\<close> asks for a bar without the arrow \<open>next\<close> on the
  last page; \<open>renderPage\<close> then takes the last numbered element for the arrow, gives it the number of the last page and,
  finding that page, leaves the other numbers as they are. With 25 pages the bar of page 25 has the labels 1 to
  10, and its active element is the one that reads 10, which is disabled and points to page 25.
\<close>
theorem paginate_last_page:
  "map_option (\<lambda>opts. map_option (\<lambda>(s, items). (map i_label items, map (\<lambda>x. (i_label x, i_lp x, i_disabled x)) (filter i_active items)))
      (bootpag (Some (int (bp_maxVisible opts))) (settings_of opts)))
     (paginate (Some 25) 25 ''/works?page={{number}}'') =
   Some (Some ([laquo, ''1'', ''2'', ''3'', ''4'', ''5'', ''6'', ''7'', ''8'', ''9'', ''10''], [(''10'', 25, True)]))"
  by code_simp

end
