(* ===== verification/Es5_Number.thy ===== *)
theory Es5_Number
  imports Js_String Complex_Main
begin

text \<open>
  The numbers of \<^verbatim>\<open>es5-shim.js\<close>: \<^verbatim>\<open>ToInteger\<close> and \<^verbatim>\<open>toFixed\<close>. A finite number is a rational.
  The shim of \<^verbatim>\<open>toFixed\<close> only multiplies and divides by powers of two and computes on digits to
  the base ten million whose products stay below \<open>2 ^ 53\<close>, so that its arithmetic is exact; the last
  section shows that bound. The main result is that the shim computes what ES5 15.7.4.5 prescribes.
\<close>

section \<open>Definitions\<close>

datatype number = NaN | Infinity | NegInfinity | Fin rat

datatype es5_error = TypeError | RangeError

definition ToInteger :: "number \<Rightarrow> number" where
  "ToInteger num = (case num of
       NaN \<Rightarrow> Fin 0
     | Fin n \<Rightarrow> Fin (if n \<noteq> 0 then (if n > 0 then 1 else -1) * of_int \<lfloor>\<bar>n\<bar>\<rfloor> else n)
     | n \<Rightarrow> n)"

subsection \<open>The digits of toFixed\<close>

definition base :: rat where
  "base = 10000000"

definition data_size :: nat where
  "data_size = 6"

definition rmod :: "rat \<Rightarrow> rat \<Rightarrow> rat" where
  \<comment> \<open>\<^verbatim>\<open>a % b\<close> of numbers that are not negative\<close>
  "rmod a b = a - b * of_int \<lfloor>a / b\<rfloor>"

fun multiply :: "rat \<Rightarrow> rat \<Rightarrow> rat list \<Rightarrow> rat list" where
  \<comment> \<open>the digits, lowest first, and the carry\<close>
  "multiply n c2 [] = []"
| "multiply n c2 (d # ds) =
     (let c2 = c2 + n * d in rmod c2 base # multiply n (of_int \<lfloor>c2 / base\<rfloor>) ds)"

fun divide_from :: "rat \<Rightarrow> rat \<Rightarrow> rat list \<Rightarrow> rat list" where
  \<comment> \<open>the digits, highest first\<close>
  "divide_from n c [] = []"
| "divide_from n c (d # ds) =
     (let c = c + d in of_int \<lfloor>c / n\<rfloor> # divide_from n (rmod c n * base) ds)"

definition divide :: "rat \<Rightarrow> rat list \<Rightarrow> rat list" where
  "divide n ds = rev (divide_from n 0 (rev ds))"

fun numToString_from :: "string \<Rightarrow> rat list \<Rightarrow> string" where
  "numToString_from s [] = s"
| "numToString_from s (d # ds) =
     (if s \<noteq> [] \<or> ds = [] \<or> d \<noteq> 0
      then let t = nat_str (nat \<lfloor>d\<rfloor>) in
        numToString_from (if s = [] then t else s @ substring 0 (7 - length t) ''0000000'' @ t) ds
      else numToString_from s ds)"

definition numToString :: "rat list \<Rightarrow> string" where
  "numToString ds = numToString_from [] (rev ds)"

fun pow :: "rat \<Rightarrow> nat \<Rightarrow> rat \<Rightarrow> rat" where
  "pow x n acc = (if n = 0 then acc else if n mod 2 = 1 then pow x (n - 1) (acc * x) else pow (x * x) (n div 2) acc)"

function log_loop :: "rat \<Rightarrow> nat \<Rightarrow> rat \<Rightarrow> nat \<Rightarrow> nat \<times> rat" where
  \<comment> \<open>\<^verbatim>\<open>while (x2 >= b) { n += k; x2 /= b; }\<close>\<close>
  "log_loop b k x2 n = (if 2 \<le> b \<and> x2 \<ge> b then log_loop b k (x2 / b) (n + k) else (n, x2))"
  by auto
termination
proof (relation "measure (\<lambda>(b, k, x2, n). nat \<lfloor>x2\<rfloor>)")
  fix b x2 :: rat and k n :: nat
  assume b: "2 \<le> b \<and> x2 \<ge> b"
  have "x2 / b \<le> x2 / 2" using b by (intro divide_left_mono) auto
  then have "x2 / b + 1 \<le> x2" using b by linarith
  then have "\<lfloor>x2 / b + 1\<rfloor> \<le> \<lfloor>x2\<rfloor>" by (rule floor_mono)
  moreover have "0 < \<lfloor>x2\<rfloor>" using b by simp
  ultimately show "((b, k, x2 / b, n + k), (b, k, x2, n)) \<in> measure (\<lambda>(b, k, x2, n). nat \<lfloor>x2\<rfloor>)" by simp
qed simp

declare log_loop.simps [simp del] pow.simps [simp del]

definition log_js :: "rat \<Rightarrow> nat" where
  "log_js x = (let (n, x2) = log_loop 4096 12 x 0 in fst (log_loop 2 1 x2 n))"

function mult_loop :: "nat \<Rightarrow> rat list \<Rightarrow> nat \<times> rat list" where
  \<comment> \<open>\<^verbatim>\<open>while (j >= 7)\<close>\<close>
  "mult_loop j ds = (if j \<ge> 7 then mult_loop (j - 7) (multiply 10000000 0 ds) else (j, ds))"
  by auto
termination by (relation "measure fst") auto

function div_loop :: "nat \<Rightarrow> rat list \<Rightarrow> nat \<times> rat list" where
  \<comment> \<open>\<^verbatim>\<open>while (j >= 23)\<close>\<close>
  "div_loop j ds = (if j \<ge> 23 then div_loop (j - 23) (divide (2 ^ 23) ds) else (j, ds))"
  by auto
termination by (relation "measure fst") auto

declare mult_loop.simps [simp del] div_loop.simps [simp del]

definition digits_of :: "rat \<Rightarrow> nat \<Rightarrow> rat list \<Rightarrow> string" where
  \<comment> \<open>the branch \<^verbatim>\<open>x > 1e-21\<close>; \<open>ds\<close> are the digits that the previous call has left\<close>
  "digits_of x f ds =
     (let e = int (log_js (x * pow 2 69 1)) - 69;
          z = (if e < 0 then x * pow 2 (nat (- e)) 1 else x / pow 2 (nat e) 1);
          z = z * 4503599627370496;
          e = 52 - e;
          ds = multiply 0 z ds in
      if e > 0
      then let (j, ds) = mult_loop f ds;
               ds = multiply (pow 10 j 1) 0 ds;
               (j, ds) = div_loop (nat (e - 1)) ds;
               ds = divide (2 ^ j) ds;
               ds = multiply 1 1 ds;
               ds = divide 2 ds in
             numToString ds
      else numToString (multiply (2 ^ nat (- e)) 0 ds) @ substring 2 (2 + f) ''0.00000000000000000000'')"

definition point :: "nat \<Rightarrow> string \<Rightarrow> string \<Rightarrow> string" where
  \<comment> \<open>the digits with the decimal point\<close>
  "point f s m =
     (if f > 0
      then let k = length m in
        if k \<le> f then s @ substring 0 (f - k + 2) ''0.0000000000000000000'' @ m
        else s @ substring 0 (k - f) m @ ''.'' @ drop (k - f) m
      else s @ m)"

definition fraction_digits :: "number \<Rightarrow> es5_error + nat" where
  "fraction_digits d = (case d of
       NaN \<Rightarrow> Inr 0
     | Fin f \<Rightarrow> if \<lfloor>f\<rfloor> < 0 \<or> \<lfloor>f\<rfloor> > 20 then Inl RangeError else Inr (nat \<lfloor>f\<rfloor>)
     | _ \<Rightarrow> Inl RangeError)"

definition toFixed :: "(number \<Rightarrow> string) \<Rightarrow> rat list \<Rightarrow> number \<Rightarrow> number \<Rightarrow> es5_error + string" where
  \<comment> \<open>\<open>str\<close> is \<^verbatim>\<open>String\<close> of a number\<close>
  "toFixed str ds this fractionDigits = (case fraction_digits fractionDigits of
       Inl e \<Rightarrow> Inl e
     | Inr f \<Rightarrow> Inr (case this of
           NaN \<Rightarrow> ''NaN''
         | Fin x \<Rightarrow>
             if x \<le> - 1000000000000000000000 \<or> x \<ge> 1000000000000000000000 then str this
             else let s = (if x < 0 then ''-'' else '''');
                      x = (if x < 0 then - x else x);
                      m = (if x > 1 / 1000000000000000000000 then digits_of x f ds else ''0'') in
                  point f s m
         | _ \<Rightarrow> str this))"

section \<open>The numeral of a list of digits\<close>

fun dvalue :: "rat list \<Rightarrow> rat" where
  "dvalue [] = 0"
| "dvalue (d # ds) = d + base * dvalue ds"

lemma base_pos [simp]: "0 < base" "base \<noteq> 0" "0 \<le> base"
  by (simp_all add: base_def)

lemma rmod_bounds: "0 < b \<Longrightarrow> 0 \<le> rmod a b \<and> rmod a b < b"
proof -
  assume b: "0 < b"
  have "of_int \<lfloor>a / b\<rfloor> \<le> a / b" "a / b < of_int \<lfloor>a / b\<rfloor> + 1" by linarith+
  then have "of_int \<lfloor>a / b\<rfloor> * b \<le> a" "a < (of_int \<lfloor>a / b\<rfloor> + 1) * b"
    using b by (simp_all only: pos_le_divide_eq pos_divide_less_eq)
  then show ?thesis by (simp add: rmod_def algebra_simps)
qed

lemma rmod_div: "rmod a b + b * of_int \<lfloor>a / b\<rfloor> = a"
  by (simp add: rmod_def)

lemma rmod_Ints: "a \<in> \<int> \<Longrightarrow> b \<in> \<int> \<Longrightarrow> rmod a b \<in> \<int>"
  by (simp add: rmod_def)

lemma multiply_length [simp]: "length (multiply n c ds) = length ds"
  by (induction n c ds rule: multiply.induct) (auto simp: Let_def)

lemma multiply_range: "d \<in> set (multiply n c ds) \<Longrightarrow> 0 \<le> d \<and> d < base"
  by (induction n c ds rule: multiply.induct) (auto simp: Let_def rmod_bounds)

lemma multiply_Ints:
  "\<lbrakk>n \<in> \<int>; c \<in> \<int>; \<forall>d \<in> set ds. d \<in> \<int>\<rbrakk> \<Longrightarrow> d \<in> set (multiply n c ds) \<Longrightarrow> d \<in> \<int>"
proof (induction n c ds rule: multiply.induct)
  case (2 n c2 d' ds)
  have "base \<in> \<int>" by (simp add: base_def)
  then show ?case using 2 by (auto simp: Let_def rmod_Ints)
qed simp

lemma dvalue_nonneg: "\<forall>d \<in> set ds. 0 \<le> d \<Longrightarrow> 0 \<le> dvalue ds"
  by (induction ds) (auto intro!: add_nonneg_nonneg mult_nonneg_nonneg)

lemma dvalue_append: "dvalue (xs @ ys) = dvalue xs + base ^ length xs * dvalue ys"
  by (induction xs) (simp_all add: algebra_simps)

lemma multiply_value:
  assumes "0 \<le> n" "0 \<le> c" "\<forall>d \<in> set ds. 0 \<le> d" "c \<in> \<int> \<or> ds \<noteq> []" "n * dvalue ds + c < base ^ length ds"
  shows "dvalue (multiply n c ds) = n * dvalue ds + c"
  using assms
proof (induction n c ds rule: multiply.induct)
  case (1 n c)
  then have "c \<in> \<int>" "0 \<le> c" "c < 1" by simp_all
  then show ?case by (auto elim!: Ints_cases)
next
  case (2 n c d ds)
  let ?c = "c + n * d"
  let ?q = "of_int \<lfloor>?c / base\<rfloor> :: rat"
  have c: "0 \<le> ?c" using 2(2,3,4) by simp
  then have q: "0 \<le> ?q" by simp
  have "base * ?q \<le> ?c" using rmod_bounds [of base ?c] rmod_div [of ?c base] by simp
  moreover have "base * (n * dvalue ds) + ?c < base * base ^ length ds" using 2(6) by (simp add: algebra_simps)
  ultimately have "base * (n * dvalue ds + ?q) < base * base ^ length ds" by (simp add: algebra_simps)
  then have lt: "n * dvalue ds + ?q < base ^ length ds" by (simp only: mult_less_cancel_left_pos base_pos)
  have "dvalue (multiply n ?q ds) = n * dvalue ds + ?q"
    using 2(1) [OF refl] 2(2,4) q lt by simp
  then show ?case using rmod_div [of ?c base] by (simp add: Let_def algebra_simps)
qed

lemma divide_from_value:
  assumes "0 < n"
  shows "ds \<noteq> [] \<Longrightarrow> dvalue (rev (divide_from n c ds)) =
    of_int \<lfloor>(c * base ^ (length ds - 1) + dvalue (rev ds)) / n\<rfloor> \<and> length (divide_from n c ds) = length ds"
proof (induction ds arbitrary: c)
  case (Cons d ds)
  let ?c = "c + d"
  show ?case
  proof (cases "ds = []")
    case True
    then show ?thesis by (simp add: Let_def)
  next
    case False
    then obtain k where k: "length ds = Suc k" by (cases ds) auto
    let ?q = "\<lfloor>?c / n\<rfloor>"
    have IH: "dvalue (rev (divide_from n (rmod ?c n * base) ds)) =
        of_int \<lfloor>(rmod ?c n * base ^ length ds + dvalue (rev ds)) / n\<rfloor>"
      "length (divide_from n (rmod ?c n * base) ds) = length ds"
      using Cons.IH [OF False, of "rmod ?c n * base"] by (simp_all add: k mult.assoc)
    have "base = of_int 10000000" by (simp add: base_def)
    then have B: "base ^ length ds = of_int (10000000 ^ length ds)" by simp
    have "rmod ?c n * base ^ length ds + dvalue (rev ds) =
        (c * base ^ length ds + dvalue (rev (d # ds))) - n * (of_int ?q * base ^ length ds)"
      using rmod_div [of ?c n] by (simp add: rmod_def dvalue_append algebra_simps)
    then have "(rmod ?c n * base ^ length ds + dvalue (rev ds)) / n =
        (c * base ^ length ds + dvalue (rev (d # ds))) / n - of_int (?q * 10000000 ^ length ds)"
      using assms by (simp add: diff_divide_distrib B)
    then have "\<lfloor>(rmod ?c n * base ^ length ds + dvalue (rev ds)) / n\<rfloor> =
        \<lfloor>(c * base ^ length ds + dvalue (rev (d # ds))) / n\<rfloor> - ?q * 10000000 ^ length ds"
      by (simp only: floor_diff_of_int)
    then show ?thesis using IH B by (simp add: Let_def dvalue_append)
  qed
qed simp

lemma divide_value: "0 < n \<Longrightarrow> ds \<noteq> [] \<Longrightarrow> dvalue (divide n ds) = of_int \<lfloor>dvalue ds / n\<rfloor>"
  using divide_from_value [of n "rev ds" 0] by (simp add: divide_def)

lemma divide_length [simp]: "length (divide n ds) = length ds"
proof -
  have "length (divide_from n c es) = length es" for c es
    by (induction n c es rule: divide_from.induct) (simp_all add: Let_def)
  then show ?thesis by (simp add: divide_def)
qed

lemma divide_digits:
  assumes "0 < n" "\<forall>d \<in> set ds. 0 \<le> d" "d \<in> set (divide n ds)"
  shows "0 \<le> d \<and> d \<in> \<int>"
proof -
  have "0 \<le> c \<Longrightarrow> \<forall>d \<in> set es. 0 \<le> d \<Longrightarrow> x \<in> set (divide_from n c es) \<Longrightarrow> 0 \<le> x \<and> x \<in> \<int>" for c es x
  proof (induction es arbitrary: c)
    case (Cons e es)
    have "0 \<le> rmod (c + e) n * base" using rmod_bounds [OF assms(1)] by simp
    then show ?case using Cons assms(1) by (auto simp: Let_def)
  qed simp
  from this [of 0 "rev ds" d] show ?thesis using assms(2,3) by (simp add: divide_def)
qed

lemma half_digits:
  assumes "\<forall>d \<in> set ds. 0 \<le> d \<and> d < base \<and> d \<in> \<int>" "d \<in> set (divide 2 ds)"
  shows "d < base"
proof -
  have "c \<le> base \<Longrightarrow> \<forall>d \<in> set es. 0 \<le> d \<and> d < base \<and> d \<in> \<int> \<Longrightarrow> 0 \<le> c \<Longrightarrow> c \<in> \<int> \<Longrightarrow>
      x \<in> set (divide_from 2 c es) \<Longrightarrow> x < base" for c es x
  proof (induction es arbitrary: c)
    case (Cons e es)
    let ?c = "c + e"
    have int: "?c \<in> \<int>" using Cons.prems by simp
    have "rmod ?c 2 \<in> \<int>" using int by (simp add: rmod_Ints)
    then obtain r where r: "rmod ?c 2 = of_int r" by (auto elim: Ints_cases)
    have "0 \<le> rmod ?c 2 \<and> rmod ?c 2 < 2" by (rule rmod_bounds) simp
    then have "0 \<le> r" "r < 2" unfolding r by simp_all
    then have r': "r = 0 \<or> r = 1" by linarith
    have lt: "?c < 2 * base" using Cons.prems by auto
    then have "?c / 2 < base" by simp
    then have "(of_int \<lfloor>?c / 2\<rfloor> :: rat) < base" by (rule le_less_trans [OF of_int_floor_le])
    moreover have "base \<in> \<int>" by (simp add: base_def)
    ultimately show ?case using Cons.prems Cons.IH [of 0] Cons.IH [of base] r r' by (auto simp: Let_def)
  qed simp
  from this [of 0 "rev ds" d] show ?thesis using assms by (simp add: divide_def)
qed

fun pad :: "nat \<Rightarrow> nat \<Rightarrow> string" where
  "pad 0 d = []"
| "pad (Suc k) d = pad k (d div 10) @ [digit_char (d mod 10)]"

lemma nat_str_pad: "0 < a \<Longrightarrow> d < 10 ^ k \<Longrightarrow> nat_str (a * 10 ^ k + d) = nat_str a @ pad k d"
proof (induction k arbitrary: d)
  case (Suc k)
  have "(1 :: nat) * 10 ^ Suc 0 \<le> a * 10 ^ Suc k" using Suc.prems(1) by (intro mult_le_mono power_increasing) auto
  then have "\<not> a * 10 ^ Suc k + d < 10" unfolding power_Suc0_right by linarith
  moreover have "(a * 10 ^ Suc k + d) div 10 = a * 10 ^ k + d div 10" "(a * 10 ^ Suc k + d) mod 10 = d mod 10"
    by (simp_all add: mult.left_commute [of a 10] div_add1_eq mod_mult_self2 [of d 10] add.commute [of _ d])
  moreover have "d div 10 < 10 ^ k" using Suc.prems(2) by (simp add: div_less_iff_less_mult mult.commute)
  ultimately show ?case using Suc.IH [of "d div 10"] Suc.prems(1) by (subst nat_str.simps) simp
qed simp

lemma digit_zero: "digit_char 0 = CHR ''0''"
  by code_simp

lemma pad_zero: "pad k 0 = replicate k (CHR ''0'')"
  by (induction k) (simp_all add: digit_zero replicate_append_same)

lemma pad_replicate: "0 < k \<Longrightarrow> d < 10 ^ k \<Longrightarrow> pad k d = replicate (k - length (nat_str d)) (CHR ''0'') @ nat_str d"
proof (induction k arbitrary: d)
  case (Suc k)
  show ?case
  proof (cases "d < 10")
    case True
    then show ?thesis using pad_zero [of k] by (simp add: nat_str.simps [of d])
  next
    case False
    then have "0 < k" using Suc.prems by (cases k) auto
    moreover have "d div 10 < 10 ^ k" using Suc.prems(2) by (simp add: div_less_iff_less_mult mult.commute)
    ultimately show ?thesis using Suc.IH [of "d div 10"] False by (simp add: nat_str.simps [of d])
  qed
qed simp

lemma nat_str_digit7:
  assumes "0 < a" "d < 10000000"
  shows "nat_str a @ substring 0 (7 - length (nat_str d)) ''0000000'' @ nat_str d = nat_str (a * 10000000 + d)"
proof -
  have "substring 0 j ''0000000'' = replicate j (CHR ''0'')" if "j \<le> 7" for j
  proof -
    have "''0000000'' = replicate 7 (CHR ''0'')" by (simp add: numeral_eq_Suc)
    then show ?thesis using that by (simp add: substring_def min_def)
  qed
  then show ?thesis using nat_str_pad [of a d 7] pad_replicate [of 7 d] assms by simp
qed

lemma numToString_from_pos:
  assumes "\<forall>d \<in> set ds. 0 \<le> d \<and> d < base \<and> d \<in> \<int>" "0 < a"
  shows "numToString_from (nat_str a) ds = nat_str (nat \<lfloor>of_nat a * base ^ length ds + dvalue (rev ds)\<rfloor>)"
  using assms
proof (induction ds arbitrary: a)
  case (Cons d ds)
  obtain i where i: "d = of_int i" using Cons.prems(1) by (auto elim: Ints_cases)
  have r: "0 \<le> i" "i < 10000000" using Cons.prems(1) by (simp_all add: i base_def)
  have "numToString_from (nat_str a) (d # ds) = numToString_from (nat_str (a * 10000000 + nat i)) ds"
    using nat_str_digit7 [OF Cons.prems(2), of "nat i"] r by (simp add: Let_def i)
  also have "\<dots> = nat_str (nat \<lfloor>of_nat (a * 10000000 + nat i) * base ^ length ds + dvalue (rev ds)\<rfloor>)"
    using Cons by simp
  also have "of_nat (a * 10000000 + nat i) * base ^ length ds + dvalue (rev ds) =
      of_nat a * base ^ length (d # ds) + dvalue (rev (d # ds))"
    using r by (simp add: i dvalue_append algebra_simps base_def)
  finally show ?case .
qed simp

lemma numToString_from_Nil:
  assumes "\<forall>d \<in> set ds. 0 \<le> d \<and> d < base \<and> d \<in> \<int>" "ds \<noteq> []"
  shows "numToString_from [] ds = nat_str (nat \<lfloor>dvalue (rev ds)\<rfloor>)"
  using assms
proof (induction ds)
  case (Cons d ds)
  obtain i where i: "d = of_int i" "0 \<le> i" using Cons.prems(1) by (auto elim: Ints_cases)
  consider "ds = []" | "ds \<noteq> []" "i = 0" | "ds \<noteq> []" "0 < i" using i(2) by linarith
  then show ?case
  proof cases
    case 2
    then show ?thesis using Cons i by (simp add: dvalue_append)
  next
    case 3
    then have "numToString_from [] (d # ds) = numToString_from (nat_str (nat i)) ds" by (simp add: i Let_def)
    also have "\<dots> = nat_str (nat \<lfloor>of_nat (nat i) * base ^ length ds + dvalue (rev ds)\<rfloor>)"
      using Cons.prems 3 by (intro numToString_from_pos) simp_all
    finally show ?thesis using 3 by (simp add: i dvalue_append algebra_simps)
  qed (simp add: Let_def)
qed simp

lemma numToString_value:
  assumes "\<forall>d \<in> set ds. 0 \<le> d \<and> d < base \<and> d \<in> \<int>" "ds \<noteq> []"
  shows "numToString ds = nat_str (nat \<lfloor>dvalue ds\<rfloor>)"
  using numToString_from_Nil [of "rev ds"] assms by (simp add: numToString_def)

section \<open>Powers and logarithms\<close>

lemma pow_eq: "pow x n acc = acc * x ^ n"
proof (induction x n acc rule: pow.induct)
  case (1 x n acc)
  consider "n = 0" | "n mod 2 = 1" | "n \<noteq> 0" "n mod 2 = 0" by linarith
  then show ?case
  proof cases
    case 2
    then have "x ^ n = x * x ^ (n - 1)" by (cases n) auto
    then show ?thesis using 1(1) 2 by (subst pow.simps) auto
  next
    case 3
    then have "n = 2 * (n div 2)" by presburger
    then have "x ^ n = (x * x) ^ (n div 2)" by (metis power2_eq_square power_mult)
    then show ?thesis using 1(2) 3 by (subst pow.simps) auto
  qed (simp add: pow.simps)
qed

lemma log_loop_correct:
  assumes "2 \<le> b" "log_loop b k x n = (n', x')"
  shows "\<exists>j. n' = n + k * j \<and> x = x' * b ^ j \<and> x' < b \<and> (1 \<le> x \<longrightarrow> 1 \<le> x')"
  using assms
proof (induction b k x n rule: log_loop.induct)
  case (1 b k x n)
  show ?case
  proof (cases "b \<le> x")
    case True
    have "log_loop b k (x / b) (n + k) = (n', x')" using 1(3) True 1(2) by (simp add: log_loop.simps [of b k x n])
    then obtain j where j: "n' = n + k + k * j" "x / b = x' * b ^ j" "x' < b" "1 \<le> x / b \<longrightarrow> 1 \<le> x'"
      using 1(1) True 1(2) by blast
    have "1 \<le> x / b" using True 1(2) by simp
    moreover have "x = x' * b ^ Suc j" using j(2) 1(2) by (simp add: field_simps)
    ultimately show ?thesis using j by (intro exI [of _ "Suc j"]) simp
  next
    case False
    then show ?thesis using 1(3) by (intro exI [of _ 0]) (simp add: log_loop.simps [of b k x n])
  qed
qed

lemma log_js_correct: "x < 2 ^ (log_js x + 1) \<and> (1 \<le> x \<longrightarrow> 2 ^ log_js x \<le> x)"
proof -
  obtain n y where a: "log_loop 4096 12 x 0 = (n, y)" by fastforce
  obtain m z where b: "log_loop 2 1 y n = (m, z)" by fastforce
  obtain i where i: "n = 12 * i" "x = y * 4096 ^ i" "1 \<le> x \<longrightarrow> 1 \<le> y"
    using log_loop_correct [OF _ a] by auto
  obtain j where j: "m = n + j" "y = z * 2 ^ j" "z < 2" "1 \<le> y \<longrightarrow> 1 \<le> z"
    using log_loop_correct [OF _ b] by auto
  have "(4096 :: rat) = 2 ^ 12" by simp
  then have x: "x = z * 2 ^ m" using i j by (simp add: power_mult power_add del: power_numeral)
  have "log_js x = m" unfolding log_js_def a Let_def prod.case b by simp
  then show ?thesis using x i(3) j(3,4) by (simp add: mult.commute)
qed

lemma log_js_small: "x < 2 \<Longrightarrow> log_js x = 0"
  by (simp add: log_js_def log_loop.simps [of 4096] log_loop.simps [of 2])

section \<open>The value that toFixed computes\<close>

lemma floor_floor_div:
  fixes a :: rat
  assumes "0 < n"
  shows "\<lfloor>of_int \<lfloor>a\<rfloor> / (of_int n :: rat)\<rfloor> = \<lfloor>a / of_int n\<rfloor>"
proof -
  let ?q = "\<lfloor>a / of_int n\<rfloor>"
  have n: "(0 :: rat) < of_int n" using assms by simp
  have "of_int ?q \<le> a / of_int n" "a / of_int n < of_int (?q + 1)" by (simp_all add: floor_less_cancel)
  then have "of_int (?q * n) \<le> a" "a < of_int ((?q + 1) * n)"
    using n by (simp_all only: pos_le_divide_eq pos_divide_less_eq of_int_mult)
  then have "?q * n \<le> \<lfloor>a\<rfloor>" "\<lfloor>a\<rfloor> < (?q + 1) * n" by (simp_all add: le_floor_iff floor_less_iff)
  then have "of_int (?q * n) \<le> (of_int \<lfloor>a\<rfloor> :: rat)" "(of_int \<lfloor>a\<rfloor> :: rat) < of_int ((?q + 1) * n)"
    by (simp_all only: of_int_le_iff of_int_less_iff)
  then have "of_int ?q \<le> of_int \<lfloor>a\<rfloor> / (of_int n :: rat)" "of_int \<lfloor>a\<rfloor> / (of_int n :: rat) < of_int (?q + 1)"
    using n by (simp_all only: pos_le_divide_eq pos_divide_less_eq of_int_mult)
  then show ?thesis by (intro floor_unique) simp_all
qed

definition nonneg :: "rat list \<Rightarrow> bool" where
  "nonneg ds \<longleftrightarrow> length ds = data_size \<and> (\<forall>d \<in> set ds. 0 \<le> d)"

lemma nonneg_ne: "nonneg ds \<Longrightarrow> ds \<noteq> []"
  by (auto simp: nonneg_def data_size_def)

lemma nonneg_multiply [simp]: "nonneg ds \<Longrightarrow> nonneg (multiply n c ds)"
  using multiply_range by (auto simp: nonneg_def)

lemma nonneg_divide: "0 < n \<Longrightarrow> nonneg ds \<Longrightarrow> nonneg (divide n ds)"
  using divide_digits by (auto simp: nonneg_def)

lemma multiply_nonneg_value:
  "\<lbrakk>nonneg ds; 0 \<le> n; 0 \<le> c; n * dvalue ds + c < base ^ data_size\<rbrakk> \<Longrightarrow>
     dvalue (multiply n c ds) = n * dvalue ds + c"
  using nonneg_ne by (intro multiply_value) (auto simp: nonneg_def)

lemma mult_loop_value:
  assumes "nonneg ds" "dvalue ds * 10 ^ j < base ^ data_size" "mult_loop j ds = (j', ds')"
  shows "nonneg ds' \<and> dvalue ds' * 10 ^ j' = dvalue ds * 10 ^ j"
  using assms
proof (induction j ds rule: mult_loop.induct)
  case (1 j ds)
  show ?case
  proof (cases "7 \<le> j")
    case True
    then obtain k where k: "j = k + 7" by (metis le_add_diff_inverse2)
    have pos: "0 \<le> dvalue ds" using 1(2) by (auto simp: nonneg_def dvalue_nonneg)
    have all: "(10000000 * dvalue ds) * 10 ^ k = dvalue ds * 10 ^ j" by (simp add: k power_add)
    have "10000000 * dvalue ds * 1 \<le> (10000000 * dvalue ds) * 10 ^ k"
      using pos by (intro mult_left_mono) (simp_all add: one_le_power)
    then have "10000000 * dvalue ds + 0 < base ^ data_size" using 1(3) all by simp
    then have v: "dvalue (multiply 10000000 0 ds) = 10000000 * dvalue ds"
      using 1(2) multiply_nonneg_value [of ds 10000000 0] by simp
    have "mult_loop k (multiply 10000000 0 ds) = (j', ds')"
      using 1(4) True by (simp add: mult_loop.simps [of "k + 7" ds] k)
    then show ?thesis using 1(1) [OF True] 1(2,3) all v by (simp add: k)
  next
    case False
    then show ?thesis using 1(2,4) by (simp add: mult_loop.simps [of j ds])
  qed
qed

lemma div_loop_value:
  assumes "nonneg ds" "div_loop j ds = (j', ds')"
  shows "nonneg ds' \<and> \<lfloor>dvalue ds' / 2 ^ j'\<rfloor> = \<lfloor>dvalue ds / 2 ^ j\<rfloor>"
  using assms
proof (induction j ds rule: div_loop.induct)
  case (1 j ds)
  show ?case
  proof (cases "23 \<le> j")
    case True
    then obtain k where k: "j = k + 23" by (metis le_add_diff_inverse2)
    have v: "dvalue (divide (2 ^ 23) ds) = of_int \<lfloor>dvalue ds / 2 ^ 23\<rfloor>"
      using 1(2) nonneg_ne by (intro divide_value) auto
    have "\<lfloor>of_int \<lfloor>dvalue ds / 2 ^ 23\<rfloor> / (2 ^ k :: rat)\<rfloor> = \<lfloor>dvalue ds / 2 ^ 23 / 2 ^ k\<rfloor>"
      using floor_floor_div [of "2 ^ k" "dvalue ds / 2 ^ 23"] by simp
    also have "dvalue ds / 2 ^ 23 / 2 ^ k = dvalue ds / 2 ^ j" by (simp add: k power_add)
    finally have f: "\<lfloor>dvalue (divide (2 ^ 23) ds) / 2 ^ k\<rfloor> = \<lfloor>dvalue ds / 2 ^ j\<rfloor>" by (simp only: v)
    have "div_loop k (divide (2 ^ 23) ds) = (j', ds')"
      using 1(3) True by (simp add: div_loop.simps [of "k + 23" ds] k)
    moreover have "nonneg (divide (2 ^ 23) ds)" using 1(2) by (intro nonneg_divide) auto
    ultimately show ?thesis using 1(1) [OF True] f by (simp add: k)
  next
    case False
    then show ?thesis using 1(2,3) by (simp add: div_loop.simps [of j ds])
  qed
qed

lemma round_half:
  fixes y :: rat
  assumes "0 \<le> y"
  shows "\<lfloor>(of_int \<lfloor>2 * y\<rfloor> + 1) / (2 :: rat)\<rfloor> = \<lfloor>y + 1 / 2\<rfloor>"
proof -
  have "\<lfloor>of_int \<lfloor>2 * y + 1\<rfloor> / (of_int 2 :: rat)\<rfloor> = \<lfloor>(2 * y + 1) / of_int 2\<rfloor>" by (rule floor_floor_div) simp
  moreover have "(of_int \<lfloor>2 * y\<rfloor> + 1 :: rat) = of_int \<lfloor>2 * y + 1\<rfloor>" by simp
  moreover have "(2 * y + 1) / of_int 2 = y + 1 / 2" by (simp add: add_divide_distrib)
  ultimately show ?thesis by (simp only: of_int_numeral)
qed

lemma round_digits:
  \<comment> \<open>dividing by a power of two with rounding, on digits\<close>
  assumes "nonneg ds" "dvalue ds + 1 < base ^ data_size" "div_loop k ds = (j, es)"
  shows "numToString (divide 2 (multiply 1 1 (divide (2 ^ j) es))) = nat_str (nat \<lfloor>dvalue ds / 2 ^ Suc k + 1 / 2\<rfloor>)"
proof -
  note es = div_loop_value [OF assms(1,3)]
  have pos: "0 \<le> dvalue ds" using assms(1) by (simp add: nonneg_def dvalue_nonneg)
  define fs where "fs = divide (2 ^ j) es"
  have fs: "nonneg fs" "\<forall>d \<in> set fs. d \<in> \<int>"
    using es nonneg_divide [of "2 ^ j" es] divide_digits [of "2 ^ j" es] by (auto simp: fs_def nonneg_def)
  have "dvalue fs = of_int \<lfloor>dvalue es / 2 ^ j\<rfloor>" unfolding fs_def using es nonneg_ne by (intro divide_value) auto
  then have v: "dvalue fs = of_int \<lfloor>dvalue ds / 2 ^ k\<rfloor>" using es by simp
  have "dvalue ds / 2 ^ k \<le> dvalue ds / 1" using pos by (intro divide_left_mono) (simp_all add: one_le_power)
  then have "of_int \<lfloor>dvalue ds / 2 ^ k\<rfloor> \<le> dvalue ds"
    using of_int_floor_le [of "dvalue ds / 2 ^ k"] by (metis div_by_1 order_trans)
  then have lt: "1 * dvalue fs + 1 < base ^ data_size" using v assms(2) by simp
  define gs where "gs = multiply 1 1 fs"
  have gs: "dvalue gs = dvalue fs + 1" "nonneg gs" "\<forall>d \<in> set gs. 0 \<le> d \<and> d < base \<and> d \<in> \<int>"
    using multiply_nonneg_value [OF fs(1) _ _ lt] fs multiply_range multiply_Ints [of 1 1 fs]
    unfolding gs_def by auto
  have "dvalue (divide 2 gs) = of_int \<lfloor>dvalue gs / 2\<rfloor>" using gs(2) nonneg_ne by (intro divide_value) auto
  also have "\<lfloor>dvalue gs / 2\<rfloor> = \<lfloor>dvalue ds / 2 ^ Suc k + 1 / 2\<rfloor>"
    using round_half [of "dvalue ds / 2 ^ Suc k"] pos by (simp add: gs(1) v)
  finally have h: "\<lfloor>dvalue (divide 2 gs)\<rfloor> = \<lfloor>dvalue ds / 2 ^ Suc k + 1 / 2\<rfloor>" by simp
  have "\<forall>d \<in> set (divide 2 gs). 0 \<le> d \<and> d < base \<and> d \<in> \<int>"
    using gs(3) divide_digits [of 2 gs] half_digits [of gs] by auto
  moreover have "divide 2 gs \<noteq> []" using gs(2) nonneg_divide [of 2 gs] nonneg_ne by auto
  ultimately have "numToString (divide 2 gs) = nat_str (nat \<lfloor>dvalue (divide 2 gs)\<rfloor>)" by (rule numToString_value)
  then show ?thesis using h by (simp add: gs_def fs_def)
qed

definition is_double :: "rat \<Rightarrow> bool" where
  \<comment> \<open>a significand below \<open>2 ^ 53\<close> and a power of two\<close>
  "is_double x \<longleftrightarrow> (\<exists>m :: int. \<exists>k :: nat. \<bar>m\<bar> < 2 ^ 53 \<and> (x = of_int m * 2 ^ k \<or> x = of_int m / 2 ^ k))"

lemma double_whole:
  assumes "is_double x" "2 ^ (j + 52) \<le> x"
  shows "x / 2 ^ j \<in> \<int>"
proof -
  obtain m :: int and k :: nat where m: "\<bar>m\<bar> < 2 ^ 53" "x = of_int m * 2 ^ k \<or> x = of_int m / 2 ^ k"
    using assms(1) unfolding is_double_def by blast
  have "(of_int m :: rat) < of_int (2 ^ 53)" using m(1) by (simp only: of_int_less_iff)
  then have m': "(of_int m :: rat) < 2 ^ 53" by simp
  show ?thesis
  proof (cases "x = of_int m * 2 ^ k")
    case True
    have "x < 2 ^ 53 * 2 ^ k" using True m' by simp
    then have "(2 :: rat) ^ (j + 52) < 2 ^ (53 + k)" using assms(2) by (simp add: power_add)
    then have "j + 52 < 53 + k" by (rule power_less_imp_less_exp [rotated]) simp
    then obtain i where "k = j + i" using le_Suc_ex [of j k] by auto
    then have "x / 2 ^ j = of_int (m * 2 ^ i)" using True by (simp add: power_add)
    then show ?thesis by (metis Ints_of_int)
  next
    case False
    then have x: "x = of_int m / 2 ^ k" using m(2) by simp
    then have "x * 2 ^ k < 2 ^ 53" using m' by simp
    then have "(2 :: rat) ^ (j + 52) * 2 ^ k < 2 ^ 53"
      using assms(2) by (meson le_less_trans mult_right_mono zero_le_numeral zero_le_power)
    then have "(2 :: rat) ^ (j + 52 + k) < 2 ^ 53" by (simp add: power_add)
    then have "j + 52 + k < 53" by (rule power_less_imp_less_exp [rotated]) simp
    then have "j = 0" "k = 0" by simp_all
    then show ?thesis using x by simp
  qed
qed

lemma multiply_zero_Ints: "c \<in> \<int> \<Longrightarrow> d \<in> set (multiply 0 c ds) \<Longrightarrow> d \<in> \<int>"
proof (induction ds arbitrary: c)
  case (Cons e ds)
  have "base \<in> \<int>" by (simp add: base_def)
  then show ?case using Cons.prems Cons.IH [of "of_int \<lfloor>c / base\<rfloor>"] by (auto simp: Let_def rmod_Ints)
qed simp

lemma shift_by: "(if int L - 69 < 0 then x * 2 ^ nat (- (int L - 69)) else x / 2 ^ nat (int L - 69)) * 2 ^ 52 =
    x * 2 ^ 121 / 2 ^ L" for x :: rat
proof (cases "L < 69")
  case True
  then obtain i where i: "L + i = 69" by (metis less_imp_add_positive)
  then have "nat (- (int L - 69)) = i" "int L - 69 < 0" "L + i + 52 = 121" using True by simp_all
  moreover from this have "(2 :: rat) ^ 121 = 2 ^ L * 2 ^ i * 2 ^ 52" by (metis power_add)
  then have "x * 2 ^ 121 / 2 ^ L = x * (2 ^ L * 2 ^ i * 2 ^ 52) / 2 ^ L" by (simp only: )
  then have "x * 2 ^ 121 / 2 ^ L = x * 2 ^ i * 2 ^ 52" by (rule trans) simp
  ultimately show ?thesis by (simp only: if_True)
next
  case False
  then obtain i where i: "L = 69 + i" using le_Suc_ex [of 69 L] by auto
  then have "nat (int L - 69) = i" "\<not> int L - 69 < 0" by simp_all
  then show ?thesis by (simp only: if_False i power_add) simp
qed

lemma scaled:
  fixes x :: rat
  assumes "0 < x"
  defines "z \<equiv> x * 2 ^ 121 / 2 ^ log_js (x * 2 ^ 69)"
  shows "0 < z" "z < 2 ^ 53"
proof -
  define L where "L = log_js (x * 2 ^ 69)"
  show "0 < z" using assms(1) by (simp add: z_def)
  have "x * 2 ^ 69 < 2 ^ (L + 1)" using log_js_correct [of "x * 2 ^ 69"] unfolding L_def by blast
  then have "x * 2 ^ 69 * 2 ^ 52 < 2 ^ (L + 1) * 2 ^ 52" by (rule mult_strict_right_mono) simp
  then have "x * 2 ^ 121 < 2 ^ 53 * 2 ^ L" by (simp add: power_add mult.commute)
  then show "z < 2 ^ 53" unfolding z_def L_def [symmetric] by (subst pos_divide_less_eq) simp_all
qed

lemma digits_of_correct:
  assumes "0 < x" "x < 1000000000000000000000" "is_double x" "f \<le> 20" "nonneg ds"
  shows "digits_of x f ds = nat_str (nat \<lfloor>x * 10 ^ f + 1 / 2\<rfloor>)"
proof -
  define L where "L = log_js (x * 2 ^ 69)"
  define z where "z = x * 2 ^ 121 / 2 ^ L"
  have z: "0 < z" "z < 2 ^ 53" using scaled [OF assms(1)] unfolding z_def L_def by simp_all
  have big: "base ^ data_size = 10 ^ 42" by (simp add: base_def data_size_def)
  define es where "es = multiply 0 z ds"
  have es: "nonneg es" "dvalue es = z"
    using multiply_nonneg_value [OF assms(5), of 0 z] assms(5) z big by (simp_all add: es_def)
  have unf: "digits_of x f ds =
    (if 0 < 121 - int L
     then let (j, es) = mult_loop f es; es = multiply (10 ^ j) 0 es; (j, es) = div_loop (nat (120 - int L)) es in
       numToString (divide 2 (multiply 1 1 (divide (2 ^ j) es)))
     else numToString (multiply (2 ^ nat (int L - 121)) 0 es) @ substring 2 (2 + f) ''0.00000000000000000000'')"
  proof -
    have "(4503599627370496 :: rat) = 2 ^ 52" "52 - (int L - 69) = 121 - int L" "121 - int L - 1 = 120 - int L"
      "- (121 - int L) = int L - 121" by simp_all
    note eqs = this
    show ?thesis
      unfolding digits_of_def pow_eq mult_1 Let_def L_def [symmetric]
      by (simp only: eqs(1) shift_by z_def [symmetric] es_def [symmetric] eqs(2-4))
  qed
  show ?thesis
  proof (cases "L < 121")
    case True
    have "(10 :: rat) ^ f \<le> 10 ^ 20" using assms(4) by (intro power_increasing) simp_all
    then have "z * 10 ^ f < 2 ^ 53 * 10 ^ 20" using z by (intro mult_less_le_imp_less) simp_all
    then have lt: "z * 10 ^ f + 1 < base ^ data_size" by (simp add: big)
    obtain j fs where fs: "mult_loop f es = (j, fs)" by fastforce
    have "dvalue es * 10 ^ f < base ^ data_size" using lt es(2) by simp
    note fsv = mult_loop_value [OF es(1) this fs]
    define gs where "gs = multiply (10 ^ j) 0 fs"
    have gs: "nonneg gs" "dvalue gs = z * 10 ^ f"
      using fsv lt es(2) multiply_nonneg_value [of fs "10 ^ j" 0] by (simp_all add: gs_def mult.commute)
    obtain i hs where hs: "div_loop (nat (120 - int L)) gs = (i, hs)" by fastforce
    have "digits_of x f ds = nat_str (nat \<lfloor>dvalue gs / 2 ^ Suc (nat (120 - int L)) + 1 / 2\<rfloor>)"
      using round_digits [OF gs(1) _ hs] lt gs(2) True unf fs hs by (simp add: gs_def)
    also have "dvalue gs / 2 ^ Suc (nat (120 - int L)) = x * 10 ^ f"
    proof -
      obtain i where i: "L + i = 121" using less_imp_add_positive [OF True] by blast
      then have k: "Suc (nat (120 - int L)) = i" using True by linarith
      have "(2 :: rat) ^ 121 = 2 ^ L * 2 ^ i" using i by (metis power_add)
      then have "z = x * (2 ^ L * 2 ^ i) / 2 ^ L" unfolding z_def by (simp only: )
      then have "z = x * 2 ^ i" by (rule trans) simp
      then show ?thesis unfolding gs(2) k by simp
    qed
    finally show ?thesis .
  next
    case False
    then obtain j where j: "L = 121 + j" using le_Suc_ex [of 121 L] by auto
    have "2 \<le> x * 2 ^ 69" using log_js_small [of "x * 2 ^ 69"] j L_def by (auto simp: not_less [symmetric])
    then have "2 ^ L \<le> x * 2 ^ 69" using log_js_correct [of "x * 2 ^ 69"] by (simp add: L_def)
    then have "2 ^ (j + 52) \<le> x" by (simp add: j power_add)
    then have "x / 2 ^ j \<in> \<int>" by (rule double_whole [OF assms(3)])
    moreover have zj: "z = x / 2 ^ j" by (simp add: z_def j power_add)
    ultimately have zi: "z \<in> \<int>" by simp
    define gs where "gs = multiply (2 ^ j) 0 es"
    have "2 ^ j * dvalue es + 0 < base ^ data_size" using assms(2) by (simp add: es(2) zj big)
    then have gs: "nonneg gs" "dvalue gs = x"
      using es multiply_nonneg_value [of es "2 ^ j" 0] by (simp_all add: gs_def zj)
    have "\<forall>d \<in> set gs. 0 \<le> d \<and> d < base \<and> d \<in> \<int>"
      using multiply_range multiply_Ints [of "2 ^ j" 0 es] multiply_zero_Ints [OF zi, of _ ds]
      by (auto simp: gs_def es_def)
    then have m: "numToString gs = nat_str (nat \<lfloor>x\<rfloor>)" using numToString_value gs nonneg_ne by metis
    have "x = z * 2 ^ j" by (simp add: zj)
    then have "x \<in> \<int>" using zi by simp
    then obtain i where i: "x = of_int i" "0 < i" using assms(1) by (auto elim!: Ints_cases)
    have "substring 2 (2 + f) ''0.00000000000000000000'' = replicate f (CHR ''0'')"
    proof -
      have "''0.00000000000000000000'' = ''0.'' @ replicate 20 (CHR ''0'')" by (simp add: numeral_eq_Suc)
      then show ?thesis using assms(4) by (simp add: substring_def)
    qed
    then have "digits_of x f ds = nat_str (nat i) @ pad f 0"
      using unf m j i by (simp add: gs_def pad_zero)
    also have "\<dots> = nat_str (nat i * 10 ^ f + 0)" using nat_str_pad [of "nat i" 0 f] i(2) by simp
    also have "nat i * 10 ^ f + 0 = nat \<lfloor>x * 10 ^ f + 1 / 2\<rfloor>"
    proof -
      have "x * 10 ^ f + 1 / 2 = of_int (i * 10 ^ f) + 1 / 2" by (simp add: i(1))
      then have "\<lfloor>x * 10 ^ f + 1 / 2\<rfloor> = i * 10 ^ f" by (intro floor_unique) simp_all
      then show ?thesis using i(2) by (simp add: nat_mult_distrib nat_power_eq)
    qed
    finally show ?thesis .
  qed
qed

section \<open>The result that ES5 prescribes\<close>

definition nearest :: "nat \<Rightarrow> rat \<Rightarrow> nat \<Rightarrow> bool" where
  \<comment> \<open>step 8 a: \<open>n / 10 ^ f - x\<close> is as close to zero as possible; of two such \<open>n\<close> the larger one\<close>
  "nearest f x n \<longleftrightarrow> (\<forall>k :: nat. \<bar>of_nat n / 10 ^ f - x\<bar> \<le> \<bar>of_nat k / 10 ^ f - x\<bar> \<and>
     (\<bar>of_nat k / 10 ^ f - x\<bar> = \<bar>of_nat n / 10 ^ f - x\<bar> \<longrightarrow> k \<le> n))"

definition decimal :: "nat \<Rightarrow> nat \<Rightarrow> string" where
  \<comment> \<open>steps 8 b and 8 c: the digits of \<open>n\<close> with \<open>f\<close> digits after the point\<close>
  "decimal f n =
     (if f = 0 then nat_str n
      else let m = nat_str n; m = replicate (f + 1 - length m) (CHR ''0'') @ m; k = length m in
        take (k - f) m @ ''.'' @ drop (k - f) m)"

lemma point_decimal:
  assumes "f \<le> 20"
  shows "point f s (nat_str n) = s @ decimal f n"
proof (cases "0 < f \<and> length (nat_str n) \<le> f")
  case True
  have "''0.0000000000000000000'' = ''0.'' @ replicate 19 (CHR ''0'')" by (simp add: numeral_eq_Suc)
  moreover have "f - length (nat_str n) \<le> 19"
    using assms nat_str_not_Nil [of n] by (cases "nat_str n") auto
  ultimately have "substring 0 (f - length (nat_str n) + 2) ''0.0000000000000000000'' =
      ''0.'' @ replicate (f - length (nat_str n)) (CHR ''0'')"
    by (simp add: substring_def)
  then show ?thesis using True by (simp add: point_def decimal_def Let_def Suc_diff_le)
next
  case False
  then show ?thesis by (auto simp: point_def decimal_def Let_def substring_def)
qed

lemma nearest_round:
  fixes x :: rat
  assumes "0 \<le> x"
  shows "nearest f x (nat \<lfloor>x * 10 ^ f + 1 / 2\<rfloor>)"
  unfolding nearest_def
proof
  fix k :: nat
  let ?y = "x * 10 ^ f"
  let ?n = "nat \<lfloor>?y + 1 / 2\<rfloor>"
  have "0 \<le> ?y" using assms by simp
  then have n: "of_nat ?n \<le> ?y + 1 / 2" "?y + 1 / 2 < of_nat ?n + 1"
    using floor_correct [of "?y + 1 / 2"] by (simp_all add: of_nat_nat)
  have scale: "\<bar>of_nat j / 10 ^ f - x\<bar> = \<bar>of_nat j - ?y\<bar> / 10 ^ f" for j :: nat
  proof -
    have "of_nat j / 10 ^ f - x = (of_nat j - ?y) / 10 ^ f" by (simp add: diff_divide_distrib)
    then show ?thesis by (simp add: abs_divide)
  qed
  have dist: "\<bar>of_nat ?n - ?y\<bar> \<le> 1 / 2" using n by linarith
  consider "k = ?n" | "k < ?n" "of_nat k + 1 \<le> (of_nat ?n :: rat)" | "?n < k" "of_nat ?n + 1 \<le> (of_nat k :: rat)"
    by (metis Suc_leI linorder_neqE_nat of_nat_Suc of_nat_le_iff add.commute)
  then have "\<bar>of_nat ?n - ?y\<bar> \<le> \<bar>of_nat k - ?y\<bar> \<and> (\<bar>of_nat k - ?y\<bar> = \<bar>of_nat ?n - ?y\<bar> \<longrightarrow> k \<le> ?n)"
  proof cases
    case 2
    then have "1 / 2 \<le> \<bar>of_nat k - ?y\<bar>" using n by linarith
    then show ?thesis using dist 2 by linarith
  next
    case 3
    then have "1 / 2 < \<bar>of_nat k - ?y\<bar>" using n by linarith
    then show ?thesis using dist by linarith
  qed simp
  then show "\<bar>of_nat ?n / 10 ^ f - x\<bar> \<le> \<bar>of_nat k / 10 ^ f - x\<bar> \<and>
      (\<bar>of_nat k / 10 ^ f - x\<bar> = \<bar>of_nat ?n / 10 ^ f - x\<bar> \<longrightarrow> k \<le> ?n)"
    by (simp add: scale divide_right_mono)
qed

lemma round_tiny:
  fixes x :: rat
  assumes "0 \<le> x" "x \<le> 1 / 1000000000000000000000" "f \<le> 20"
  shows "nat \<lfloor>x * 10 ^ f + 1 / 2\<rfloor> = 0"
proof -
  have "(10 :: rat) ^ f \<le> 10 ^ 20" using assms(3) by (intro power_increasing) simp_all
  then have "x * 10 ^ f \<le> 1 / 1000000000000000000000 * 10 ^ 20" using assms(1,2) by (intro mult_mono) simp_all
  then have "x * 10 ^ f + 1 / 2 < 1" by simp
  moreover have "0 \<le> x * 10 ^ f + 1 / 2" using assms(1) by simp
  ultimately have "\<lfloor>x * 10 ^ f + 1 / 2\<rfloor> = 0" by (intro floor_unique) simp_all
  then show ?thesis by simp
qed

lemma fraction_digits_nat: "f \<le> 20 \<Longrightarrow> fraction_digits (Fin (of_nat f)) = Inr f"
  by (simp add: fraction_digits_def)

lemma is_double_minus: "is_double x \<Longrightarrow> is_double (- x)"
  unfolding is_double_def by (metis abs_minus_cancel minus_divide_left mult_minus_left of_int_minus)

lemma toFixed_value:
  assumes "is_double x" "\<bar>x\<bar> < 1000000000000000000000" "f \<le> 20" "nonneg ds"
  shows "toFixed str ds (Fin x) (Fin (of_nat f)) =
    Inr ((if x < 0 then ''-'' else '''') @ decimal f (nat \<lfloor>\<bar>x\<bar> * 10 ^ f + 1 / 2\<rfloor>))"
proof -
  let ?n = "nat \<lfloor>\<bar>x\<bar> * 10 ^ f + 1 / 2\<rfloor>"
  have dbl: "is_double \<bar>x\<bar>" using assms(1) is_double_minus by (auto simp: abs_if)
  have "(if 1 / 1000000000000000000000 < \<bar>x\<bar> then digits_of \<bar>x\<bar> f ds else ''0'') = nat_str ?n"
  proof (cases "1 / 1000000000000000000000 < \<bar>x\<bar>")
    case True
    then have "0 < \<bar>x\<bar>" by (rule less_trans [rotated]) simp
    then show ?thesis using digits_of_correct [OF _ assms(2) dbl assms(3,4)] True by simp
  next
    case False
    then have "?n = 0" using assms(3) by (intro round_tiny) simp_all
    then show ?thesis using False by (simp add: nat_str.simps digit_zero)
  qed
  moreover have "(if x < 0 then - x else x) = \<bar>x\<bar>" by simp
  moreover have "\<not> (x \<le> - 1000000000000000000000 \<or> x \<ge> 1000000000000000000000)" using assms(2) by linarith
  ultimately show ?thesis
    unfolding toFixed_def fraction_digits_nat [OF assms(3)] Let_def
    by (simp only: sum.case number.case if_False point_decimal [OF assms(3)])
qed

section \<open>The arithmetic is exact\<close>

fun multiply_terms :: "rat \<Rightarrow> rat \<Rightarrow> rat list \<Rightarrow> rat list" where
  \<comment> \<open>the values of \<^verbatim>\<open>c2\<close> in \<^const>\<open>multiply\<close>\<close>
  "multiply_terms n c [] = []"
| "multiply_terms n c (d # ds) = (c + n * d) # multiply_terms n (of_int \<lfloor>(c + n * d) / base\<rfloor>) ds"

fun divide_terms :: "rat \<Rightarrow> rat \<Rightarrow> rat list \<Rightarrow> rat list" where
  \<comment> \<open>the values of \<^verbatim>\<open>c\<close> in \<^const>\<open>divide_from\<close>, before and after the multiplication\<close>
  "divide_terms n c [] = []"
| "divide_terms n c (d # ds) = (c + d) # (rmod (c + d) n * base) # divide_terms n (rmod (c + d) n * base) ds"

lemma multiply_exact:
  assumes "0 \<le> n" "n \<le> 10000000" "\<forall>d \<in> set ds. 0 \<le> d \<and> d < base"
    and "0 \<le> c" "c + n * base < 2 ^ 53" "t \<in> set (multiply_terms n c ds)"
  shows "t < 2 ^ 53"
  using assms(3-)
proof (induction ds arbitrary: c)
  case (Cons d ds)
  have "n * d \<le> n * base" using assms(1) Cons.prems(1) by (intro mult_left_mono) auto
  then have c: "0 \<le> c + n * d" "c + n * d < 2 ^ 53" using assms(1) Cons.prems by auto
  then have "(c + n * d) / base < 2 ^ 53 - 10 ^ 14" by (simp add: base_def divide_less_eq)
  then have "of_int \<lfloor>(c + n * d) / base\<rfloor> < (2 ^ 53 - 10 ^ 14 :: rat)" by (rule le_less_trans [OF of_int_floor_le])
  moreover have "n * base \<le> 10 ^ 14" using assms(2) by (simp add: base_def)
  ultimately have "of_int \<lfloor>(c + n * d) / base\<rfloor> + n * base < 2 ^ 53 - 10 ^ 14 + 10 ^ 14"
    by (rule add_less_le_mono)
  then show ?case using Cons.prems c Cons.IH [of "of_int \<lfloor>(c + n * d) / base\<rfloor>"] by auto
qed simp

lemma divide_exact:
  assumes "0 < n" "n \<le> 2 ^ 23" "\<forall>d \<in> set ds. 0 \<le> d \<and> d < base"
    and "0 \<le> c" "c \<le> 2 ^ 23 * base" "t \<in> set (divide_terms n c ds)"
  shows "t < 2 ^ 53"
  using assms(3-)
proof (induction ds arbitrary: c)
  case (Cons d ds)
  have r: "0 \<le> rmod (c + d) n" "rmod (c + d) n < n" using rmod_bounds [OF assms(1)] by simp_all
  then have "rmod (c + d) n * base \<le> 2 ^ 23 * base" using assms(2) by (intro mult_right_mono) auto
  moreover have "c + d < 2 ^ 53" using Cons.prems by (auto simp: base_def)
  ultimately show ?case using Cons.prems r Cons.IH [of "rmod (c + d) n * base"] by (auto simp: base_def)
qed simp

section \<open>Properties\<close>

text \<open>
  C22: The shim of \<^verbatim>\<open>toFixed\<close> is correct. For a double below 10 ^ 21 in size and up to 20 fraction
  digits it returns the sign and the decimal numeral of the nearest multiple of \<open>1 / 10 ^ f\<close>, the larger one of two
  equally near ones, with exactly \<open>f\<close> digits after the point, as ES5 15.7.4.5 prescribes; the
  digits that an earlier call has left in the shared array do not matter.
\<close>
theorem toFixed_nearest:
  assumes "is_double x" "\<bar>x\<bar> < 1000000000000000000000" "f \<le> 20" "nonneg ds"
  shows "\<exists>n. nearest f \<bar>x\<bar> n \<and>
    toFixed str ds (Fin x) (Fin (of_nat f)) = Inr ((if x < 0 then ''-'' else '''') @ decimal f n)"
  using nearest_round [of "\<bar>x\<bar>" f] toFixed_value [OF assms] by (intro exI conjI) simp_all

theorem toFixed_nearest_witness:
  "\<exists>n. nearest 2 (37 / 8) n \<and> toFixed (\<lambda>_. '''') (replicate 6 0) (Fin (37 / 8)) (Fin 2) = Inr (decimal 2 n)"
proof -
  have "is_double (37 / 8)" unfolding is_double_def by (intro exI [of _ 37] exI [of _ 3]) simp
  from toFixed_nearest [OF this, of 2 "replicate 6 0" "\<lambda>_. ''''"] show ?thesis
    by (simp add: nonneg_def data_size_def)
qed

end
