(* ===== verification/Es5_Date.thy ===== *)
theory Es5_Date
  imports Es5_Number
begin

text \<open>
  The dates of \<^verbatim>\<open>es5-shim.js\<close>: \<^verbatim>\<open>toISOString\<close>, \<^verbatim>\<open>Date.parse\<close> and the constructor. A
  date is the record of its UTC fields, as the getters return them; a time value is the number of
  milliseconds since 1970, \<^term>\<open>None\<close> for \<^verbatim>\<open>NaN\<close>. The native \<^verbatim>\<open>Date.parse\<close> and the offset of the local
  time zone are parameters. The results are that \<^verbatim>\<open>dayFromMonth\<close> counts the days of the Gregorian
  calendar and that parsing undoes printing.
\<close>

section \<open>Definitions\<close>

record date =
  d_year :: int
  d_month :: int
  d_date :: int
  d_hours :: int
  d_minutes :: int
  d_seconds :: int
  d_ms :: int

subsection \<open>toISOString\<close>

definition year_string :: "int \<Rightarrow> string" where
  "year_string year = (if year < 0 then ''-'' else if year > 9999 then ''+'' else '''') @
     slice_last (if 0 \<le> year \<and> year \<le> 9999 then 4 else 6) (''00000'' @ int_str \<bar>year\<bar>)"

definition pad_field :: "int \<Rightarrow> string" where
  "pad_field value = (if value < 10 then ''0'' @ int_str value else int_str value)"

definition toISOString :: "date option \<Rightarrow> es5_error + string" where
  \<comment> \<open>\<^term>\<open>None\<close> is the invalid date; the remainder is \<open>(month % 12 + 12) % 12\<close>\<close>
  "toISOString this = (case this of
       None \<Rightarrow> Inl RangeError
     | Some d \<Rightarrow>
         let year = d_year d + d_month d div 12;
             month = d_month d mod 12;
             result = map pad_field [month + 1, d_date d, d_hours d, d_minutes d, d_seconds d] in
         Inr (year_string year @ ''-'' @ join ''-'' (take 2 result) @ ''T'' @ join '':'' (drop 2 result) @
           ''.'' @ slice_last 3 (''000'' @ int_str (d_ms d)) @ ''Z''))"

subsection \<open>The regular expression\<close>

record iso =
  \<comment> \<open>the captures of \<^verbatim>\<open>isoDateExpression\<close>; \<^term>\<open>None\<close> where a group does not take part\<close>
  m_year :: string
  m_month :: "string option"
  m_day :: "string option"
  m_hour :: "string option"
  m_minute :: "string option"
  m_second :: "string option"
  m_fraction :: "string option"
  m_zone :: "string option"
  m_sign :: "char option"
  m_hourOffset :: "string option"
  m_minuteOffset :: "string option"

definition is_digit :: "char \<Rightarrow> bool" where
  "is_digit c = (digit_value c \<noteq> None)"

definition digits :: "nat \<Rightarrow> string \<Rightarrow> (string \<times> string) option" where
  \<comment> \<open>\<^verbatim>\<open>(\d{n})\<close>: the digits and the rest\<close>
  "digits n s = (if n \<le> length s \<and> list_all is_digit (take n s) then Some (take n s, drop n s) else None)"

definition lit :: "char \<Rightarrow> string \<Rightarrow> string option" where
  "lit c s = (case s of d # ds \<Rightarrow> if d = c then Some ds else None | [] \<Rightarrow> None)"

definition match_year :: "string \<Rightarrow> (string \<times> string) option" where
  "match_year s = (case digits 4 s of
       Some r \<Rightarrow> Some r
     | None \<Rightarrow> (case s of
           c # cs \<Rightarrow> if c = CHR ''+'' \<or> c = CHR ''-'' then map_option (\<lambda>(y, t). (c # y, t)) (digits 6 cs) else None
         | [] \<Rightarrow> None))"

definition match_zone :: "iso \<Rightarrow> string \<Rightarrow> iso option" where
  \<comment> \<open>the optional offset and the end of the string\<close>
  "match_zone m s =
     (if s = [] then Some m
      else if s = ''Z'' then Some (m\<lparr>m_zone := Some ''Z''\<rparr>)
      else if hd s = CHR ''-'' \<or> hd s = CHR ''+'' then do {
        (h, t) \<leftarrow> digits 2 (tl s);
        t \<leftarrow> lit (CHR '':'') t;
        (n, t) \<leftarrow> digits 2 t;
        if t = [] then Some (m\<lparr>m_zone := Some s, m_sign := Some (hd s), m_hourOffset := Some h, m_minuteOffset := Some n\<rparr>)
        else None }
      else None)"

definition match_fraction :: "iso \<Rightarrow> string \<Rightarrow> iso option" where
  "match_fraction m s = (case lit (CHR ''.'') s of
       Some t \<Rightarrow> (let f = takeWhile is_digit t in
         if f = [] then None else match_zone (m\<lparr>m_fraction := Some (CHR ''.'' # f)\<rparr>) (dropWhile is_digit t))
     | None \<Rightarrow> match_zone m s)"

definition match_seconds :: "iso \<Rightarrow> string \<Rightarrow> iso option" where
  "match_seconds m s = (case lit (CHR '':'') s of
       Some t \<Rightarrow> do { (sec, t) \<leftarrow> digits 2 t; match_fraction (m\<lparr>m_second := Some sec\<rparr>) t }
     | None \<Rightarrow> match_zone m s)"

definition match_time :: "iso \<Rightarrow> string \<Rightarrow> iso option" where
  "match_time m s =
     (if s = [] then Some m
      else do {
        t \<leftarrow> lit (CHR ''T'') s;
        (h, t) \<leftarrow> digits 2 t;
        t \<leftarrow> lit (CHR '':'') t;
        (n, t) \<leftarrow> digits 2 t;
        match_seconds (m\<lparr>m_hour := Some h, m_minute := Some n\<rparr>) t })"

definition match_day :: "iso \<Rightarrow> string \<Rightarrow> iso option" where
  "match_day m s =
     (if s = [] then Some m
      else do { t \<leftarrow> lit (CHR ''-'') s; (d, t) \<leftarrow> digits 2 t; match_time (m\<lparr>m_day := Some d\<rparr>) t })"

definition match_month :: "iso \<Rightarrow> string \<Rightarrow> iso option" where
  "match_month m s =
     (if s = [] then Some m
      else do { t \<leftarrow> lit (CHR ''-'') s; (d, t) \<leftarrow> digits 2 t; match_day (m\<lparr>m_month := Some d\<rparr>) t })"

definition isoDateExpression :: "string \<Rightarrow> iso option" where
  "isoDateExpression s = do {
     (y, t) \<leftarrow> match_year s;
     match_month \<lparr>m_year = y, m_month = None, m_day = None, m_hour = None, m_minute = None, m_second = None,
       m_fraction = None, m_zone = None, m_sign = None, m_hourOffset = None, m_minuteOffset = None\<rparr> t }"

subsection \<open>Date.parse\<close>

definition months :: "int list" where
  "months = [0, 31, 59, 90, 120, 151, 181, 212, 243, 273, 304, 334, 365]"

definition dayFromMonth :: "int \<Rightarrow> nat \<Rightarrow> int" where
  "dayFromMonth year month =
     (let t = (if month > 1 then 1 else 0) in
      months ! month + (year - 1969 + t) div 4 - (year - 1901 + t) div 100 + (year - 1601 + t) div 400 +
      365 * (year - 1970))"

definition number_or :: "int \<Rightarrow> string option \<Rightarrow> int" where
  \<comment> \<open>\<^verbatim>\<open>$Number(match[i] || v)\<close>; a capture is a nonempty numeral\<close>
  "number_or v m = (case m of Some s \<Rightarrow> (case number_of s of Some n \<Rightarrow> n | None \<Rightarrow> v) | None \<Rightarrow> v)"

definition fraction_ms :: "string option \<Rightarrow> int" where
  \<comment> \<open>\<^verbatim>\<open>Math.floor($Number(match[7] || 0) * 1000)\<close>, where the capture is a point and digits, computed exactly; the product
    of doubles has the same floor for up to 15 digits, while a longer fraction just below a millisecond may be rounded up\<close>
  "fraction_ms m = (case m of
       Some s \<Rightarrow> (case digits_value 0 (tl s) of Some n \<Rightarrow> (1000 * int n) div 10 ^ length (tl s) | None \<Rightarrow> 0)
     | None \<Rightarrow> 0)"

definition maxSafeUnsigned32Bit :: int where
  "maxSafeUnsigned32Bit = 2 ^ 31 - 1"

definition sToShift :: "int \<Rightarrow> int" where
  "sToShift ms = ((ms div maxSafeUnsigned32Bit) * maxSafeUnsigned32Bit) div 1000"

definition toUTC :: "bool \<Rightarrow> (int \<Rightarrow> int \<Rightarrow> int option) \<Rightarrow> int \<Rightarrow> int option" where
  \<comment> \<open>\<open>hasSafariSignedIntBug\<close> and \<^verbatim>\<open>$Number(new NativeDate(1970, 0, 1, 0, 0, s, ms))\<close>\<close>
  "toUTC bug local t =
     (if bug \<and> t > maxSafeUnsigned32Bit then local (sToShift t) (t - sToShift t * 1000) else local 0 t)"

definition time_result :: "bool \<Rightarrow> (int \<Rightarrow> int \<Rightarrow> int option) \<Rightarrow> iso \<Rightarrow> int option" where
  \<comment> \<open>the branch where the expression matches\<close>
  "time_result bug local m =
     (let year = (case number_of (m_year m) of Some y \<Rightarrow> y | None \<Rightarrow> 0);
          month = number_or 1 (m_month m) - 1;
          day = number_or 1 (m_day m) - 1;
          hour = number_or 0 (m_hour m);
          minute = number_or 0 (m_minute m);
          second = number_or 0 (m_second m);
          millisecond = fraction_ms (m_fraction m);
          isLocalTime = (m_hour m \<noteq> None \<and> m_zone m = None);
          signOffset = (if m_sign m = Some (CHR ''-'') then 1 else -1);
          hourOffset = number_or 0 (m_hourOffset m);
          minuteOffset = number_or 0 (m_minuteOffset m) in
      if hour < (if minute > 0 \<or> second > 0 \<or> millisecond > 0 then 24 else 25) \<and>
         minute < 60 \<and> second < 60 \<and> millisecond < 1000 \<and> month > -1 \<and> month < 12 \<and>
         hourOffset < 24 \<and> minuteOffset < 60 \<and> day > -1 \<and>
         day < dayFromMonth year (nat (month + 1)) - dayFromMonth year (nat month)
      then let result = ((dayFromMonth year (nat month) + day) * 24 + hour + hourOffset * signOffset) * 60;
               result = ((result + minute + minuteOffset * signOffset) * 60 + second) * 1000 + millisecond in
           do {
             result \<leftarrow> (if isLocalTime then toUTC bug local result else Some result);
             if - 8640000000000000 \<le> result \<and> result \<le> 8640000000000000 then Some result else None }
      else None)"

definition parse :: "bool \<Rightarrow> (int \<Rightarrow> int \<Rightarrow> int option) \<Rightarrow> (string \<Rightarrow> int option) \<Rightarrow> string \<Rightarrow> int option" where
  "parse bug local native s = (case isoDateExpression s of
       Some m \<Rightarrow> time_result bug local m
     | None \<Rightarrow> native s)"

subsection \<open>The constructor\<close>

datatype arg = Number "int option" | String string

datatype native_call = NewNative "arg list" | CallNative "arg list"
  \<comment> \<open>the call of the native constructor, with or without \<^verbatim>\<open>new\<close>\<close>

definition shift_args :: "bool \<Rightarrow> arg list \<Rightarrow> arg list" where
  \<comment> \<open>seconds and milliseconds around the Safari bug, for seven numbers\<close>
  "shift_args bug args =
     (case (args ! 5, args ! 6) of
        (Number (Some s), Number (Some ms)) \<Rightarrow>
          if bug \<and> ms > maxSafeUnsigned32Bit
          then take 5 args @ [Number (Some (s + sToShift ms)), Number (Some (ms - sToShift ms * 1000))]
          else take 7 args
      | _ \<Rightarrow> take 7 args)"

definition DateShim :: "bool \<Rightarrow> (string \<Rightarrow> int option) \<Rightarrow> bool \<Rightarrow> arg list \<Rightarrow> native_call" where
  \<comment> \<open>\<open>parse_fn\<close> is \<^verbatim>\<open>DateShim.parse\<close>, \<open>new\<close> whether \<^verbatim>\<open>this\<close> is a native date\<close>
  "DateShim bug parse_fn new args =
     (if new then
        (case args of
           [String Y] \<Rightarrow> NewNative [Number (parse_fn Y)]
         | _ \<Rightarrow> NewNative (if length args \<ge> 7 then shift_args bug args else args))
      else CallNative args)"


section \<open>The calendar\<close>

definition leap :: "int \<Rightarrow> bool" where
  "leap y \<longleftrightarrow> 4 dvd y \<and> (\<not> 100 dvd y \<or> 400 dvd y)"

definition month_length :: "int \<Rightarrow> nat \<Rightarrow> int" where
  "month_length y m = (if m = 1 then (if leap y then 29 else 28) else if m \<in> {3, 5, 8, 10} then 30 else 31)"

definition day_number :: "int \<Rightarrow> nat \<Rightarrow> int" where
  \<comment> \<open>the days from the first of January 1970 to the first day of a month\<close>
  "day_number y m =
     (\<Sum>k \<in> {1970..<y}. \<Sum>i < 12. month_length k i) - (\<Sum>k \<in> {y..<1970}. \<Sum>i < 12. month_length k i) +
     (\<Sum>i < m. month_length y i)"

lemma div_step: "0 < n \<Longrightarrow> (a + 1) div n - a div n = (if n dvd a + 1 then 1 else 0)" for a n :: int
proof -
  assume n: "0 < n"
  have a: "a = n * (a div n) + a mod n" "0 \<le> a mod n" "a mod n < n" using n by simp_all
  show ?thesis
  proof (cases "a mod n = n - 1")
    case True
    then have "a + 1 = n * (a div n + 1)" using a(1) unfolding distrib_left by linarith
    then show ?thesis using n by (metis add_diff_cancel_left' dvd_triv_left nonzero_mult_div_cancel_left less_irrefl)
  next
    case False
    then have lt: "a mod n + 1 < n" using a(3) by linarith
    have "a + 1 = (a mod n + 1) + n * (a div n)" using a(1) by linarith
    then have "(a + 1) div n = (a mod n + 1) div n + a div n" "(a + 1) mod n = (a mod n + 1) mod n"
      using n by (metis div_mult_self2 less_irrefl add.commute, metis mod_mult_self2)
    then show ?thesis using lt a(2) by (auto simp: dvd_eq_mod_eq_0)
  qed
qed

lemma leap_bits:
  "\<lbrakk>c \<longrightarrow> b; b \<longrightarrow> a\<rbrakk> \<Longrightarrow> (if a then 1 else 0) - (if b then 1 else 0) + (if c then 1 else 0) =
      (if a \<and> (\<not> b \<or> c) then 1 else 0 :: int)"
  by (cases a; cases b; cases c) simp_all

lemma leap_terms:
  "(y - 1968) div 4 - (y - 1969) div 4 - ((y - 1900) div 100 - (y - 1901) div 100) +
     ((y - 1600) div 400 - (y - 1601) div 400) = (if leap y then 1 else 0)"
proof -
  have eqs: "y - 1969 + 1 = y - 1968" "y - 1901 + 1 = y - 1900" "y - 1601 + 1 = y - 1600" by simp_all
  have dvd: "4 dvd y - 1968 \<longleftrightarrow> 4 dvd y" "100 dvd y - 1900 \<longleftrightarrow> 100 dvd y" "400 dvd y - 1600 \<longleftrightarrow> 400 dvd y"
    using dvd_add_left_iff [of 4 1968 "y - 1968"] dvd_add_left_iff [of 100 1900 "y - 1900"]
      dvd_add_left_iff [of 400 1600 "y - 1600"] by simp_all
  have "(4 :: int) dvd 100" "(100 :: int) dvd 400" by simp_all
  then have sub: "100 dvd y \<longrightarrow> 4 dvd y" "400 dvd y \<longrightarrow> 100 dvd y" by (auto intro: dvd_trans)
  note terms = div_step [of 4 "y - 1969", OF zero_less_numeral, unfolded eqs dvd]
    div_step [of 100 "y - 1901", OF zero_less_numeral, unfolded eqs dvd]
    div_step [of 400 "y - 1601", OF zero_less_numeral, unfolded eqs dvd]
  show ?thesis unfolding terms leap_def
    by (rule leap_bits) (rule sub)+
qed

lemma dayFromMonth_Suc: "m < 12 \<Longrightarrow> dayFromMonth y (Suc m) - dayFromMonth y m = month_length y m"
proof -
  assume "m < 12"
  then have "m = 0 \<or> m = 1 \<or> m = 2 \<or> m = 3 \<or> m = 4 \<or> m = 5 \<or> m = 6 \<or> m = 7 \<or> m = 8 \<or> m = 9 \<or> m = 10 \<or> m = 11"
    by presburger
  then consider "m = 0" | "m = 1" | "m \<in> {2, 3, 4, 5, 6, 7, 8, 9, 10, 11}" by blast
  then show ?thesis
  proof cases
    case 2
    have "dayFromMonth y 2 = 59 + (y - 1968) div 4 - (y - 1900) div 100 + (y - 1600) div 400 + 365 * (y - 1970)"
      "dayFromMonth y 1 = 31 + (y - 1969) div 4 - (y - 1901) div 100 + (y - 1601) div 400 + 365 * (y - 1970)"
      by (simp_all add: dayFromMonth_def months_def)
    moreover have "month_length y 1 = 28 + (if leap y then 1 else 0)" by (simp add: month_length_def)
    ultimately have "dayFromMonth y 2 - dayFromMonth y 1 = month_length y 1" using leap_terms [of y] by linarith
    then show ?thesis by (simp only: 2 Suc_1)
  next
    case 3
    then have "1 < m" "1 < Suc m" by auto
    then have "dayFromMonth y (Suc m) - dayFromMonth y m = months ! Suc m - months ! m"
      unfolding dayFromMonth_def Let_def by (simp only: if_True)
    also have "\<dots> = month_length y m" using 3 by (auto simp: months_def month_length_def)
    finally show ?thesis .
  qed (simp add: dayFromMonth_def months_def month_length_def)
qed

lemma dayFromMonth_12: "dayFromMonth y 12 = dayFromMonth (y + 1) 0"
  by (simp add: dayFromMonth_def months_def algebra_simps)

lemma dayFromMonth_sum: "m \<le> 12 \<Longrightarrow> dayFromMonth y m = dayFromMonth y 0 + (\<Sum>i < m. month_length y i)"
proof (induction m)
  case (Suc m)
  then show ?case using dayFromMonth_Suc [of m y] by simp
qed simp

lemma dayFromMonth_year: "dayFromMonth (y + 1) 0 = dayFromMonth y 0 + (\<Sum>i < 12. month_length y i)"
  using dayFromMonth_sum [of 12 y] by (simp add: dayFromMonth_12)

lemma dayFromMonth_day_number: "m \<le> 12 \<Longrightarrow> dayFromMonth y m = day_number y m"
proof -
  assume m: "m \<le> 12"
  let ?f = "\<lambda>k. \<Sum>i < 12. month_length k i"
  have up: "dayFromMonth (1970 + int n) 0 = (\<Sum>k \<in> {1970..<1970 + int n}. ?f k)" for n
  proof (induction n)
    case (Suc n)
    have "{1970..<1970 + int (Suc n)} = insert (1970 + int n) {1970..<1970 + int n}" by auto
    then show ?case using Suc dayFromMonth_year [of "1970 + int n"] by (simp add: algebra_simps)
  qed (simp add: dayFromMonth_def months_def)
  have down: "dayFromMonth (1970 - int n) 0 = - (\<Sum>k \<in> {1970 - int n..<1970}. ?f k)" for n
  proof (induction n)
    case (Suc n)
    have "{1970 - int (Suc n)..<1970} = insert (1970 - int (Suc n)) {1970 - int n..<1970}" by auto
    then show ?case using Suc dayFromMonth_year [of "1970 - int (Suc n)"] by (simp add: algebra_simps)
  qed (simp add: dayFromMonth_def months_def)
  have "dayFromMonth y 0 = (\<Sum>k \<in> {1970..<y}. ?f k) - (\<Sum>k \<in> {y..<1970}. ?f k)"
  proof (cases "1970 \<le> y")
    case True
    then show ?thesis using up [of "nat (y - 1970)"] by simp
  next
    case False
    then show ?thesis using down [of "nat (1970 - y)"] by simp
  qed
  then show ?thesis using dayFromMonth_sum [OF m, of y] by (simp add: day_number_def)
qed


section \<open>Printing and parsing\<close>

lemma pad_length [simp]: "length (pad k d) = k"
  by (induction k arbitrary: d) auto

lemma pad_not_Nil: "0 < k \<Longrightarrow> pad k d \<noteq> []"
  using pad_length [of k d] by (metis length_0_conv less_irrefl)

lemma pad_is_digits [simp]: "is_digits (pad k d)"
  by (induction k arbitrary: d) simp_all

lemma pad_value: "d < 10 ^ k \<Longrightarrow> digits_value 0 (pad k d) = Some d"
proof (induction k arbitrary: d)
  case (Suc k)
  then have "d div 10 < 10 ^ k" by (simp add: div_less_iff_less_mult mult.commute)
  then show ?case using Suc.IH by (simp add: digits_value_append)
qed simp

lemma pad_number: "0 < k \<Longrightarrow> d < 10 ^ k \<Longrightarrow> number_of (pad k d) = Some (int d)"
  by (simp add: number_of_digits pad_value)

lemma slice_last_pad:
  assumes "0 < k" "n < 10 ^ k" "k \<le> z + 1"
  shows "slice_last k (replicate z (CHR ''0'') @ nat_str n) = pad k n"
proof -
  have "length (nat_str n) \<le> k" using nat_str_length [OF assms(1)] assms(2) by simp
  moreover obtain l where "length (nat_str n) = Suc l" by (cases "nat_str n") auto
  ultimately have "slice_last k (replicate z (CHR ''0'') @ nat_str n) =
      replicate (k - length (nat_str n)) (CHR ''0'') @ nat_str n"
    using assms(3) by (simp add: slice_last_def)
  then show ?thesis using pad_replicate [OF assms(1,2)] by simp
qed

lemma slice_zeros:
  "\<lbrakk>0 < k; n < 10 ^ k; k \<le> 6\<rbrakk> \<Longrightarrow> slice_last k (''00000'' @ nat_str n) = pad k n"
  "\<lbrakk>0 < k; n < 10 ^ k; k \<le> 4\<rbrakk> \<Longrightarrow> slice_last k (''000'' @ nat_str n) = pad k n"
  using slice_last_pad [of k n 5] slice_last_pad [of k n 3] by (simp_all add: numeral_eq_Suc)

lemma pad_field_pad: "0 \<le> v \<Longrightarrow> v < 100 \<Longrightarrow> pad_field v = pad 2 (nat v)"
proof -
  assume v: "0 \<le> v" "v < 100"
  have "length (nat_str (nat v)) = (if nat v < 10 then 1 else 2)"
    using v nat_str_length [of 1 "nat v"] nat_str_length [of 2 "nat v"] nat_str_not_Nil [of "nat v"]
    by (cases "length (nat_str (nat v))") auto
  then show ?thesis using v pad_replicate [of 2 "nat v"] by (auto simp: pad_field_def int_str_def)
qed

lemma year_string_cases:
  assumes "- 999999 \<le> y" "y \<le> 999999"
  shows "year_string y = (if y < 0 then CHR ''-'' # pad 6 (nat (- y)) else if y > 9999 then CHR ''+'' # pad 6 (nat y)
    else pad 4 (nat y))"
  using assms slice_zeros(1) [of 6 "nat (- y)"] slice_zeros(1) [of 6 "nat y"] slice_zeros(1) [of 4 "nat y"]
  by (auto simp: year_string_def int_str_def)

lemma digits_append: "length s = n \<Longrightarrow> is_digits s \<Longrightarrow> digits n (s @ t) = Some (s, t)"
  by (auto simp: digits_def is_digits_def is_digit_def list_all_iff)

lemma digits_pad [simp]: "digits k (pad k d @ t) = Some (pad k d, t)"
  by (simp add: digits_append)

lemma digits_sign: "0 < n \<Longrightarrow> c = CHR ''+'' \<or> c = CHR ''-'' \<Longrightarrow> digits n (c # s) = None"
  by (cases n) (auto simp: digits_def is_digit_def)

lemma match_year_string:
  assumes "- 999999 \<le> y" "y \<le> 999999"
  shows "match_year (year_string y @ t) = Some (year_string y, t)"
  using assms by (auto simp: year_string_cases match_year_def digits_sign)

lemma year_string_number:
  assumes "- 999999 \<le> y" "y \<le> 999999"
  shows "number_of (year_string y) = Some y"
  using assms pad_value [of "nat (- y)" 6] pad_value [of "nat y" 6] pad_number [of 4 "nat y"]
    pad_not_Nil [of 6 "nat y"] pad_not_Nil [of 6 "nat (- y)"]
  by (auto simp: year_string_cases number_of_def [of "_ # _"])

lemma lit_same [simp]: "lit c (c # s) = Some s"
  by (simp add: lit_def)

definition valid_date :: "date \<Rightarrow> bool" where
  "valid_date d \<longleftrightarrow> - 999999 \<le> d_year d \<and> d_year d \<le> 999999 \<and> 0 \<le> d_month d \<and> d_month d < 12 \<and>
     1 \<le> d_date d \<and> d_date d \<le> month_length (d_year d) (nat (d_month d)) \<and>
     0 \<le> d_hours d \<and> d_hours d < 24 \<and> 0 \<le> d_minutes d \<and> d_minutes d < 60 \<and>
     0 \<le> d_seconds d \<and> d_seconds d < 60 \<and> 0 \<le> d_ms d \<and> d_ms d < 1000"

definition time_value :: "date \<Rightarrow> int" where
  "time_value d = ((((day_number (d_year d) (nat (d_month d)) + d_date d - 1) * 24 + d_hours d) * 60 + d_minutes d) * 60 +
     d_seconds d) * 1000 + d_ms d"

lemma month_length_le: "month_length y m \<le> 31"
  by (simp add: month_length_def)

lemma toISOString_pads:
  assumes "valid_date d"
  shows "toISOString (Some d) = Inr (year_string (d_year d) @ ''-'' @ pad 2 (nat (d_month d + 1)) @ ''-'' @
    pad 2 (nat (d_date d)) @ ''T'' @ pad 2 (nat (d_hours d)) @ '':'' @ pad 2 (nat (d_minutes d)) @ '':'' @
    pad 2 (nat (d_seconds d)) @ ''.'' @ pad 3 (nat (d_ms d)) @ ''Z'')"
proof -
  have "d_date d \<le> 31" using assms month_length_le [of "d_year d" "nat (d_month d)"] by (simp add: valid_date_def)
  moreover have "slice_last 3 (''000'' @ int_str (d_ms d)) = pad 3 (nat (d_ms d))"
    using assms slice_zeros(2) [of 3 "nat (d_ms d)"] by (auto simp: valid_date_def int_str_def)
  ultimately show ?thesis
    using assms by (simp add: toISOString_def Let_def pad_field_pad valid_date_def)
qed

definition iso_of :: "date \<Rightarrow> iso" where
  \<comment> \<open>the captures of a printed date\<close>
  "iso_of d = \<lparr>m_year = year_string (d_year d), m_month = Some (pad 2 (nat (d_month d + 1))),
     m_day = Some (pad 2 (nat (d_date d))), m_hour = Some (pad 2 (nat (d_hours d))),
     m_minute = Some (pad 2 (nat (d_minutes d))), m_second = Some (pad 2 (nat (d_seconds d))),
     m_fraction = Some (CHR ''.'' # pad 3 (nat (d_ms d))), m_zone = Some ''Z'', m_sign = None,
     m_hourOffset = None, m_minuteOffset = None\<rparr>"

lemma digits_while:
  assumes "is_digits s" "\<not> is_digit c"
  shows "takeWhile is_digit (s @ c # t) = s" "dropWhile is_digit (s @ c # t) = c # t"
  using assms by (induction s) (auto simp: is_digits_def is_digit_def list_all_iff)

lemma match_printed:
  assumes "valid_date d" "toISOString (Some d) = Inr s"
  shows "isoDateExpression s = Some (iso_of d)"
proof -
  have "\<not> is_digit (CHR ''Z'')" by (simp add: is_digit_def)
  note whl = digits_while [OF pad_is_digits this, of 3 "nat (d_ms d)" "[]"]
  have "s = year_string (d_year d) @ CHR ''-'' # pad 2 (nat (d_month d + 1)) @ CHR ''-'' #
      pad 2 (nat (d_date d)) @ CHR ''T'' # pad 2 (nat (d_hours d)) @ CHR '':'' # pad 2 (nat (d_minutes d)) @ CHR '':'' #
      pad 2 (nat (d_seconds d)) @ CHR ''.'' # pad 3 (nat (d_ms d)) @ ''Z''"
    using assms toISOString_pads [OF assms(1)] by simp
  then show ?thesis
    using assms(1) match_year_string [of "d_year d"] pad_not_Nil [of 3 "nat (d_ms d)"] whl
    by (simp add: isoDateExpression_def match_month_def match_day_def match_time_def match_seconds_def
        match_fraction_def match_zone_def iso_of_def valid_date_def Let_def)
qed


lemma day_length: "m < 12 \<Longrightarrow> dayFromMonth y (nat (int m + 1)) - dayFromMonth y m = month_length y m"
  using dayFromMonth_Suc [of m y] by (simp add: nat_add_distrib)

lemma fraction_pad: "0 \<le> n \<Longrightarrow> n < 1000 \<Longrightarrow> fraction_ms (Some (CHR ''.'' # pad 3 (nat n))) = n"
  using pad_value [of "nat n" 3] by (simp add: fraction_ms_def)

lemma number_or_pad: "0 \<le> n \<Longrightarrow> n < 100 \<Longrightarrow> number_or v (Some (pad 2 (nat n))) = n"
  using pad_number [of 2 "nat n"] by (simp add: number_or_def)

lemma time_result_iso_of:
  assumes "valid_date d" "\<bar>time_value d\<bar> \<le> 8640000000000000"
  shows "time_result bug local (iso_of d) = Some (time_value d)"
proof -
  let ?m = "nat (d_month d)"
  have v: "0 \<le> d_month d" "d_month d < 12" "1 \<le> d_date d" "d_date d \<le> month_length (d_year d) ?m"
    using assms(1) by (simp_all add: valid_date_def)
  have m: "?m < 12" "int ?m = d_month d" using v by simp_all
  have y: "number_of (year_string (d_year d)) = Some (d_year d)"
    using assms(1) by (intro year_string_number) (simp_all add: valid_date_def)
  have "d_date d \<le> 31" using v(4) month_length_le [of "d_year d" ?m] by linarith
  then have nums: "number_or w (Some (pad 2 (nat (d_month d + 1)))) = d_month d + 1"
    "number_or w (Some (pad 2 (nat (d_date d)))) = d_date d"
    "number_or w (Some (pad 2 (nat (d_hours d)))) = d_hours d"
    "number_or w (Some (pad 2 (nat (d_minutes d)))) = d_minutes d"
    "number_or w (Some (pad 2 (nat (d_seconds d)))) = d_seconds d"
    "fraction_ms (Some (CHR ''.'' # pad 3 (nat (d_ms d)))) = d_ms d" for w
    using assms(1) by (simp_all add: number_or_pad fraction_pad valid_date_def)
  have len: "dayFromMonth (d_year d) (nat (d_month d + 1)) - dayFromMonth (d_year d) ?m = month_length (d_year d) ?m"
    using day_length [OF m(1), of "d_year d"] m(2) by simp
  have none: "number_or 0 None = 0" by (simp add: number_or_def)
  have tv: "time_value d = ((((dayFromMonth (d_year d) ?m + (d_date d - 1)) * 24 + d_hours d) * 60 + d_minutes d) * 60 +
      d_seconds d) * 1000 + d_ms d"
    using dayFromMonth_day_number [of ?m "d_year d"] m(1) by (simp add: time_value_def algebra_simps)
  have guard: "d_hours d < (if d_minutes d > 0 \<or> d_seconds d > 0 \<or> d_ms d > 0 then 24 else 25) \<and>
      d_minutes d < 60 \<and> d_seconds d < 60 \<and> d_ms d < 1000 \<and> d_month d > - 1 \<and> d_month d < 12 \<and>
      d_date d - 1 > - 1 \<and> d_date d - 1 < month_length (d_year d) ?m"
    using assms(1) v by (simp add: valid_date_def)
  show ?thesis
    using assms(2) guard tv
    by (simp add: time_result_def iso_of_def y nums none len Let_def) linarith
qed

lemma div_small: "0 < n \<Longrightarrow> \<bar>a\<bar> \<le> b \<Longrightarrow> \<bar>a div n\<bar> \<le> b" for a b n :: int
proof -
  assume n: "0 < n" and a: "\<bar>a\<bar> \<le> b"
  have d: "n * (a div n) + a mod n = a" "0 \<le> a mod n" using n by simp_all
  have "a div n \<le> b"
  proof (cases "0 \<le> a div n")
    case True
    then have "1 * (a div n) \<le> n * (a div n)" using n by (intro mult_right_mono) auto
    then show ?thesis using d a by linarith
  qed (use a in linarith)
  moreover have "- b \<le> a div n"
  proof -
    have "1 * b \<le> n * b" using n a by (intro mult_right_mono) auto
    then have "- b * n \<le> a" using a by (simp add: mult.commute)
    then have "- b * n div n \<le> a div n" using n by (rule zdiv_mono1)
    then show ?thesis using n by (simp only: nonzero_mult_div_cancel_right less_imp_neq [symmetric] not_False_eq_True)
  qed
  ultimately show ?thesis by simp
qed

lemma dayFromMonth_bound:
  assumes "0 \<le> y" "y < 10000" "m < 12"
  shows "\<bar>dayFromMonth y m\<bar> \<le> 10000000"
proof -
  define t :: int where "t = (if m > 1 then 1 else 0)"
  have t: "0 \<le> t" "t \<le> 1" by (simp_all add: t_def)
  have "months ! m \<in> set months" using assms(3) by (intro nth_mem) (simp add: months_def)
  then have k: "\<bar>months ! m\<bar> \<le> 365" by (auto simp: months_def)
  have q: "\<bar>(y - c + t) div n\<bar> \<le> 12000" if "0 < n" "0 \<le> c" "c \<le> 1969" for c n :: int
    using assms(1,2) t that by (intro div_small) linarith+
  have sum: "\<lbrakk>\<bar>k\<bar> \<le> 365; \<bar>a\<bar> \<le> 12000; \<bar>b\<bar> \<le> 12000; \<bar>c\<bar> \<le> 12000\<rbrakk> \<Longrightarrow> \<bar>k + a - b + c + 365 * (y - 1970)\<bar> \<le> 10000000"
    for k a b c unfolding abs_le_iff by (insert assms(1,2), elim conjE, intro conjI; simp)
  have "dayFromMonth y m = months ! m + (y - 1969 + t) div 4 - (y - 1901 + t) div 100 + (y - 1601 + t) div 400 +
      365 * (y - 1970)" by (simp only: dayFromMonth_def Let_def t_def)
  then show ?thesis using sum [OF k q [of 4 1969] q [of 100 1901] q [of 400 1601]] by simp
qed

definition date_time :: "int \<Rightarrow> int \<Rightarrow> int \<Rightarrow> int option" where
  \<comment> \<open>what \<^const>\<open>time_result\<close> computes without a time\<close>
  "date_time y m d =
     (if 0 < m \<and> m < 13 \<and> 0 < d \<and> d - 1 < dayFromMonth y (nat m) - dayFromMonth y (nat (m - 1)) \<and>
         - 8640000000000000 \<le> (dayFromMonth y (nat (m - 1)) + (d - 1)) * 86400000 \<and>
         (dayFromMonth y (nat (m - 1)) + (d - 1)) * 86400000 \<le> 8640000000000000
      then Some ((dayFromMonth y (nat (m - 1)) + (d - 1)) * 86400000) else None)"

lemma time_result_date:
  assumes "number_of ys = Some y" "number_or 1 mo = m" "number_or 1 da = d"
  shows "time_result bug local \<lparr>m_year = ys, m_month = mo, m_day = da, m_hour = None, m_minute = None, m_second = None,
     m_fraction = None, m_zone = None, m_sign = None, m_hourOffset = None, m_minuteOffset = None\<rparr> = date_time y m d"
proof -
  have "number_or 0 None = 0" "fraction_ms None = 0" by (simp_all add: number_or_def fraction_ms_def)
  then show ?thesis by (simp add: time_result_def date_time_def assms Let_def)
qed

lemma match_date_only:
  "isoDateExpression (pad 4 y @ ''-'' @ pad 2 m @ ''-'' @ pad 2 d) = Some \<lparr>m_year = pad 4 y,
     m_month = Some (pad 2 m), m_day = Some (pad 2 d), m_hour = None, m_minute = None, m_second = None,
     m_fraction = None, m_zone = None, m_sign = None, m_hourOffset = None, m_minuteOffset = None\<rparr>"
  using digits_pad [of 2 d "[]"]
  by (simp add: isoDateExpression_def match_year_def match_month_def match_day_def match_time_def)

section \<open>Properties\<close>

text \<open>
  C23: Parsing undoes printing. For every valid date whose time value lies in the range of ES5, with a
  year of up to six digits and either sign, \<^verbatim>\<open>toISOString\<close> returns a string, and \<^verbatim>\<open>Date.parse\<close> of that string is
  the number of milliseconds from the start of 1970, whatever the local time zone and the native parser.
\<close>
theorem date_roundtrip:
  assumes "valid_date d" "\<bar>time_value d\<bar> \<le> 8640000000000000"
  shows "\<exists>s. toISOString (Some d) = Inr s \<and> parse bug local native s = Some (time_value d)"
proof -
  obtain s where s: "toISOString (Some d) = Inr s" using toISOString_pads [OF assms(1)] by blast
  then show ?thesis
    using match_printed [OF assms(1) s] time_result_iso_of [OF assms] by (simp add: parse_def)
qed

definition leap_day :: date where
  "leap_day = \<lparr>d_year = 2012, d_month = 1, d_date = 29, d_hours = 23, d_minutes = 59, d_seconds = 7, d_ms = 8\<rparr>"

theorem date_roundtrip_witness:
  "\<forall>bug local native. \<exists>s. toISOString (Some leap_day) = Inr s \<and> parse bug local native s = Some (time_value leap_day)"
proof (intro allI)
  fix bug local native
  have v: "valid_date leap_day" by (simp add: valid_date_def leap_day_def month_length_def leap_def)
  have "day_number 2012 1 = 15371"
    using dayFromMonth_day_number [of 1 2012] by (simp add: dayFromMonth_def months_def)
  then have "\<bar>time_value leap_day\<bar> \<le> 8640000000000000" by (simp add: time_value_def leap_day_def)
  then show "\<exists>s. toISOString (Some leap_day) = Inr s \<and> parse bug local native s = Some (time_value leap_day)"
    by (rule date_roundtrip [OF v])
qed

text \<open>
  C24: The formula of \<^verbatim>\<open>dayFromMonth\<close> counts the days of the Gregorian calendar: it is the sum of the
  lengths of the years and months since 1970, or before 1970, with leap years every fourth year but not in full
  centuries that 400 does not divide.
\<close>
theorem dayFromMonth_calendar:
  assumes "m \<le> 12"
  shows "dayFromMonth y m = day_number y m \<and>
    (m < 12 \<longrightarrow> dayFromMonth y (Suc m) - dayFromMonth y m = month_length y m)"
  using dayFromMonth_day_number [OF assms] dayFromMonth_Suc by blast

theorem dayFromMonth_calendar_witness:
  "dayFromMonth 1900 1 = day_number 1900 1 \<and> dayFromMonth 1900 2 - dayFromMonth 1900 1 = 28"
  using dayFromMonth_calendar [of 1 1900] by (simp add: month_length_def leap_def numeral_2_eq_2)

text \<open>
  C25: A date without a time is accepted exactly if it exists: for a year of four digits and any two digits
  for month and day, \<^verbatim>\<open>Date.parse\<close> returns the start of that day in UTC if the month has that day, and \<^verbatim>\<open>NaN\<close>
  otherwise, for instance for the thirty-first of November.
\<close>
theorem parse_date_only:
  assumes "y < 10000" "m < 100" "d < 100"
  shows "parse bug local native (pad 4 y @ ''-'' @ pad 2 m @ ''-'' @ pad 2 d) =
    (if 1 \<le> m \<and> m \<le> 12 \<and> 1 \<le> d \<and> int d \<le> month_length (int y) (m - 1)
     then Some ((day_number (int y) (m - 1) + int d - 1) * 86400000) else None)"
proof -
  have "number_of (pad 4 y) = Some (int y)" "number_or 1 (Some (pad 2 m)) = int m" "number_or 1 (Some (pad 2 d)) = int d"
    using assms pad_number [of 4 y] number_or_pad [of "int m" 1] number_or_pad [of "int d" 1] by simp_all
  note eq = time_result_date [OF this, of bug local]
  then have eq: "parse bug local native (pad 4 y @ ''-'' @ pad 2 m @ ''-'' @ pad 2 d) = date_time (int y) (int m) (int d)"
    unfolding parse_def match_date_only by simp
  note eq = this [unfolded date_time_def]
  show ?thesis
  proof (cases "1 \<le> m \<and> m \<le> 12")
    case True
    then obtain k where k: "m = Suc k" "k < 12" by (cases m) auto
    note dl = dayFromMonth_Suc [OF k(2), of "int y"] and dn = dayFromMonth_day_number [of k "int y"]
    have "\<bar>dayFromMonth (int y) k\<bar> \<le> 10000000" using assms(1) k(2) by (intro dayFromMonth_bound) simp_all
    then have "- 8640000000000000 \<le> (dayFromMonth (int y) k + (int d - 1)) * 86400000"
      "(dayFromMonth (int y) k + (int d - 1)) * 86400000 \<le> 8640000000000000"
      using assms(3) by simp_all
    moreover have "nat (int m) = Suc k" "nat (int m - 1) = k" "m - 1 = k" using k(1) by simp_all
    moreover have "nat (1 + int k) = Suc k" by simp
    ultimately show ?thesis using True dl dn k(2) eq by auto
  next
    case False
    then show ?thesis using eq by auto
  qed
qed

theorem parse_date_only_witness:
  "\<forall>bug local native. parse bug local native (pad 4 2012 @ ''-'' @ pad 2 11 @ ''-'' @ pad 2 31) = None"
proof (intro allI)
  fix bug local native
  have "month_length (int 2012) (11 - 1) = 30" by (simp add: month_length_def)
  then show "parse bug local native (pad 4 2012 @ ''-'' @ pad 2 11 @ ''-'' @ pad 2 31) = None"
    using parse_date_only [of 2012 11 31 bug local native] by simp
qed

text \<open>
  C26: The way around the Safari bug keeps the moment: seven numbers go to the native constructor with milliseconds that
  exceed 31 bits by less than a second and seconds that take over the rest, so that seconds and milliseconds
  together are unchanged.
\<close>
theorem DateShim_keeps_moment:
  assumes "0 \<le> ms"
  shows "\<exists>s' ms'. DateShim bug parse_fn True [Y, M, D, h, m, Number (Some s), Number (Some ms)] =
      NewNative [Y, M, D, h, m, Number (Some s'), Number (Some ms')] \<and>
    1000 * s' + ms' = 1000 * s + ms \<and> (bug \<longrightarrow> ms' < 2 ^ 31 + 1000)"
proof -
  let ?M = maxSafeUnsigned32Bit
  have M: "?M = 2147483647" by (simp add: maxSafeUnsigned32Bit_def)
  have "?M * (ms div ?M) + ms mod ?M = ms" "ms mod ?M < ?M" by (simp_all add: M)
  moreover have "1000 * sToShift ms + (ms div ?M * ?M) mod 1000 = ms div ?M * ?M" "(ms div ?M * ?M) mod 1000 < 1000"
    by (simp_all only: sToShift_def mult_div_mod_eq)
  ultimately have b: "ms - sToShift ms * 1000 < 2 ^ 31 + 1000" by (simp add: M)
  have "DateShim bug parse_fn True [Y, M, D, h, m, Number (Some s), Number (Some ms)] =
      NewNative (if bug \<and> ms > ?M then [Y, M, D, h, m, Number (Some (s + sToShift ms)), Number (Some (ms - sToShift ms * 1000))]
        else [Y, M, D, h, m, Number (Some s), Number (Some ms)])"
    by (cases Y) (simp_all add: DateShim_def shift_args_def)
  then show ?thesis using b by (auto simp: M)
qed

theorem DateShim_keeps_moment_witness:
  "\<exists>s' ms'. DateShim True (\<lambda>_. None) True [Number (Some 1970), Number (Some 0), Number (Some 1), Number (Some 0),
      Number (Some 0), Number (Some 0), Number (Some 3000000000)] =
    NewNative [Number (Some 1970), Number (Some 0), Number (Some 1), Number (Some 0), Number (Some 0),
      Number (Some s'), Number (Some ms')] \<and> 1000 * s' + ms' = 3000000000 \<and> ms' < 2 ^ 31 + 1000"
  using DateShim_keeps_moment [of 3000000000 True "\<lambda>_. None" "Number (Some 1970)" "Number (Some 0)" "Number (Some 1)"
    "Number (Some 0)" "Number (Some 0)" 0] by simp

end
