(* ===== verification/Es5_Array.thy ===== *)
theory Es5_Array
  imports Es5_Number
begin

text \<open>
  The array methods of \<^verbatim>\<open>es5-shim.js\<close>. An array is its length and its own index properties, so that holes
  are indices without a property. A callback is a function of the value, the index and the state, which holds the
  array itself and whatever else the callback may change; it may throw. The loops read the array as the callbacks
  leave it, over the indices below the length at the start. The value \<^verbatim>\<open>undefined\<close> of a missing argument is
  \<^term>\<open>None\<close> or \<^const>\<open>NaN\<close>.
\<close>

section \<open>Definitions\<close>

record 'v arr =
  a_len :: nat
  a_own :: "nat \<Rightarrow> 'v option"

datatype 'v this = Nullish | Object "'v arr"
  \<comment> \<open>the value of \<^verbatim>\<open>this\<close>: \<^verbatim>\<open>null\<close> or \<^verbatim>\<open>undefined\<close>, or an object; a string is the array of its characters\<close>

type_synonym ('v, 's) heap = "'v arr \<times> 's"

type_synonym ('t, 'v, 's, 'r) callback =
  "'t option \<Rightarrow> 'v \<Rightarrow> nat \<Rightarrow> ('v, 's) heap \<Rightarrow> es5_error + 'r \<times> ('v, 's) heap"

definition andThen :: "'e + 'a \<Rightarrow> ('a \<Rightarrow> 'e + 'b) \<Rightarrow> 'e + 'b" where
  "andThen m f = (case m of Inl e \<Rightarrow> Inl e | Inr x \<Rightarrow> f x)"

fun each :: "('i \<Rightarrow> 'h \<Rightarrow> 'e + 'h) \<Rightarrow> 'i list \<Rightarrow> 'h \<Rightarrow> 'e + 'h" where
  \<comment> \<open>a loop over indices\<close>
  "each f [] h = Inr h"
| "each f (i # is) h = andThen (f i h) (each f is)"

definition ToObject :: "'v this \<Rightarrow> es5_error + 'v arr" where
  "ToObject this = (case this of Nullish \<Rightarrow> Inl TypeError | Object a \<Rightarrow> Inr a)"

definition ToUint32 :: "nat \<Rightarrow> nat" where
  "ToUint32 x = x mod 2 ^ 32"

definition enter :: "'v this \<Rightarrow> 'f option \<Rightarrow> es5_error + 'f \<times> 'v arr \<times> nat" where
  \<comment> \<open>the first lines of the methods: the object, its length, and the check of the callback, which is \<^term>\<open>None\<close>
    if it is not callable\<close>
  "enter this callbackfn = andThen (ToObject this) (\<lambda>a.
     case callbackfn of None \<Rightarrow> Inl TypeError | Some f \<Rightarrow> Inr (f, a, ToUint32 (a_len a)))"

subsection \<open>Iteration\<close>

definition forEach :: "('t, 'v, 's, 'r) callback option \<Rightarrow> 't option \<Rightarrow> 'v this \<Rightarrow> 's \<Rightarrow> es5_error + ('v, 's) heap" where
  "forEach callbackfn T this s = andThen (enter this callbackfn) (\<lambda>(f, a, len).
     each (\<lambda>i h. case a_own (fst h) i of
         None \<Rightarrow> Inr h
       | Some v \<Rightarrow> andThen (f T v i h) (\<lambda>(r, h). Inr h)) [0..<len] (a, s))"

definition map_js :: "('t, 'v, 's, 'r) callback option \<Rightarrow> 't option \<Rightarrow> 'v this \<Rightarrow> 's \<Rightarrow> es5_error + 'r arr \<times> ('v, 's) heap" where
  "map_js callbackfn T this s = andThen (enter this callbackfn) (\<lambda>(f, a, len).
     each (\<lambda>i (result, h). case a_own (fst h) i of
         None \<Rightarrow> Inr (result, h)
       | Some v \<Rightarrow> andThen (f T v i h) (\<lambda>(r, h). Inr (result\<lparr>a_own := (a_own result)(i \<mapsto> r)\<rparr>, h)))
       [0..<len] (\<lparr>a_len = len, a_own = (\<lambda>_. None)\<rparr>, (a, s)))"

definition filter_js :: "('t, 'v, 's, bool) callback option \<Rightarrow> 't option \<Rightarrow> 'v this \<Rightarrow> 's \<Rightarrow> es5_error + 'v list \<times> ('v, 's) heap" where
  "filter_js callbackfn T this s = andThen (enter this callbackfn) (\<lambda>(f, a, len).
     each (\<lambda>i (result, h). case a_own (fst h) i of
         None \<Rightarrow> Inr (result, h)
       | Some value \<Rightarrow> andThen (f T value i h) (\<lambda>(b, h). Inr (if b then result @ [value] else result, h)))
       [0..<len] ([], (a, s)))"

fun every_from :: "('t, 'v, 's, bool) callback \<Rightarrow> 't option \<Rightarrow> nat list \<Rightarrow> ('v, 's) heap \<Rightarrow> es5_error + bool \<times> ('v, 's) heap" where
  "every_from f T [] h = Inr (True, h)"
| "every_from f T (i # is) h = (case a_own (fst h) i of
       None \<Rightarrow> every_from f T is h
     | Some v \<Rightarrow> andThen (f T v i h) (\<lambda>(b, h). if \<not> b then Inr (False, h) else every_from f T is h))"

definition every :: "('t, 'v, 's, bool) callback option \<Rightarrow> 't option \<Rightarrow> 'v this \<Rightarrow> 's \<Rightarrow> es5_error + bool \<times> ('v, 's) heap" where
  "every callbackfn T this s = andThen (enter this callbackfn) (\<lambda>(f, a, len). every_from f T [0..<len] (a, s))"

fun some_from :: "('t, 'v, 's, bool) callback \<Rightarrow> 't option \<Rightarrow> nat list \<Rightarrow> ('v, 's) heap \<Rightarrow> es5_error + bool \<times> ('v, 's) heap" where
  "some_from f T [] h = Inr (False, h)"
| "some_from f T (i # is) h = (case a_own (fst h) i of
       None \<Rightarrow> some_from f T is h
     | Some v \<Rightarrow> andThen (f T v i h) (\<lambda>(b, h). if b then Inr (True, h) else some_from f T is h))"

definition some_js :: "('t, 'v, 's, bool) callback option \<Rightarrow> 't option \<Rightarrow> 'v this \<Rightarrow> 's \<Rightarrow> es5_error + bool \<times> ('v, 's) heap" where
  "some_js callbackfn T this s = andThen (enter this callbackfn) (\<lambda>(f, a, len). some_from f T [0..<len] (a, s))"

subsection \<open>Folding\<close>

type_synonym ('v, 's) reducer = "'v \<Rightarrow> 'v \<Rightarrow> nat \<Rightarrow> ('v, 's) heap \<Rightarrow> es5_error + 'v \<times> ('v, 's) heap"

fun first_value :: "(nat \<Rightarrow> 'v option) \<Rightarrow> nat list \<Rightarrow> es5_error + 'v \<times> nat list" where
  \<comment> \<open>the \<^verbatim>\<open>do\<close> loop without an initial value: the first value and the indices after it\<close>
  "first_value own [] = Inl TypeError"
| "first_value own (i # is) = (case own i of Some v \<Rightarrow> Inr (v, is) | None \<Rightarrow> first_value own is)"

definition reduce_loop :: "('v, 's) reducer \<Rightarrow> nat list \<Rightarrow> 'v \<times> ('v, 's) heap \<Rightarrow> es5_error + 'v \<times> ('v, 's) heap" where
  "reduce_loop f = each (\<lambda>i (result, h). case a_own (fst h) i of
       None \<Rightarrow> Inr (result, h)
     | Some v \<Rightarrow> f result v i h)"

definition reduce :: "('v, 's) reducer option \<Rightarrow> 'v option \<Rightarrow> 'v this \<Rightarrow> 's \<Rightarrow> es5_error + 'v \<times> ('v, 's) heap" where
  "reduce callbackfn initialValue this s = andThen (enter this callbackfn) (\<lambda>(f, a, len).
     if len = 0 \<and> initialValue = None then Inl TypeError
     else andThen (case initialValue of Some v \<Rightarrow> Inr (v, [0..<len]) | None \<Rightarrow> first_value (a_own a) [0..<len])
       (\<lambda>(result, is). reduce_loop f is (result, (a, s))))"

definition reduceRight :: "('v, 's) reducer option \<Rightarrow> 'v option \<Rightarrow> 'v this \<Rightarrow> 's \<Rightarrow> es5_error + 'v \<times> ('v, 's) heap" where
  "reduceRight callbackfn initial this s = andThen (enter this callbackfn) (\<lambda>(f, a, len).
     if len = 0 \<and> initial = None then Inl TypeError
     else andThen (case initial of Some v \<Rightarrow> Inr (v, rev [0..<len]) | None \<Rightarrow> first_value (a_own a) (rev [0..<len]))
       (\<lambda>(result, is). reduce_loop f is (result, (a, s))))"

subsection \<open>Searching\<close>

fun find_index :: "('v \<Rightarrow> bool) \<Rightarrow> (nat \<Rightarrow> 'v option) \<Rightarrow> nat list \<Rightarrow> int" where
  "find_index p own [] = -1"
| "find_index p own (i # is) = (case own i of
       Some v \<Rightarrow> if p v then int i else find_index p own is
     | None \<Rightarrow> find_index p own is)"

definition from_start :: "nat \<Rightarrow> number option \<Rightarrow> nat" where
  \<comment> \<open>the index where \<^verbatim>\<open>indexOf\<close> starts; from the length on there is nothing to search\<close>
  "from_start len fromIndex = (case fromIndex of
       None \<Rightarrow> 0
     | Some n \<Rightarrow> (case ToInteger n of
           Fin i \<Rightarrow> if i \<ge> 0 then nat \<lfloor>i\<rfloor> else nat (max 0 (int len + \<lfloor>i\<rfloor>))
         | Infinity \<Rightarrow> len
         | _ \<Rightarrow> 0))"

definition indexOf :: "('v \<Rightarrow> 'v \<Rightarrow> bool) \<Rightarrow> 'v \<Rightarrow> number option \<Rightarrow> 'v this \<Rightarrow> es5_error + int" where
  \<comment> \<open>\<open>same\<close> is \<^verbatim>\<open>===\<close>\<close>
  "indexOf same searchElement fromIndex this = andThen (ToObject this) (\<lambda>a.
     let len = ToUint32 (a_len a) in
     Inr (if len = 0 then -1
          else find_index (\<lambda>v. same v searchElement) (a_own a) [from_start len fromIndex..<len]))"

definition from_end :: "nat \<Rightarrow> number option \<Rightarrow> int" where
  \<comment> \<open>the index where \<^verbatim>\<open>lastIndexOf\<close> starts, negative if there is nothing to search\<close>
  "from_end len fromIndex = (case fromIndex of
       None \<Rightarrow> int len - 1
     | Some n \<Rightarrow> (case ToInteger n of
           Fin k \<Rightarrow> (let i = min (int len - 1) \<lfloor>k\<rfloor> in if i \<ge> 0 then i else int len - \<bar>i\<bar>)
         | Infinity \<Rightarrow> int len - 1
         | _ \<Rightarrow> -1))"

definition lastIndexOf :: "('v \<Rightarrow> 'v \<Rightarrow> bool) \<Rightarrow> 'v \<Rightarrow> number option \<Rightarrow> 'v this \<Rightarrow> es5_error + int" where
  "lastIndexOf same searchElement fromIndex this = andThen (ToObject this) (\<lambda>a.
     let len = ToUint32 (a_len a) in
     Inr (if len = 0 then -1
          else find_index (\<lambda>v. same searchElement v) (a_own a) (rev [0..<nat (from_end len fromIndex + 1)])))"

subsection \<open>splice and push\<close>

definition actualStart :: "nat \<Rightarrow> number \<Rightarrow> nat" where
  "actualStart len start = (case ToInteger start of
       Fin r \<Rightarrow> if r < 0 then nat (max (int len + \<lfloor>r\<rfloor>) 0) else nat (min \<lfloor>r\<rfloor> (int len))
     | Infinity \<Rightarrow> len
     | _ \<Rightarrow> 0)"

definition actualDeleteCount :: "nat \<Rightarrow> nat \<Rightarrow> number \<Rightarrow> nat" where
  "actualDeleteCount len actual_start deleteCount = (case ToInteger deleteCount of
       Fin d \<Rightarrow> min (nat (max \<lfloor>d\<rfloor> 0)) (len - actual_start)
     | Infinity \<Rightarrow> len - actual_start
     | _ \<Rightarrow> 0)"

definition move :: "nat \<Rightarrow> nat \<Rightarrow> nat \<Rightarrow> (nat \<Rightarrow> 'v option) \<Rightarrow> nat \<Rightarrow> 'v option" where
  \<comment> \<open>one step of the copying loops: \<^verbatim>\<open>O[to] = O[from]\<close>, or \<^verbatim>\<open>delete O[to]\<close> where there is no \<^verbatim>\<open>from\<close>\<close>
  "move from_off to_off k own = own(k + to_off := own (k + from_off))"

definition splice_js :: "number \<Rightarrow> number \<Rightarrow> 'v list \<Rightarrow> 'v this \<Rightarrow> es5_error + 'v arr \<times> 'v arr" where
  \<comment> \<open>the removed elements and the array; a missing \<^verbatim>\<open>deleteCount\<close> is \<^const>\<open>NaN\<close>; where the
    elements move up, the index here is one below the counter of the loop\<close>
  "splice_js start deleteCount items this = andThen (ToObject this) (\<lambda>a.
     let len = ToUint32 (a_len a);
         st = actualStart len start;
         dc = actualDeleteCount len st deleteCount;
         A = fold (\<lambda>k A. case a_own a (st + k) of
                 Some v \<Rightarrow> \<lparr>a_len = k + 1, a_own = (a_own A)(k \<mapsto> v)\<rparr>
               | None \<Rightarrow> A) [0..<dc] \<lparr>a_len = 0, a_own = (\<lambda>_. None)\<rparr>;
         ic = length items;
         own = a_own a;
         own = (if ic < dc
                then let own = fold (move dc ic) [st..<len - dc] own in
                     fold (\<lambda>k own. own(k - 1 := None)) (rev [len - dc + ic + 1..<len + 1]) own
                else if ic > dc
                then fold (move dc ic) (rev [st..<len - dc]) own
                else own);
         own = fold (\<lambda>i own. own(st + i \<mapsto> items ! i)) [0..<ic] own in
     Inr (A, \<lparr>a_len = len - dc + ic, a_own = own\<rparr>))"

definition pushShim :: "'v list \<Rightarrow> 'v this \<Rightarrow> es5_error + nat \<times> 'v arr" where
  "pushShim args this = andThen (ToObject this) (\<lambda>a.
     let n = ToUint32 (a_len a) in
     Inr (n + length args, \<lparr>a_len = n + length args,
       a_own = fold (\<lambda>i own. own(n + i \<mapsto> args ! i)) [0..<length args] (a_own a)\<rparr>))"


section \<open>Arrays as lists with holes\<close>

definition holes :: "'v arr \<Rightarrow> 'v option list" where
  "holes a = map (a_own a) [0..<a_len a]"

definition present :: "'v arr \<Rightarrow> (nat \<times> 'v) list" where
  \<comment> \<open>the elements that are there, with their indices, in order\<close>
  "present a = List.map_filter (\<lambda>i. map_option (Pair i) (a_own a i)) [0..<a_len a]"

definition arr_ok :: "'v arr \<Rightarrow> bool" where
  \<comment> \<open>an array: its length is below \<open>2 ^ 32\<close>, and its elements lie below its length\<close>
  "arr_ok a \<longleftrightarrow> a_len a < 2 ^ 32 \<and> (\<forall>i. a_own a i \<noteq> None \<longrightarrow> i < a_len a)"

definition pure :: "('v \<Rightarrow> nat \<Rightarrow> 'r) \<Rightarrow> ('t, 'v, 's, 'r) callback" where
  "pure g T v i h = Inr (g v i, h)"

lemma andThen_simps [simp]: "andThen (Inl e) f = Inl e" "andThen (Inr x) f = f x"
  by (simp_all add: andThen_def)

lemma andThen_Inl: "andThen m f = Inl e \<longleftrightarrow> m = Inl e \<or> (\<exists>x. m = Inr x \<and> f x = Inl e)"
  by (cases m) auto

lemma each_append: "each f (xs @ ys) h = andThen (each f xs h) (each f ys)"
  by (induction xs arbitrary: h) (auto simp: andThen_def split: sum.split)

lemma each_cong [fundef_cong]:
  "\<lbrakk>xs = ys; h = k; \<And>i h. i \<in> set ys \<Longrightarrow> f i h = g i h\<rbrakk> \<Longrightarrow> each f xs h = each g ys k"
  by (induction xs arbitrary: ys h k) (auto simp: andThen_def split: sum.split)

lemma each_fold: "(\<And>i h. i \<in> set xs \<Longrightarrow> f i h = Inr (g i h)) \<Longrightarrow> each f xs h = Inr (fold g xs h)"
  by (induction xs arbitrary: h) auto

lemma enter_ok [simp]: "arr_ok a \<Longrightarrow> enter (Object a) (Some f) = Inr (f, a, a_len a)"
  by (simp add: enter_def ToObject_def ToUint32_def arr_ok_def)

lemma enter_errors [simp]: "enter Nullish cb = Inl TypeError" "enter this None = Inl TypeError"
  by (cases this; simp add: enter_def ToObject_def)+

section \<open>Iteration\<close>

lemma map_js_pure:
  assumes "arr_ok a"
  shows "map_js (Some (pure g)) T (Object a) s =
    Inr (\<lparr>a_len = a_len a, a_own = (\<lambda>i. map_option (\<lambda>v. g v i) (a_own a i))\<rparr>, (a, s))"
proof -
  let ?step = "\<lambda>i (result, h). case a_own (fst h) i of
         None \<Rightarrow> Inr (result, h)
       | Some v \<Rightarrow> andThen (pure g T v i h) (\<lambda>(r, h). Inr (result\<lparr>a_own := (a_own result)(i \<mapsto> r)\<rparr>, h))"
  have "each ?step [0..<n] (\<lparr>a_len = m, a_own = (\<lambda>_. None)\<rparr>, (a, s)) =
      Inr (\<lparr>a_len = m, a_own = (\<lambda>i. if i < n then map_option (\<lambda>v. g v i) (a_own a i) else None)\<rparr>, (a, s))" for n m
  proof (induction n)
    case (Suc n)
    have "(\<lambda>i. if i < n then map_option (\<lambda>v. g v i) (a_own a i) else None)(n := map_option (\<lambda>v. g v n) (a_own a n)) =
        (\<lambda>i. if i < Suc n then map_option (\<lambda>v. g v i) (a_own a i) else None)" by (auto simp: less_Suc_eq)
    then show ?case using Suc by (auto simp: each_append pure_def less_Suc_eq fun_eq_iff split: option.split)
  qed simp
  moreover have "(\<lambda>i. if i < a_len a then map_option (\<lambda>v. g v i) (a_own a i) else None) = (\<lambda>i. map_option (\<lambda>v. g v i) (a_own a i))"
    using assms by (auto simp: arr_ok_def fun_eq_iff)
  ultimately show ?thesis using assms by (simp add: map_js_def)
qed

lemma present_upto: "List.map_filter (\<lambda>i. map_option (Pair i) (own i)) [0..<Suc n] =
    List.map_filter (\<lambda>i. map_option (Pair i) (own i)) [0..<n] @ (case own n of Some v \<Rightarrow> [(n, v)] | None \<Rightarrow> [])"
  by (auto simp: List.map_filter_def split: option.split)

lemma filter_js_pure:
  assumes "arr_ok a"
  shows "filter_js (Some (pure g)) T (Object a) s = Inr (map snd (filter (\<lambda>(i, v). g v i) (present a)), (a, s))"
proof -
  let ?step = "\<lambda>i (result, h). case a_own (fst h) i of
         None \<Rightarrow> Inr (result, h)
       | Some v \<Rightarrow> andThen (pure g T v i h) (\<lambda>(b, h). Inr (if b then result @ [v] else result, h))"
  have "each ?step [0..<n] ([], (a, s)) =
      Inr (map snd (filter (\<lambda>(i, v). g v i) (List.map_filter (\<lambda>i. map_option (Pair i) (a_own a i)) [0..<n])), (a, s))" for n
  proof (induction n)
    case (Suc n)
    then show ?case unfolding present_upto by (auto simp: each_append pure_def split: option.split)
  qed (simp add: List.map_filter_def)
  then show ?thesis using assms by (simp add: filter_js_def present_def)
qed

lemma every_from_pure:
  "every_from (pure g) T is (a, s) = Inr (list_all (\<lambda>i. case a_own a i of Some v \<Rightarrow> g v i | None \<Rightarrow> True) is, (a, s))"
  by (induction "is") (auto simp: pure_def split: option.split)

lemma some_every_from:
  "some_from (\<lambda>T v i h. map_sum id (apfst Not) (f T v i h)) T is h = map_sum id (apfst Not) (every_from f T is h)"
proof (induction "is" arbitrary: h)
  case (Cons i "is")
  then show ?case by (cases "f T (the (a_own (fst h) i)) i h") (auto split: option.split prod.split)
qed simp


section \<open>Folding\<close>

definition present_in :: "(nat \<Rightarrow> 'v option) \<Rightarrow> nat list \<Rightarrow> (nat \<times> 'v) list" where
  "present_in own is = List.map_filter (\<lambda>i. map_option (Pair i) (own i)) is"

lemma present_in_simps [simp]:
  "present_in own [] = []"
  "present_in own (i # is) = (case own i of Some v \<Rightarrow> (i, v) # present_in own is | None \<Rightarrow> present_in own is)"
  by (auto simp: present_in_def List.map_filter_def split: option.split)

lemma present_in_rev: "present_in own (rev is) = rev (present_in own is)"
  by (simp add: present_in_def List.map_filter_def rev_map rev_filter)

lemma present_eq: "present a = present_in (a_own a) [0..<a_len a]"
  by (simp add: present_def present_in_def)

definition pure_reducer :: "('v \<Rightarrow> 'v \<Rightarrow> nat \<Rightarrow> 'v) \<Rightarrow> ('v, 's) reducer" where
  "pure_reducer g r v i h = Inr (g r v i, h)"

lemma reduce_loop_pure:
  "reduce_loop (pure_reducer g) is (r, (a, s)) = Inr (foldl (\<lambda>r (i, v). g r v i) r (present_in (a_own a) is), (a, s))"
  by (induction "is" arbitrary: r) (auto simp: reduce_loop_def pure_reducer_def split: option.split)

lemma first_value_present:
  "first_value own is = (case present_in own is of [] \<Rightarrow> Inl TypeError
     | (i, v) # rest \<Rightarrow> Inr (v, tl (dropWhile (\<lambda>j. own j = None) is)))"
  by (induction "is") (auto split: option.split list.split)

lemma present_in_tl: "present_in own is = (i, v) # rest \<Longrightarrow> present_in own (tl (dropWhile (\<lambda>j. own j = None) is)) = rest"
  by (induction "is") (auto split: option.splits)

definition fold_present :: "('v \<Rightarrow> 'v \<Rightarrow> nat \<Rightarrow> 'v) \<Rightarrow> 'v option \<Rightarrow> (nat \<times> 'v) list \<Rightarrow> es5_error + 'v" where
  \<comment> \<open>the fold over the elements that are there, from the initial value or from the first element\<close>
  "fold_present g init xs = (case init of
       Some r \<Rightarrow> Inr (foldl (\<lambda>r (i, v). g r v i) r xs)
     | None \<Rightarrow> (case xs of [] \<Rightarrow> Inl TypeError | (i, v) # rest \<Rightarrow> Inr (foldl (\<lambda>r (i, v). g r v i) v rest)))"

lemma reduce_over:
  "andThen (case init of Some v \<Rightarrow> Inr (v, is) | None \<Rightarrow> first_value (a_own a) is)
     (\<lambda>(result, is). reduce_loop (pure_reducer g) is (result, (a, s))) =
   andThen (fold_present g init (present_in (a_own a) is)) (\<lambda>r. Inr (r, (a, s)))"
proof (cases init)
  case None
  show ?thesis
  proof (cases "present_in (a_own a) is")
    case (Cons x rest)
    obtain i v where "x = (i, v)" by (cases x)
    then show ?thesis using Cons present_in_tl [of "a_own a" "is" i v rest] None
      by (simp add: first_value_present fold_present_def reduce_loop_pure)
  qed (simp add: None first_value_present fold_present_def)
qed (simp add: fold_present_def reduce_loop_pure)

lemma fold_present_empty: "fold_present g None [] = Inl TypeError"
  by (simp add: fold_present_def)

lemma reduce_pure:
  assumes "arr_ok a"
  shows "reduce (Some (pure_reducer g)) init (Object a) s = andThen (fold_present g init (present a)) (\<lambda>r. Inr (r, (a, s)))"
    and "reduceRight (Some (pure_reducer g)) init (Object a) s =
      andThen (fold_present g init (rev (present a))) (\<lambda>r. Inr (r, (a, s)))"
  using assms unfolding reduce_def reduceRight_def
  by (auto simp: reduce_over present_eq present_in_rev fold_present_empty)

section \<open>Searching\<close>

definition hit :: "('v \<Rightarrow> bool) \<Rightarrow> (nat \<Rightarrow> 'v option) \<Rightarrow> nat \<Rightarrow> bool" where
  "hit p own i \<longleftrightarrow> (case own i of Some v \<Rightarrow> p v | None \<Rightarrow> False)"

lemma find_index_hit:
  "find_index p own (i # is) = (if hit p own i then int i else find_index p own is)"
  by (simp add: hit_def split: option.split)

lemma find_index_split:
  "(\<forall>i \<in> set is. \<not> hit p own i) \<and> find_index p own is = -1 \<or>
   (\<exists>ys i zs. is = ys @ i # zs \<and> find_index p own is = int i \<and> hit p own i \<and> (\<forall>j \<in> set ys. \<not> hit p own j))"
proof (cases "\<exists>i \<in> set is. hit p own i")
  case True
  then obtain ys i zs where s: "is = ys @ i # zs" "hit p own i" "\<forall>j \<in> set ys. \<not> hit p own j"
    using split_list_first_prop [OF True] by blast
  have "find_index p own (ys @ i # zs) = int i"
    using s(2,3) by (induction ys) (simp_all add: find_index_hit del: find_index.simps(2))
  then show ?thesis using s by blast
next
  case False
  then have "find_index p own is = -1" by (induction "is") (simp_all add: find_index_hit del: find_index.simps(2))
  then show ?thesis using False by blast
qed

lemma find_index_first:
  assumes "sorted_wrt (<) is"
  shows "(\<forall>i \<in> set is. \<not> hit p own i) \<and> find_index p own is = -1 \<or>
    (\<exists>i \<in> set is. find_index p own is = int i \<and> hit p own i \<and> (\<forall>j \<in> set is. j < i \<longrightarrow> \<not> hit p own j))"
  using find_index_split [of "is" p own]
proof (elim disjE exE conjE)
  fix ys i zs
  assume s: "is = ys @ i # zs" "find_index p own is = int i" "hit p own i" "\<forall>j \<in> set ys. \<not> hit p own j"
  then have "\<forall>j \<in> set is. j < i \<longrightarrow> \<not> hit p own j" using assms by (auto simp: sorted_wrt_append)
  moreover have "i \<in> set is" using s(1) by simp
  ultimately show ?thesis using s(2,3) by blast
qed blast

lemma find_index_last:
  assumes "sorted_wrt (>) is"
  shows "(\<forall>i \<in> set is. \<not> hit p own i) \<and> find_index p own is = -1 \<or>
    (\<exists>i \<in> set is. find_index p own is = int i \<and> hit p own i \<and> (\<forall>j \<in> set is. i < j \<longrightarrow> \<not> hit p own j))"
  using find_index_split [of "is" p own]
proof (elim disjE exE conjE)
  fix ys i zs
  assume s: "is = ys @ i # zs" "find_index p own is = int i" "hit p own i" "\<forall>j \<in> set ys. \<not> hit p own j"
  then have "\<forall>j \<in> set is. i < j \<longrightarrow> \<not> hit p own j" using assms by (auto simp: sorted_wrt_append)
  moreover have "i \<in> set is" using s(1) by simp
  ultimately show ?thesis using s(2,3) by blast
qed blast

section \<open>splice\<close>

lemma fold_move_up:
  \<comment> \<open>copying to lower indices, from left to right\<close>
  assumes "b < a" "s \<le> e"
  shows "fold (move a b) [s..<e] own = (\<lambda>j. if s + b \<le> j \<and> j < e + b then own (j - b + a) else own j)"
  using assms(2)
proof (induction e rule: dec_induct)
  case (step e)
  then show ?case using assms(1) by (auto simp: move_def fun_eq_iff)
qed (auto simp: fun_eq_iff)

lemma fold_move_down:
  assumes "a < b" "s \<le> e"
  shows "fold (move a b) (rev [s..<e]) own = (\<lambda>j. if s + b \<le> j \<and> j < e + b then own (j - b + a) else own j)"
proof -
  have "fold (move a b) (rev [s..<s + n]) own = (\<lambda>j. if s + b \<le> j \<and> j < s + n + b then own (j - b + a) else own j)" for n s own
  proof (induction n arbitrary: own)
    case (Suc n)
    have "rev [s..<s + Suc n] = (s + n) # rev [s..<s + n]" by simp
    then have "fold (move a b) (rev [s..<s + Suc n]) own =
        (\<lambda>j. if s + b \<le> j \<and> j < s + n + b then move a b (s + n) own (j - b + a) else move a b (s + n) own j)"
      using Suc [of "move a b (s + n) own"] by simp
    also have "\<dots> = (\<lambda>j. if s + b \<le> j \<and> j < s + Suc n + b then own (j - b + a) else own j)"
      using assms(1) by (auto simp: move_def fun_eq_iff add.assoc)
    finally show ?case .
  qed (auto simp: fun_eq_iff)
  from this [of s "e - s" own] show ?thesis using assms(2) by simp
qed

lemma fold_delete:
  "lo \<le> hi \<Longrightarrow> fold (\<lambda>k own. own(k - 1 := None)) (rev [lo + 1..<hi + 1]) own = (\<lambda>j. if lo \<le> j \<and> j < hi then None else own j)"
proof (induction hi arbitrary: own rule: dec_induct)
  case (step hi)
  have "rev [lo + 1..<Suc hi + 1] = Suc hi # rev [lo + 1..<hi + 1]" using step.hyps by simp
  then show ?case using step by (auto simp: fun_eq_iff)
qed (auto simp: fun_eq_iff)

lemma fold_write:
  "n \<le> length items \<Longrightarrow> fold (\<lambda>i own. own(s + i \<mapsto> items ! i)) [0..<n] own =
     (\<lambda>j. if s \<le> j \<and> j < s + n then Some (items ! (j - s)) else own j)"
  by (induction n) (auto simp: fun_eq_iff)


definition removed :: "'v arr \<Rightarrow> nat \<Rightarrow> nat \<Rightarrow> 'v arr" where
  \<comment> \<open>the array of the removed elements\<close>
  "removed a st dc = fold (\<lambda>k A. case a_own a (st + k) of
                 Some v \<Rightarrow> \<lparr>a_len = k + 1, a_own = (a_own A)(k \<mapsto> v)\<rparr>
               | None \<Rightarrow> A) [0..<dc] \<lparr>a_len = 0, a_own = (\<lambda>_. None)\<rparr>"

lemma removed_own: "a_own (removed a st dc) = (\<lambda>k. if k < dc then a_own a (st + k) else None)"
proof (induction dc)
  case (Suc dc)
  then show ?case by (cases "a_own a (st + dc)") (auto simp: removed_def fun_eq_iff less_Suc_eq)
qed (simp add: removed_def)

lemma removed_len: "a_own a (st + dc - 1) \<noteq> None \<Longrightarrow> 0 < dc \<Longrightarrow> a_len (removed a st dc) = dc"
  by (cases dc) (auto simp: removed_def)

lemma removed_len_le: "a_len (removed a st dc) \<le> dc"
proof (induction dc)
  case (Suc dc)
  then show ?case by (cases "a_own a (st + dc)") (auto simp: removed_def)
qed (simp add: removed_def)

definition spliced :: "'v list \<Rightarrow> nat \<Rightarrow> nat \<Rightarrow> 'v arr \<Rightarrow> nat \<Rightarrow> 'v option" where
  \<comment> \<open>the elements after the loops\<close>
  "spliced items st dc a j =
     (if j < st then a_own a j
      else if j < st + length items then Some (items ! (j - st))
      else if j < a_len a - dc + length items then a_own a (j - length items + dc)
      else None)"

lemma actual_bounds: "actualStart len n \<le> len" "actualStart len n + actualDeleteCount len (actualStart len n) d \<le> len"
proof -
  have "nat (max (int len + \<lfloor>r\<rfloor>) 0) \<le> len" if "r < 0" for r :: rat
  proof -
    have "\<lfloor>r\<rfloor> \<le> 0" using that by (simp add: floor_le_iff)
    then show ?thesis unfolding nat_le_iff by linarith
  qed
  then show st: "actualStart len n \<le> len" by (auto simp: actualStart_def split: number.split)
  have "actualDeleteCount len (actualStart len n) d \<le> len - actualStart len n"
    by (auto simp: actualDeleteCount_def split: number.split)
  then show "actualStart len n + actualDeleteCount len (actualStart len n) d \<le> len" using st by linarith
qed

lemma splice_eq:
  fixes start deleteCount :: number
  assumes ok: "arr_ok a"
  defines "st \<equiv> actualStart (a_len a) start"
  defines "dc \<equiv> actualDeleteCount (a_len a) st deleteCount"
  shows "splice_js start deleteCount items (Object a) =
    Inr (removed a st dc, \<lparr>a_len = a_len a - dc + length items, a_own = spliced items st dc a\<rparr>)"
proof -
  let ?ic = "length items"
  define len where "len = a_len a"
  have out: "a_own a j = None" if "len \<le> j" for j using ok that by (auto simp: arr_ok_def len_def)
  have le: "st \<le> len - dc" "dc \<le> len" 
    using actual_bounds(2) [of "a_len a" start deleteCount] by (simp_all add: len_def st_def dc_def)
  define own where "own = (if ?ic < dc
      then let own = fold (move dc ?ic) [st..<len - dc] (a_own a) in
        fold (\<lambda>k own. own(k - 1 := None)) (rev [len - dc + ?ic + 1..<len + 1]) own
      else if ?ic > dc then fold (move dc ?ic) (rev [st..<len - dc]) (a_own a)
      else a_own a)"
  have own: "own j = (if j < st then a_own a j else if j < st + ?ic then own j
      else if j < len - dc + ?ic then a_own a (j - ?ic + dc) else None)" for j
  proof -
    consider (less) "?ic < dc" | (more) "dc < ?ic" | (same) "?ic = dc" by linarith
    then show ?thesis
    proof cases
      case less
      have "len - dc + ?ic \<le> len" using less le by simp
      then have "own = (\<lambda>j. if len - dc + ?ic \<le> j \<and> j < len then None
          else if st + ?ic \<le> j \<and> j < len - dc + ?ic then a_own a (j - ?ic + dc) else a_own a j)"
        unfolding own_def Let_def fold_move_up [OF less le(1)] by (simp only: fold_delete less if_True)
      then show ?thesis using less le out by simp
    next
      case more
      then show ?thesis using le out by (simp add: own_def fold_move_down [OF more le(1)])
    next
      case same
      then show ?thesis using le out by (simp add: own_def)
    qed
  qed
  have "spliced items st dc a = fold (\<lambda>i own. own(st + i \<mapsto> items ! i)) [0..<?ic] own"
  proof
    fix j
    have "j < st \<Longrightarrow> own j = a_own a j" "st + ?ic \<le> j \<Longrightarrow> own j = (if j < len - dc + ?ic then a_own a (j - ?ic + dc) else None)"
      by (subst own, simp)+
    then show "spliced items st dc a j = fold (\<lambda>i own. own(st + i \<mapsto> items ! i)) [0..<?ic] own j"
      by (simp add: spliced_def fold_write len_def [symmetric])
  qed
  moreover have "ToUint32 (a_len a) = len" using ok by (simp add: arr_ok_def ToUint32_def len_def)
  ultimately show ?thesis
    by (simp add: splice_js_def ToObject_def Let_def removed_def len_def [symmetric] st_def [symmetric, folded len_def]
        dc_def [symmetric, folded len_def] own_def)
qed

lemma holes_nth: "i < a_len a \<Longrightarrow> holes a ! i = a_own a i"
  by (simp add: holes_def)

lemma holes_length [simp]: "length (holes a) = a_len a"
  by (simp add: holes_def)


lemma spliced_list:
  assumes "st + dc \<le> a_len a"
  shows "holes \<lparr>a_len = a_len a - dc + length items, a_own = spliced items st dc a\<rparr> =
    take st (holes a) @ map Some items @ drop (st + dc) (holes a)"
proof (rule nth_equalityI)
  show "length (holes \<lparr>a_len = a_len a - dc + length items, a_own = spliced items st dc a\<rparr>) =
      length (take st (holes a) @ map Some items @ drop (st + dc) (holes a))" using assms by simp
next
  fix j
  assume "j < length (holes \<lparr>a_len = a_len a - dc + length items, a_own = spliced items st dc a\<rparr>)"
  then have j: "j < a_len a - dc + length items" by simp
  have "st \<le> a_len a" using assms by simp
  consider "j < st" | "st \<le> j" "j < st + length items" | "st + length items \<le> j" by linarith
  then show "holes \<lparr>a_len = a_len a - dc + length items, a_own = spliced items st dc a\<rparr> ! j =
      (take st (holes a) @ map Some items @ drop (st + dc) (holes a)) ! j"
  proof cases
    case 2
    then have "j - st < length items" by linarith
    then show ?thesis using 2 j assms by (simp add: holes_nth nth_append spliced_def)
  next
    case 3
    then have "st + dc + (j - st - length items) = j - length items + dc" "j - length items + dc < a_len a"
      "\<not> j - st < length items" using j assms by simp_all
    then show ?thesis using 3 j assms by (simp add: holes_nth nth_append spliced_def holes_def)
  qed (use j assms in \<open>simp_all add: holes_nth nth_append spliced_def\<close>)
qed

lemma spliced_ok:
  assumes "arr_ok a" "st + dc \<le> a_len a" "a_len a - dc + length items < 2 ^ 32"
  shows "arr_ok \<lparr>a_len = a_len a - dc + length items, a_own = spliced items st dc a\<rparr>"
  using assms by (auto simp: arr_ok_def spliced_def split: if_splits)

definition least_index :: "nat set \<Rightarrow> int \<Rightarrow> bool" where
  "least_index R k \<longleftrightarrow> R = {} \<and> k = -1 \<or> (\<exists>i \<in> R. k = int i \<and> (\<forall>j \<in> R. i \<le> j))"

definition greatest_index :: "nat set \<Rightarrow> int \<Rightarrow> bool" where
  "greatest_index R k \<longleftrightarrow> R = {} \<and> k = -1 \<or> (\<exists>i \<in> R. k = int i \<and> (\<forall>j \<in> R. j \<le> i))"

section \<open>Properties\<close>

text \<open>
  C27: \<^verbatim>\<open>splice\<close> refines the operation on lists with holes: for every array, start and count, also negative, fractional,
  infinite or missing ones, the result is the array with the elements from the clipped start replaced by the new items;
  the removed elements are returned at their positions, and the array stays one.
\<close>
theorem splice_refines_list:
  fixes start deleteCount :: number
  assumes "arr_ok a" "a_len a + length items < 2 ^ 32"
  defines "st \<equiv> actualStart (a_len a) start"
  defines "dc \<equiv> actualDeleteCount (a_len a) st deleteCount"
  shows "\<exists>A a'. splice_js start deleteCount items (Object a) = Inr (A, a') \<and> arr_ok a' \<and>
    holes a' = take st (holes a) @ map Some items @ drop (st + dc) (holes a) \<and>
    (\<forall>k < dc. a_own A k = holes a ! (st + k)) \<and> a_len A \<le> dc"
proof -
  have le: "st + dc \<le> a_len a" by (simp add: st_def dc_def actual_bounds)
  have "\<forall>k < dc. a_own (removed a st dc) k = holes a ! (st + k)" using le by (simp add: removed_own holes_nth)
  then show ?thesis
    using splice_eq [OF assms(1), of start deleteCount items] spliced_list [OF le] spliced_ok [OF assms(1) le, of items]
      removed_len_le [of a st dc] assms(2)
    by (simp add: st_def [symmetric] dc_def [symmetric])
qed

definition sample_arr :: "nat arr" where
  "sample_arr = \<lparr>a_len = 4, a_own = [0 \<mapsto> 10, 1 \<mapsto> 11, 3 \<mapsto> 13]\<rparr>"

lemma sample_arr_ok: "arr_ok sample_arr"
  by (auto simp: arr_ok_def sample_arr_def split: if_splits)

theorem splice_refines_list_witness:
  "\<exists>A a'. splice_js (Fin (- 3)) (Fin 1) [7, 8, 9] (Object sample_arr) = Inr (A, a') \<and>
    holes a' = [Some 10, Some 7, Some 8, Some 9, None, Some 13]"
proof -
  have st: "actualStart 4 (Fin (- 3)) = 1" "actualDeleteCount 4 (Suc 0) (Fin 1) = 1"
    by (simp_all add: actualStart_def actualDeleteCount_def ToInteger_def)
  have "holes sample_arr = [Some 10, Some 11, None, Some 13]" by code_simp
  moreover have "a_len sample_arr = 4" by (simp add: sample_arr_def)
  ultimately show ?thesis
    using splice_refines_list [OF sample_arr_ok, of "[7, 8, 9]" "Fin (- 3)" "Fin 1"] by (auto simp: st)
qed

text \<open>
  C28: The iteration methods of the shim agree with the library functions. For a callback without effects, \<^verbatim>\<open>map\<close> changes
  every element and keeps every hole, \<^verbatim>\<open>filter\<close> keeps the chosen elements in order and drops the holes, \<^verbatim>\<open>every\<close>
  and \<^verbatim>\<open>some\<close> quantify over the elements that are there, and \<^verbatim>\<open>reduce\<close> and \<^verbatim>\<open>reduceRight\<close> fold them from the left and from the right, starting
  from the first element, and throwing a TypeError without any, if there is no initial value.
\<close>
theorem iteration_pure:
  assumes "arr_ok a"
  shows "(\<exists>b. map_js (Some (pure g)) T (Object a) s = Inr (b, (a, s)) \<and>
      holes b = map (\<lambda>i. map_option (\<lambda>v. g v i) (holes a ! i)) [0..<a_len a]) \<and>
    filter_js (Some (pure p)) T (Object a) s = Inr (map snd (filter (\<lambda>(i, v). p v i) (present a)), (a, s)) \<and>
    every (Some (pure p)) T (Object a) s = Inr (\<forall>(i, v) \<in> set (present a). p v i, (a, s)) \<and>
    reduce (Some (pure_reducer r)) init (Object a) s = andThen (fold_present r init (present a)) (\<lambda>x. Inr (x, (a, s))) \<and>
    reduceRight (Some (pure_reducer r)) init (Object a) s =
      andThen (fold_present r init (rev (present a))) (\<lambda>x. Inr (x, (a, s)))"
proof -
  have "list_all (\<lambda>i. case a_own a i of Some v \<Rightarrow> p v i | None \<Rightarrow> True) [0..<a_len a] \<longleftrightarrow>
      (\<forall>(i, v) \<in> set (present a). p v i)"
    by (auto simp: present_def List.map_filter_def list_all_iff split: option.splits)
  then have "every (Some (pure p)) T (Object a) s = Inr (\<forall>(i, v) \<in> set (present a). p v i, (a, s))"
    using assms by (simp add: every_def every_from_pure)
  then show ?thesis
    by (simp add: holes_def map_js_pure [OF assms] filter_js_pure [OF assms] reduce_pure [OF assms])
qed

theorem iteration_pure_witness:
  "every (Some (pure (\<lambda>v i. v = 10 + i))) (None :: unit option) (Object sample_arr) () = Inr (True, (sample_arr, ()))"
proof -
  have "present sample_arr = [(0, 10), (1, 11), (3, 13)]" by code_simp
  then show ?thesis using iteration_pure [OF sample_arr_ok, where p = "\<lambda>v i. v = 10 + i" and T = "None :: unit option" and s = "()"
      and g = "\<lambda>v i. v" and r = "\<lambda>r v i. r + v" and init = None]
    by simp
qed

text \<open>
  C29: \<^verbatim>\<open>some\<close> and \<^verbatim>\<open>every\<close> are dual for every callback, also for one that changes the array or throws: \<^verbatim>\<open>some\<close> with the negated
  callback runs the same calls, leaves the same state, throws the same error and returns the negated answer.
\<close>
theorem some_every_dual:
  "some_js (map_option (\<lambda>f T v i h. map_sum id (apfst Not) (f T v i h)) callbackfn) T this s =
     map_sum id (apfst Not) (every callbackfn T this s)"
proof (cases callbackfn)
  case (Some f)
  then show ?thesis by (cases "this") (auto simp: some_js_def every_def enter_def ToObject_def some_every_from)
qed (simp add: some_js_def every_def)

lemma indexOf_range:
  assumes "arr_ok a"
  shows "\<exists>k l. indexOf same x fromIndex (Object a) = Inr k \<and> lastIndexOf same x fromIndex (Object a) = Inr l \<and>
    least_index {i. from_start (a_len a) fromIndex \<le> i \<and> i < a_len a \<and> hit (\<lambda>v. same v x) (a_own a) i} k \<and>
    greatest_index {i. int i \<le> from_end (a_len a) fromIndex \<and> hit (same x) (a_own a) i} l"
proof -
  have len: "ToUint32 (a_len a) = a_len a" using assms by (simp add: ToUint32_def arr_ok_def)
  have none: "\<not> hit p (a_own a) i" if "a_len a \<le> i" for p i
    using assms that by (auto simp: arr_ok_def hit_def split: option.split)
  have "least_index {i. from_start (a_len a) fromIndex \<le> i \<and> i < a_len a \<and> hit p (a_own a) i}
      (if a_len a = 0 then -1 else find_index p (a_own a) [from_start (a_len a) fromIndex..<a_len a])" for p
    using find_index_first [of "[from_start (a_len a) fromIndex..<a_len a]" p "a_own a"]
    by (auto simp: least_index_def)
  moreover have "greatest_index {i. int i \<le> from_end (a_len a) fromIndex \<and> hit p (a_own a) i}
      (if a_len a = 0 then -1 else find_index p (a_own a) (rev [0..<nat (from_end (a_len a) fromIndex + 1)]))" for p
    using find_index_last [of "rev [0..<nat (from_end (a_len a) fromIndex + 1)]" p "a_own a"] none
    by (auto simp: greatest_index_def sorted_wrt_rev zless_nat_eq_int_zless)
  ultimately show ?thesis
    unfolding indexOf_def lastIndexOf_def ToObject_def Let_def this.case andThen_simps len by blast
qed

definition at_or_after :: "nat \<Rightarrow> int option \<Rightarrow> nat \<Rightarrow> bool" where
  \<comment> \<open>the indices of an array of the given length that \<^verbatim>\<open>fromIndex\<close> leaves to \<^verbatim>\<open>indexOf\<close>\<close>
  "at_or_after len fromIndex i \<longleftrightarrow> i < len \<and> (case fromIndex of None \<Rightarrow> True | Some z \<Rightarrow> if 0 \<le> z then z \<le> int i else int len - int i \<le> - z)"

definition at_or_before :: "nat \<Rightarrow> int option \<Rightarrow> nat \<Rightarrow> bool" where
  "at_or_before len fromIndex i \<longleftrightarrow> i < len \<and> (case fromIndex of None \<Rightarrow> True | Some z \<Rightarrow> if 0 \<le> z then int i \<le> z else - z \<le> int len - int i)"

lemma from_start_range:
  "from_start len (map_option (\<lambda>z. Fin (of_int z)) fromIndex) \<le> i \<and> i < len \<longleftrightarrow> at_or_after len fromIndex i"
  by (auto simp: from_start_def at_or_after_def ToInteger_def split: option.split)

lemma from_end_range:
  "i < len \<Longrightarrow> int i \<le> from_end len (map_option (\<lambda>z. Fin (of_int z)) fromIndex) \<longleftrightarrow> at_or_before len fromIndex i"
  by (auto simp: from_end_def at_or_before_def ToInteger_def Let_def split: option.split)

text \<open>
  C30: \<^verbatim>\<open>indexOf\<close> returns the lowest index from \<^verbatim>\<open>fromIndex\<close> on and \<^verbatim>\<open>lastIndexOf\<close> the highest index up to \<^verbatim>\<open>fromIndex\<close> at
  which the array has the searched element, and -1 exactly if there is none; a negative \<^verbatim>\<open>fromIndex\<close> counts from the end
  of the array, and without one the whole array is searched.
\<close>
theorem indexOf_extremal:
  assumes "arr_ok a"
  shows "\<exists>k l. indexOf same x (map_option (\<lambda>z. Fin (of_int z)) fromIndex) (Object a) = Inr k \<and>
    lastIndexOf same x (map_option (\<lambda>z. Fin (of_int z)) fromIndex) (Object a) = Inr l \<and>
    least_index {i. at_or_after (a_len a) fromIndex i \<and> hit (\<lambda>v. same v x) (a_own a) i} k \<and>
    greatest_index {i. at_or_before (a_len a) fromIndex i \<and> hit (same x) (a_own a) i} l"
proof -
  let ?from = "map_option (\<lambda>z. Fin (of_int z)) fromIndex"
  have lt: "i < a_len a" if "hit p (a_own a) i" for p i
    using assms that by (auto simp: arr_ok_def hit_def not_le [symmetric] split: option.splits)
  have "{i. int i \<le> from_end (a_len a) ?from \<and> hit p (a_own a) i} = {i. at_or_before (a_len a) fromIndex i \<and> hit p (a_own a) i}" for p
    using lt from_end_range [of _ "a_len a" fromIndex] by (intro Collect_cong) blast
  moreover have "{i. from_start (a_len a) ?from \<le> i \<and> i < a_len a \<and> hit p (a_own a) i} = {i. at_or_after (a_len a) fromIndex i \<and> hit p (a_own a) i}" for p
    using from_start_range [of "a_len a" fromIndex] by auto
  ultimately show ?thesis using indexOf_range [OF assms, of same x ?from] by simp
qed

theorem indexOf_extremal_witness:
  "\<exists>k l. indexOf (=) 11 (Some (Fin (- 2))) (Object sample_arr) = Inr k \<and>
    lastIndexOf (=) 11 (Some (Fin (- 2))) (Object sample_arr) = Inr l \<and> k = -1 \<and> l = 1"
proof -
  have "{i. at_or_after 4 (Some (- 2)) i \<and> hit (\<lambda>v. v = 11) (a_own sample_arr) i} = {}"
    "{i. at_or_before 4 (Some (- 2)) i \<and> hit ((=) 11) (a_own sample_arr) i} = {1}"
    by (auto simp: at_or_after_def at_or_before_def hit_def sample_arr_def split: option.splits if_splits)
  moreover have "a_len sample_arr = 4" by (simp add: sample_arr_def)
  ultimately show ?thesis
    using indexOf_extremal [OF sample_arr_ok, of "(=)" 11 "Some (- 2)"]
    by (auto simp: least_index_def greatest_index_def)
qed

end
