(* ===== verification/Es5_String.thy ===== *)
theory Es5_String
  imports Es5_Number
begin

text \<open>
  The string functions of \<^verbatim>\<open>es5-shim.js\<close>: \<^verbatim>\<open>split\<close> at a regular expression, \<^verbatim>\<open>substr\<close>, \<^verbatim>\<open>trim\<close>,
  \<^verbatim>\<open>lastIndexOf\<close>, \<^verbatim>\<open>parseInt\<close>, and the strings of errors and regular expressions. The matcher of a
  regular expression is a parameter: it maps the string and \<^verbatim>\<open>lastIndex\<close> to the position and the captures of
  the next match, after the correction of groups that take no part in it. \<^verbatim>\<open>trim\<close> and \<^verbatim>\<open>parseInt\<close>, whose white space lies
  outside Latin-1, work on the 16-bit code units of a string, as natural numbers.
\<close>

section \<open>Definitions\<close>

subsection \<open>split\<close>

type_synonym matcher = "string \<Rightarrow> nat \<Rightarrow> (nat \<times> string \<times> string option list) option"
  \<comment> \<open>\<^verbatim>\<open>exec\<close>: \<^verbatim>\<open>match.index\<close>, \<^verbatim>\<open>match[0]\<close> and the groups\<close>

datatype split_result = Strings "string option list" | Text string
  \<comment> \<open>an array of strings, with \<^term>\<open>None\<close> for \<^verbatim>\<open>undefined\<close>, or a string\<close>

definition strSlice :: "nat \<Rightarrow> nat \<Rightarrow> string \<Rightarrow> string" where
  "strSlice a b s = take (b - a) (drop a s)"

definition array_text :: "string option list \<Rightarrow> string" where
  \<comment> \<open>an array as a string\<close>
  "array_text xs = join '','' (map (\<lambda>x. case x of Some s \<Rightarrow> s | None \<Rightarrow> []) xs)"

record split_state =
  sp_output :: "string option list"
  sp_lastLastIndex :: nat
  sp_lastLength :: "nat option"

definition split_step :: "string \<Rightarrow> nat \<times> string \<times> string option list \<Rightarrow> split_state \<Rightarrow> split_state" where
  \<comment> \<open>the body of the loop, up to the check of the limit\<close>
  "split_step s m st =
     (let (index, text, groups) = m; lastIndex = index + length text in
      if lastIndex > sp_lastLastIndex st
      then \<lparr>sp_output = sp_output st @ [Some (strSlice (sp_lastLastIndex st) index s)] @
              (if groups \<noteq> [] \<and> index < length s then groups else []),
            sp_lastLastIndex = lastIndex, sp_lastLength = Some (length text)\<rparr>
      else st)"

definition split_stops :: "nat \<Rightarrow> nat \<times> string \<times> string option list \<Rightarrow> split_state \<Rightarrow> split_state \<Rightarrow> bool" where
  \<comment> \<open>the \<^verbatim>\<open>break\<close>\<close>
  "split_stops splitLimit m st st' \<longleftrightarrow>
     (let (index, text, groups) = m in
      index + length text > sp_lastLastIndex st \<and> length (sp_output st') \<ge> splitLimit)"

fun split_loop :: "nat \<Rightarrow> matcher \<Rightarrow> string \<Rightarrow> nat \<Rightarrow> nat \<Rightarrow> split_state \<Rightarrow> (split_state \<times> nat) option" where
  \<comment> \<open>the loop from \<^verbatim>\<open>lastIndex\<close> on, with the \<^verbatim>\<open>lastIndex\<close> that it leaves; every round moves it on, so that the
    fuel \<open>length s + 2\<close> is enough\<close>
  "split_loop 0 exec s splitLimit pos st = None"
| "split_loop (Suc n) exec s splitLimit pos st = (case exec s pos of
       None \<Rightarrow> Some (st, 0)
     | Some m \<Rightarrow>
         let (index, text, groups) = m; st' = split_step s m st; last = index + length text in
         if split_stops splitLimit m st st' then Some (st', last)
         else split_loop n exec s splitLimit (if last = index then last + 1 else last) st')"

definition split_regex :: "matcher \<Rightarrow> int option \<Rightarrow> string \<Rightarrow> split_result option" where
  "split_regex exec limit s =
     (let splitLimit = (case limit of None \<Rightarrow> 2 ^ 32 - 1 | Some l \<Rightarrow> nat (l mod 2 ^ 32)) in
      map_option (\<lambda>(st, lastIndex).
        let output = (if sp_lastLastIndex st = length s
              then if (case sp_lastLength st of Some l \<Rightarrow> l \<noteq> 0 | None \<Rightarrow> False) \<or> exec [] lastIndex = None
                   then sp_output st @ [Some []] else sp_output st
              else sp_output st @ [Some (drop (sp_lastLastIndex st) s)]) in
        if length output > splitLimit then Text (take splitLimit (array_text output)) else Strings output)
        (split_loop (length s + 2) exec s splitLimit 0 \<lparr>sp_output = [], sp_lastLastIndex = 0, sp_lastLength = None\<rparr>))"

datatype separator = Undefined | Regex matcher | Plain string

definition split_js :: "(separator \<Rightarrow> int option \<Rightarrow> string \<Rightarrow> split_result option) \<Rightarrow> separator \<Rightarrow> int option \<Rightarrow> string \<Rightarrow> split_result option" where
  \<comment> \<open>\<open>strSplit\<close> is the native function; \<open>limit\<close> is \<^term>\<open>None\<close> for \<^verbatim>\<open>undefined\<close>\<close>
  "split_js strSplit separator limit s =
     (if separator = Undefined \<and> limit = Some 0 then Some (Strings [])
      else case separator of
        Regex exec \<Rightarrow> split_regex exec limit s
      | _ \<Rightarrow> strSplit separator limit s)"

subsection \<open>substr, trim, lastIndexOf and parseInt\<close>

definition substr_js :: "(nat \<Rightarrow> 'n \<Rightarrow> string \<Rightarrow> string) \<Rightarrow> int \<Rightarrow> 'n \<Rightarrow> string \<Rightarrow> string" where
  \<comment> \<open>\<open>string_substr\<close> is the native function\<close>
  "substr_js string_substr start len s =
     string_substr (nat (if start < 0 then max (int (length s) + start) 0 else start)) len s"

type_synonym units = "nat list"
  \<comment> \<open>the code units of a string\<close>

definition ws :: units where
  "ws = [0x09, 0x0A, 0x0B, 0x0C, 0x0D, 0x20, 0xA0, 0x1680, 0x180E, 0x2000, 0x2001, 0x2002, 0x2003,
     0x2004, 0x2005, 0x2006, 0x2007, 0x2008, 0x2009, 0x200A, 0x202F, 0x205F, 0x3000, 0x2028,
     0x2029, 0xFEFF]"

definition trim :: "units \<Rightarrow> units" where
  \<comment> \<open>\<^verbatim>\<open>trimBeginRegexp\<close>, then \<^verbatim>\<open>trimEndRegexp\<close>\<close>
  "trim s = rev (dropWhile (\<lambda>c. c \<in> set ws) (rev (dropWhile (\<lambda>c. c \<in> set ws) s)))"

fun strIndexOf :: "string \<Rightarrow> string \<Rightarrow> nat option" where
  \<comment> \<open>the first occurrence, \<^term>\<open>None\<close> for -1\<close>
  "strIndexOf [] p = (if p = [] then Some 0 else None)"
| "strIndexOf (c # cs) p = (if starts_with p (c # cs) then Some 0 else map_option Suc (strIndexOf cs p))"

function last_loop :: "string \<Rightarrow> string \<Rightarrow> nat \<Rightarrow> nat \<Rightarrow> int" where
  \<comment> \<open>the loop, from the counter \<open>k\<close>; with an empty search string its first round returns\<close>
  "last_loop S searchStr start k =
     (if k > 0
      then let k' = k - length searchStr in
        case strIndexOf (strSlice k' (start + length searchStr) S) searchStr of
          Some index \<Rightarrow> int (k' + index)
        | None \<Rightarrow> if searchStr = [] then -1 else last_loop S searchStr start k'
      else -1)"
  by auto
termination
  by (relation "measure (\<lambda>(S, searchStr, start, k). k)") auto

declare last_loop.simps [simp del]

definition str_lastIndexOf :: "string \<Rightarrow> number option \<Rightarrow> string \<Rightarrow> int" where
  "str_lastIndexOf searchStr position S =
     (let start = (case position of
           None \<Rightarrow> length S
         | Some NaN \<Rightarrow> length S
         | Some n \<Rightarrow> (case ToInteger n of
               Fin p \<Rightarrow> nat (min (max \<lfloor>p\<rfloor> 0) (int (length S)))
             | Infinity \<Rightarrow> length S
             | _ \<Rightarrow> 0)) in
      last_loop S searchStr start (start + length searchStr))"

definition hexRegex :: "units \<Rightarrow> bool" where
  \<comment> \<open>\<^verbatim>\<open>/^[\-+]?0[xX]/\<close>\<close>
  "hexRegex s =
     (let t = (case s of c # cs \<Rightarrow> if c = 0x2D \<or> c = 0x2B then cs else s | [] \<Rightarrow> s) in
      take 2 t = [0x30, 0x78] \<or> take 2 t = [0x30, 0x58])"

definition parseInt_js :: "(units \<Rightarrow> int \<Rightarrow> int option) \<Rightarrow> units \<Rightarrow> int option \<Rightarrow> int option" where
  \<comment> \<open>\<open>origParseInt\<close> is the native function; the radix is \<^term>\<open>None\<close> for \<^verbatim>\<open>NaN\<close>\<close>
  "parseInt_js origParseInt str radix =
     (let string = trim str;
          defaultedRadix = (case radix of Some r \<Rightarrow> if r \<noteq> 0 then r else if hexRegex string then 16 else 10
                                        | None \<Rightarrow> if hexRegex string then 16 else 10) in
      origParseInt string defaultedRadix)"

subsection \<open>Errors and regular expressions as strings\<close>

definition errorToString :: "string option \<Rightarrow> string option \<Rightarrow> string" where
  \<comment> \<open>the properties \<^verbatim>\<open>name\<close> and \<^verbatim>\<open>message\<close>, as strings\<close>
  "errorToString name message =
     (let name = (case name of None \<Rightarrow> ''Error'' | Some n \<Rightarrow> n);
          msg = (case message of None \<Rightarrow> [] | Some m \<Rightarrow> m) in
      if name = [] then msg else if msg = [] then name else name @ '': '' @ msg)"

definition regexToString :: "string \<Rightarrow> bool \<Rightarrow> bool \<Rightarrow> bool \<Rightarrow> string" where
  "regexToString source global ignoreCase multiline =
     ''/'' @ source @ ''/'' @ (if global then ''g'' else []) @ (if ignoreCase then ''i'' else []) @
     (if multiline then ''m'' else [])"


section \<open>Occurrences\<close>

definition occurs :: "string \<Rightarrow> string \<Rightarrow> nat \<Rightarrow> bool" where
  "occurs p s i \<longleftrightarrow> i \<le> length s \<and> starts_with p (drop i s)"

lemma occurs_iff: "occurs p s i \<longleftrightarrow> i + length p \<le> length s \<and> take (length p) (drop i s) = p"
proof
  assume "occurs p s i"
  then obtain t where t: "i \<le> length s" "drop i s = p @ t" by (auto simp: occurs_def starts_with_iff)
  then have "length s - i = length p + length t" by (metis length_append length_drop)
  then show "i + length p \<le> length s \<and> take (length p) (drop i s) = p" using t by simp
next
  assume a: "i + length p \<le> length s \<and> take (length p) (drop i s) = p"
  then have "drop i s = p @ drop (length p) (drop i s)" by (metis append_take_drop_id)
  then show "occurs p s i" using a by (auto simp: occurs_def starts_with_iff)
qed

lemma occurs_Cons: "occurs p (c # s) (Suc i) \<longleftrightarrow> occurs p s i"
  by (simp add: occurs_def)

lemma occurs_0: "occurs p s 0 \<longleftrightarrow> starts_with p s"
  by (simp add: occurs_def)

lemma strIndexOf_correct:
  "case strIndexOf s p of Some i \<Rightarrow> occurs p s i \<and> (\<forall>j < i. \<not> occurs p s j) | None \<Rightarrow> \<forall>j. \<not> occurs p s j"
proof (induction s)
  case Nil
  then show ?case by (cases p) (auto simp: occurs_def)
next
  case (Cons c s)
  show ?case
  proof (cases "starts_with p (c # s)")
    case False
    then have n: "\<not> occurs p (c # s) 0" by (simp add: occurs_0)
    show ?thesis
    proof (cases "strIndexOf s p")
      case None
      then have "\<not> occurs p (c # s) j" for j using Cons n by (cases j) (simp_all add: occurs_Cons)
      then show ?thesis using False None by simp
    next
      case (Some i)
      then have "\<not> occurs p (c # s) j" if "j < Suc i" for j using that Cons n by (cases j) (simp_all add: occurs_Cons)
      then show ?thesis using False Some Cons by (simp add: occurs_Cons)
    qed
  qed (simp add: occurs_0)
qed

lemma occurs_slice:
  assumes "a \<le> b" "p \<noteq> []"
  shows "occurs p (strSlice a b s) i \<longleftrightarrow> occurs p s (a + i) \<and> a + i + length p \<le> b"
proof (cases "a + i + length p \<le> b \<and> a + i + length p \<le> length s")
  case True
  have "drop i (take (b - a) (drop a s)) = take (b - a - i) (drop (a + i) s)" by (simp add: drop_take add.commute)
  moreover have "length p \<le> b - a - i" using True by linarith
  ultimately have "take (length p) (drop i (strSlice a b s)) = take (length p) (drop (a + i) s)"
    by (simp add: strSlice_def min_def)
  then show ?thesis using True by (auto simp: occurs_iff strSlice_def)
next
  case False
  then show ?thesis using assms by (auto simp: occurs_iff strSlice_def)
qed

section \<open>lastIndexOf\<close>

lemma last_loop_correct:
  assumes "p \<noteq> []" "\<forall>j. k \<le> j \<and> j \<le> start \<longrightarrow> \<not> occurs p S j" "k \<le> start + length p"
  shows "last_loop S p start k = -1 \<and> (\<forall>j \<le> start. \<not> occurs p S j) \<or>
    (\<exists>i \<le> start. last_loop S p start k = int i \<and> occurs p S i \<and> (\<forall>j \<le> start. occurs p S j \<longrightarrow> j < i + length p))"
  using assms
proof (induction S p start k rule: last_loop.induct)
  case (1 S p start k)
  show ?case
  proof (cases "k = 0")
    case True
    then have "last_loop S p start k = -1" by (simp add: last_loop.simps [of S p start 0])
    then show ?thesis using 1(3) True by simp
  next
    case False
    let ?k = "k - length p"
    let ?w = "strSlice ?k (start + length p) S"
    have L: "0 < length p" using 1(2) by simp
    have le: "?k \<le> start + length p" using 1(4) by simp
    show ?thesis
    proof (cases "strIndexOf ?w p")
      case None
      then have "\<not> occurs p ?w i" for i using strIndexOf_correct [of p ?w] by simp
      then have "\<not> occurs p S (?k + i)" if "?k + i \<le> start" for i using that occurs_slice [OF le 1(2)] by auto
      then have "\<forall>j. ?k \<le> j \<and> j \<le> start \<longrightarrow> \<not> occurs p S j" by (metis le_add_diff_inverse)
      then show ?thesis using 1(1) [OF _ refl None] False 1(2) le None by (simp add: last_loop.simps [of S p start k])
    next
      case (Some i)
      then have "occurs p ?w i" using strIndexOf_correct [of p ?w] by simp
      then have o: "occurs p S (?k + i)" "?k + i \<le> start" using occurs_slice [OF le 1(2)] by simp_all
      have "j < ?k + i + length p" if "j \<le> start" "occurs p S j" for j
      proof -
        have "j < k" using 1(3) that by (metis not_le)
        then show ?thesis by linarith
      qed
      then show ?thesis using o Some False by (auto simp: last_loop.simps [of S p start k])
    qed
  qed
qed

section \<open>split\<close>

definition good_matcher :: "matcher \<Rightarrow> bool" where
  \<comment> \<open>a match lies inside the string, from \<^verbatim>\<open>lastIndex\<close> on\<close>
  "good_matcher exec \<longleftrightarrow> (\<forall>s pos i t g. exec s pos = Some (i, t, g) \<longrightarrow> pos \<le> i \<and> i + length t \<le> length s)"

lemma split_loop_ends:
  assumes "good_matcher exec"
  shows "0 < n \<Longrightarrow> length s + 2 \<le> pos + n \<Longrightarrow> \<exists>r. split_loop n exec s l pos st = Some r"
proof (induction n arbitrary: pos st)
  case (Suc n)
  show ?case
  proof (cases "exec s pos")
    case (Some m)
    obtain i t g where m: "m = (i, t, g)" by (cases m)
    have b: "pos \<le> i" "i + length t \<le> length s" using assms Some m unfolding good_matcher_def by blast+
    let ?pos = "if i + length t = i then i + length t + 1 else i + length t"
    have "pos < ?pos" "?pos \<le> length s + 1" using b by (cases t; simp)+
    then have "0 < n" "length s + 2 \<le> ?pos + n" using Suc.prems by linarith+
    then show ?thesis using Suc.IH [of ?pos "split_step s m st"] Some m by (simp add: Let_def)
  qed simp
qed simp

definition lit_matcher :: "string \<Rightarrow> matcher" where
  \<comment> \<open>the matcher of a regular expression that is a literal text\<close>
  "lit_matcher p s pos = (if pos \<le> length s then map_option (\<lambda>i. (pos + i, p, [])) (strIndexOf (drop pos s) p) else None)"

lemma strIndexOf_bound: "strIndexOf s p = Some i \<Longrightarrow> i + length p \<le> length s"
  using strIndexOf_correct [of p s] by (simp add: occurs_iff)

lemma lit_matcher_good: "good_matcher (lit_matcher p)"
  unfolding good_matcher_def lit_matcher_def by (auto split: if_splits dest!: strIndexOf_bound)

function pieces :: "string \<Rightarrow> string \<Rightarrow> string list" where
  \<comment> \<open>the texts between the occurrences of \<open>p\<close>\<close>
  "pieces p s = (if p = [] then [s] else case strIndexOf s p of
       None \<Rightarrow> [s]
     | Some i \<Rightarrow> take i s # pieces p (drop (i + length p) s))"
  by auto
termination
proof (relation "measure (\<lambda>(p, s). length s)")
  fix p s i
  assume "p \<noteq> []" "strIndexOf s p = Some i"
  then show "((p, drop (i + length p) s), (p, s)) \<in> measure (\<lambda>(p, s). length s)"
    using strIndexOf_bound [of s p i] by (cases p) auto
qed simp

declare pieces.simps [simp del]

lemma pieces_not_Nil: "pieces p s \<noteq> []"
  by (subst pieces.simps) (simp split: option.split)

lemma join_pieces: "join p (pieces p s) = s"
proof (induction p s rule: pieces.induct)
  case (1 p s)
  show ?case
  proof (cases "p \<noteq> [] \<and> strIndexOf s p \<noteq> None")
    case True
    then obtain i where i: "strIndexOf s p = Some i" by auto
    have "occurs p s i" using strIndexOf_correct [of p s] i by simp
    then have "s = take i s @ p @ drop (i + length p) s"
      unfolding occurs_iff by (metis append_take_drop_id drop_drop add.commute)
    moreover obtain q qs where q: "pieces p (drop (i + length p) s) = q # qs"
      using pieces_not_Nil [of p "drop (i + length p) s"] by (auto simp: neq_Nil_conv)
    ultimately show ?thesis using 1 i True by (simp add: pieces.simps [of p s])
  next
    case False
    then show ?thesis by (auto simp: pieces.simps [of p s] split: option.split)
  qed
qed

lemma pieces_between:
  assumes "p \<noteq> []"
  shows "\<forall>x \<in> set (butlast (pieces p s)). \<forall>i. occurs p (x @ p) i \<longrightarrow> i = length x"
    and "\<not> occurs p (last (pieces p s)) i"
  using assms
proof (induction p s rule: pieces.induct)
  case (1 p s)
  {
    case 1
    show ?case
    proof (cases "strIndexOf s p")
      case None
      then show ?thesis using 1 by (simp add: pieces.simps [of p s])
    next
      case (Some k)
      have k: "occurs p s k" "\<forall>j < k. \<not> occurs p s j" using strIndexOf_correct [of p s] Some by simp_all
      have s: "take k s @ p = strSlice 0 (k + length p) s" using k(1) by (simp add: occurs_iff strSlice_def take_add)
      have first: "i = length (take k s)" if "occurs p (take k s @ p) i" for i
      proof -
        have "occurs p s i" "i + length p \<le> k + length p" using that occurs_slice [of 0 "k + length p" p s i] 1 unfolding s by simp_all
        then have "i = k" using k(2) by (metis add_le_cancel_right le_neq_implies_less)
        then show ?thesis using k(1) by (simp add: occurs_def)
      qed
      have "butlast (pieces p s) = take k s # butlast (pieces p (drop (k + length p) s))"
        using Some 1 pieces_not_Nil [of p "drop (k + length p) s"] by (simp add: pieces.simps [of p s])
      then show ?thesis using "1.IH"(1) [OF 1 Some 1] first by (metis set_ConsD)
    qed
  next
    case 2
    show ?case
    proof (cases "strIndexOf s p")
      case None
      then show ?thesis using 2 strIndexOf_correct [of p s] by (simp add: pieces.simps [of p s])
    next
      case (Some k)
      then show ?thesis using "1.IH"(2) [OF 2 Some 2] 2 pieces_not_Nil [of p "drop (k + length p) s"]
        by (simp add: pieces.simps [of p s])
    qed
  }
qed

lemma drop_strIndexOf_pieces:
  assumes "p \<noteq> []" "strIndexOf (drop pos s) p = Some i"
  shows "pieces p (drop pos s) = strSlice pos (pos + i) s # pieces p (drop (pos + i + length p) s)"
  using assms by (simp add: pieces.simps [of p "drop pos s"] strSlice_def ac_simps)

lemma pieces_length: "length (pieces p s) \<le> length s + 1"
proof (induction p s rule: pieces.induct)
  case (1 p s)
  show ?case
  proof (cases "p \<noteq> [] \<and> strIndexOf s p \<noteq> None")
    case True
    then obtain i where i: "strIndexOf s p = Some i" by auto
    have "0 < length p" "i + length p \<le> length s" using True strIndexOf_bound [OF i] by simp_all
    moreover have "length (pieces p (drop (i + length p) s)) \<le> length s - (i + length p) + 1" using 1 i True by simp
    ultimately have "length (pieces p (drop (i + length p) s)) \<le> length s" by linarith
    then show ?thesis using i True by (simp add: pieces.simps [of p s])
  next
    case False
    then show ?thesis by (auto simp: pieces.simps [of p s] split: option.split)
  qed
qed

lemma split_loop_lit:
  assumes p: "p \<noteq> []" and len: "length s + 1 < l"
  shows "\<lbrakk>0 < n; length s + 2 \<le> pos + n; pos \<le> length s; sp_lastLastIndex st = pos;
      length (sp_output st) + length (pieces p (drop pos s)) \<le> length s + 1; sp_lastLength st = (if pos = 0 then None else Some (length p))\<rbrakk> \<Longrightarrow>
    \<exists>st'. split_loop n (lit_matcher p) s l pos st = Some (st', 0) \<and> sp_lastLastIndex st' \<le> length s \<and>
      sp_output st' @ [Some (drop (sp_lastLastIndex st') s)] = sp_output st @ map Some (pieces p (drop pos s)) \<and>
      sp_lastLength st' = (if sp_lastLastIndex st' = 0 then None else Some (length p))"
proof (induction n arbitrary: pos st)
  case (Suc n)
  have L: "0 < length p" using p by simp
  show ?case
  proof (cases "strIndexOf (drop pos s) p")
    case None
    then have "pieces p (drop pos s) = [drop pos s]" by (simp add: pieces.simps [of p "drop pos s"])
    then show ?thesis using None Suc.prems by (simp add: lit_matcher_def)
  next
    case (Some i)
    note pc = drop_strIndexOf_pieces [OF p Some]
    have b: "pos + i + length p \<le> length s" using strIndexOf_bound [OF Some] Suc.prems(3) by simp
    let ?st = "\<lparr>sp_output = sp_output st @ [Some (strSlice pos (pos + i) s)], sp_lastLastIndex = pos + i + length p,
      sp_lastLength = Some (length p)\<rparr>"
    have step: "split_step s (pos + i, p, []) st = ?st"
      using Suc.prems(4) L by (simp add: split_step_def Let_def)
    have "length (sp_output ?st) < l" using Suc.prems(5) len pc by simp
    then have "\<not> split_stops l (pos + i, p, []) st ?st" by (simp add: split_stops_def Let_def)
    then have "split_loop (Suc n) (lit_matcher p) s l pos st = split_loop n (lit_matcher p) s l (pos + i + length p) ?st"
      using Some Suc.prems(3) step p by (simp add: lit_matcher_def Let_def)
    moreover have "0 < n" using Suc.prems(2) b L by linarith
    ultimately show ?thesis
      using Suc.IH [of "pos + i + length p" ?st] Suc.prems(2,5) b pc L by simp
  qed
qed simp

lemma split_regex_lit:
  assumes "p \<noteq> []" "length s + 2 < 2 ^ 32"
  shows "split_regex (lit_matcher p) None s = Some (Strings (map Some (pieces p s)))"
proof -
  let ?l = "2 ^ 32 - 1 :: nat"
  let ?st = "\<lparr>sp_output = [], sp_lastLastIndex = 0, sp_lastLength = None\<rparr>"
  have "length s + 1 < ?l" using assms(2) by simp
  then obtain st' where st': "split_loop (length s + 2) (lit_matcher p) s ?l 0 ?st = Some (st', 0)"
    "sp_lastLastIndex st' \<le> length s" "sp_output st' @ [Some (drop (sp_lastLastIndex st') s)] = map Some (pieces p s)"
    "sp_lastLength st' = (if sp_lastLastIndex st' = 0 then None else Some (length p))"
    using split_loop_lit [OF assms(1), of s ?l "length s + 2" 0 ?st] pieces_length [of p s] by auto
  have none: "lit_matcher p [] 0 = None" using assms(1) by (simp add: lit_matcher_def)
  have "(if sp_lastLastIndex st' = length s then sp_output st' @ [Some []]
      else sp_output st' @ [Some (drop (sp_lastLastIndex st') s)]) = map Some (pieces p s)"
    using st'(3) by (cases "sp_lastLastIndex st' = length s") simp_all
  moreover have "\<not> ?l < length (map Some (pieces p s))" using pieces_length [of p s] assms(2) by simp
  moreover have "length (pieces p s) = Suc (length (sp_output st'))" using arg_cong [OF st'(3), of length] by simp
  ultimately show ?thesis
    unfolding split_regex_def Let_def option.case st'(1)
    by (cases "sp_lastLastIndex st' = length s") (simp_all add: none)
qed

section \<open>trim\<close>

definition es5_space :: "nat \<Rightarrow> bool" where
  \<comment> \<open>the white space and the line terminators of ES5 7.2 and 7.3, with the space separators of Unicode up to 6.2\<close>
  "es5_space c \<longleftrightarrow> 0x09 \<le> c \<and> c \<le> 0x0D \<or> c = 0x20 \<or> c = 0xA0 \<or> c = 0x1680 \<or> c = 0x180E \<or> 0x2000 \<le> c \<and> c \<le> 0x200A \<or>
     c = 0x2028 \<or> c = 0x2029 \<or> c = 0x202F \<or> c = 0x205F \<or> c = 0x3000 \<or> c = 0xFEFF"

lemma ws_space: "c \<in> set ws \<longleftrightarrow> es5_space c"
  unfolding ws_def es5_space_def by (simp only: list.set insert_iff empty_iff) presburger

lemma trim_split:
  "\<exists>u v. s = u @ trim s @ v \<and> list_all es5_space u \<and> list_all es5_space v"
  "trim s = [] \<or> \<not> es5_space (hd (trim s)) \<and> \<not> es5_space (last (trim s))"
proof -
  define t where "t = dropWhile es5_space s"
  have trim: "trim s = rev (dropWhile es5_space (rev t))" by (simp add: trim_def t_def ws_space)
  have s: "s = takeWhile es5_space s @ t" by (simp add: t_def)
  have t: "t = trim s @ rev (takeWhile es5_space (rev t))"
    unfolding trim by (metis rev_append rev_rev_ident takeWhile_dropWhile_id)
  have "list_all es5_space (takeWhile es5_space s)" "list_all es5_space (rev (takeWhile es5_space (rev t)))"
    by (auto simp: list_all_iff dest: set_takeWhileD)
  then show "\<exists>u v. s = u @ trim s @ v \<and> list_all es5_space u \<and> list_all es5_space v" using s t by metis
  show "trim s = [] \<or> \<not> es5_space (hd (trim s)) \<and> \<not> es5_space (last (trim s))"
  proof (cases "trim s = []")
    case False
    then have "dropWhile es5_space (rev t) \<noteq> []" by (simp add: trim)
    then have "\<not> es5_space (last (trim s))" using hd_dropWhile [of es5_space "rev t"] by (simp add: trim last_rev)
    moreover have "t \<noteq> []" using t False by auto
    then have "\<not> es5_space (hd t)" unfolding t_def by (rule hd_dropWhile)
    moreover have "hd t = hd (trim s)" by (subst t) (simp add: hd_append False)
    ultimately show ?thesis by simp
  qed simp
qed

lemma trim_no_ws:
  assumes "s = [] \<or> \<not> es5_space (hd s) \<and> \<not> es5_space (last s)"
  shows "trim s = s"
proof (cases "s = []")
  case False
  then have "dropWhile es5_space s = s" "dropWhile es5_space (rev s) = rev s"
    using assms by (simp_all add: dropWhile_eq_self_iff hd_rev)
  then show ?thesis by (simp add: trim_def ws_space)
qed (simp add: trim_def)

section \<open>Properties\<close>

text \<open>
  C31: \<^verbatim>\<open>split\<close> always ends: for every matcher whose matches lie inside the string, from \<^verbatim>\<open>lastIndex\<close> on, also for one
  with empty matches, and every limit, the loop returns within one round more than the string has positions.
\<close>
theorem split_ends:
  assumes "good_matcher exec"
  shows "\<exists>r. split_js strSplit (Regex exec) limit s = Some r"
  using split_loop_ends [OF assms, of "length s + 2" s 0] by (auto simp: split_js_def split_regex_def Let_def)

theorem split_ends_witness:
  "\<forall>strSplit. \<exists>r. split_js strSplit (Regex (lit_matcher [])) None ''ab'' = Some r"
  using split_ends [OF lit_matcher_good, of _ "[]"] by simp

text \<open>
  C32: for a regular expression that is a nonempty literal text, and no limit, \<^verbatim>\<open>split\<close> returns the pieces between the
  occurrences of the text, searched from the left: joining them with the text restores the string, behind a piece that is not
  the last the text follows for the first time, and the last piece does not contain it.
\<close>
theorem split_join:
  assumes "p \<noteq> []" "length s + 2 < 2 ^ 32"
  shows "\<exists>xs. split_js strSplit (Regex (lit_matcher p)) None s = Some (Strings (map Some xs)) \<and> xs \<noteq> [] \<and> join p xs = s \<and>
    (\<forall>x \<in> set (butlast xs). \<forall>i. occurs p (x @ p) i \<longrightarrow> i = length x) \<and> (\<forall>i. \<not> occurs p (last xs) i)"
  using split_regex_lit [OF assms] join_pieces [of p s] pieces_not_Nil [of p s] pieces_between [OF assms(1), of s]
  by (auto simp: split_js_def)

theorem split_join_witness:
  "\<forall>strSplit. split_js strSplit (Regex (lit_matcher '','')) None ''a,,b'' = Some (Strings [Some ''a'', Some [], Some ''b'']) \<and>
     (\<forall>i. \<not> occurs '','' ''b'' i)"
proof (intro allI)
  fix strSplit
  have "split_regex (lit_matcher '','') None ''a,,b'' = Some (Strings [Some ''a'', Some [], Some ''b''])" by code_simp
  then have run: "split_js strSplit (Regex (lit_matcher '','')) None ''a,,b'' = Some (Strings (map Some [''a'', [], ''b'']))"
    by (simp add: split_js_def)
  have inj: "map Some xs = map Some ys \<Longrightarrow> xs = ys" for xs ys :: "string list" by (simp add: inj_map_eq_map)
  have "\<forall>i. \<not> occurs '','' (last [''a'', [], ''b'']) i"
    using split_join [of "'',''" "''a,,b''" strSplit] unfolding run by (auto dest!: inj)
  then show "split_js strSplit (Regex (lit_matcher '','')) None ''a,,b'' = Some (Strings [Some ''a'', Some [], Some ''b'']) \<and>
     (\<forall>i. \<not> occurs '','' ''b'' i)" using run by simp
qed

text \<open>
  With a limit, \<^verbatim>\<open>split\<close> returns a wrong value: the array is cut with the slice of strings, so that splitting
  a,b,c at the comma with the limit 2 gives the text of the first two characters of a,b,c instead of the array of a and b.
\<close>
theorem split_limit_wrong:
  "split_js strSplit (Regex (lit_matcher '','')) (Some 2) ''a,b,c'' = Some (Text ''a,'')"
proof -
  have "split_regex (lit_matcher '','') (Some 2) ''a,b,c'' = Some (Text ''a,'')" by code_simp
  then show ?thesis by (simp add: split_js_def)
qed

definition up_to :: "int option \<Rightarrow> nat \<Rightarrow> bool" where
  \<comment> \<open>the index is at or before the position; a negative position counts as 0\<close>
  "up_to position j \<longleftrightarrow> (case position of None \<Rightarrow> True | Some z \<Rightarrow> int j \<le> max z 0)"

text \<open>
  C33: \<^verbatim>\<open>lastIndexOf\<close> of strings, with a nonempty search text and with or without a position, returns -1 exactly if the text
  does not occur at or before the position, and otherwise an occurrence there; every occurrence at or before the position starts
  less than the length of the search text behind the returned one.
\<close>
theorem str_lastIndexOf_found:
  assumes "p \<noteq> []"
  shows "str_lastIndexOf p (map_option (\<lambda>z. Fin (of_int z)) position) S = -1 \<and> (\<forall>j. up_to position j \<longrightarrow> \<not> occurs p S j) \<or>
    (\<exists>i. str_lastIndexOf p (map_option (\<lambda>z. Fin (of_int z)) position) S = int i \<and> up_to position i \<and> occurs p S i \<and>
      (\<forall>j. up_to position j \<and> occurs p S j \<longrightarrow> j < i + length p))"
proof -
  define start where "start = (case position of None \<Rightarrow> length S | Some z \<Rightarrow> nat (min (max z 0) (int (length S))))"
  have run: "str_lastIndexOf p (map_option (\<lambda>z. Fin (of_int z)) position) S = last_loop S p start (start + length p)"
    by (auto simp: str_lastIndexOf_def start_def ToInteger_def Let_def split: option.split)
  have le: "j \<le> start \<longleftrightarrow> j \<le> length S \<and> up_to position j" for j
    by (auto simp: start_def up_to_def split: option.split)
  have len: "j \<le> length S" if "occurs p S j" for j using that by (simp add: occurs_def)
  have "0 < length p" using assms by simp
  then have "\<not> (start + length p \<le> j \<and> j \<le> start)" for j by linarith
  then have "\<forall>j. start + length p \<le> j \<and> j \<le> start \<longrightarrow> \<not> occurs p S j" by blast
  from last_loop_correct [OF assms this order_refl] show ?thesis unfolding run using le len by blast
qed

theorem str_lastIndexOf_found_witness:
  "\<exists>i. str_lastIndexOf ''ab'' (Some (Fin 1)) ''abab'' = int i \<and> i \<le> 1 \<and> occurs ''ab'' ''abab'' i"
proof -
  have "occurs ''ab'' ''abab'' 0" "up_to (Some 1) 0" by (simp_all add: occurs_def up_to_def)
  then show ?thesis using str_lastIndexOf_found [of "''ab''" "Some 1" "''abab''"] by (auto simp: up_to_def)
qed

text \<open>
  It need not be the last one: where occurrences overlap, the shim returns an earlier one, and it misses the
  empty text at the start. The last occurrence of aa in aaab is at 1, the shim returns 0; the empty text
  occurs in the empty string at 0, the shim returns -1.
\<close>
theorem str_lastIndexOf_not_last:
  "str_lastIndexOf ''aa'' None ''aaab'' = 0 \<and> occurs ''aa'' ''aaab'' 1 \<and>
   str_lastIndexOf [] None [] = -1 \<and> occurs [] [] 0"
  by (intro conjI; code_simp)

text \<open>
  C34: \<^verbatim>\<open>trim\<close> removes exactly the white space and line terminators of ES5 at the two ends: what it removes consists of
  them, what it keeps neither starts nor ends with one, and trimming again changes nothing.
\<close>
theorem trim_exact:
  "(\<exists>u v. s = u @ trim s @ v \<and> list_all es5_space u \<and> list_all es5_space v) \<and>
   (trim s = [] \<or> \<not> es5_space (hd (trim s)) \<and> \<not> es5_space (last (trim s))) \<and> trim (trim s) = trim s"
  using trim_split [of s] trim_no_ws [of "trim s"] by blast

theorem trim_exact_witness:
  "\<exists>u v. [0x20, 0x2003, 0x61, 0x20, 0x62, 0xFEFF] = u @ [0x61, 0x20, 0x62] @ v \<and> list_all es5_space u \<and> list_all es5_space v"
proof -
  have "trim [0x20, 0x2003, 0x61, 0x20, 0x62, 0xFEFF] = [0x61, 0x20, 0x62]" by code_simp
  then show ?thesis using trim_exact [of "[0x20, 0x2003, 0x61, 0x20, 0x62, 0xFEFF]"] by simp
qed

end
