(* ===== verification/Js_Almviz.thy ===== *)
theory Js_Almviz
  imports Js_Pages "HOL-Library.Multiset"
begin

text \<open>
  \<^verbatim>\<open>works/events.js\<close>: the charts of the events of a work. The visualization is a list of group rows; a row holds
  the rows of its sources, and a source row may hold a chart with its bars and the controls that choose between
  days, months and years. The time intervals, formats and scales of \<^verbatim>\<open>d3\<close>, the constructor of local dates and
  the current time are parameters, collected in a record. \<^term>\<open>None\<close> as a result is a \<^verbatim>\<open>TypeError\<close>, which ends
  the script. A transition is modelled by the state that it leads to.
\<close>

section \<open>Definitions\<close>

datatype level = Day | Month | Year

record datum =
  e_year :: int
  e_month :: "int option"
  e_day :: "int option"
  e_value :: "string \<Rightarrow> int"
  \<comment> \<open>\<^verbatim>\<open>d[subgroup]\<close>\<close>

record source_events =
  ev_source_id :: string
  ev_total :: int
  ev_html :: int
  ev_pdf :: int
  ev_events_url :: "string option"
  ev_by_year :: "datum list option"
  ev_by_month :: "datum list option"
  ev_by_day :: "datum list option"

record group_info =
  g_id :: string

record min_items =
  minEventsForYearly :: int
  minEventsForMonthly :: int
  minEventsForDaily :: int
  minYearsForYearly :: nat
  minMonthsForMonthly :: nat
  minDaysForDaily :: nat

record interval =
  i_range :: "date \<Rightarrow> date \<Rightarrow> nat"
  \<comment> \<open>\<^verbatim>\<open>interval.range(a, b).length\<close>\<close>
  i_floor :: "date \<Rightarrow> date"
  i_offset :: "date \<Rightarrow> nat \<Rightarrow> date"

record d3_lib =
  year_utc :: interval
  month_utc :: interval
  day_utc :: interval
  year_ceil :: "date \<Rightarrow> date"
  weekOfYear :: "date \<Rightarrow> int"
  new_date :: "int \<Rightarrow> int \<Rightarrow> int \<Rightarrow> date"
  time_scale :: "date \<Rightarrow> date \<Rightarrow> rat \<Rightarrow> date \<Rightarrow> rat"
  \<comment> \<open>\<^verbatim>\<open>d3.time.scale().domain([a, b]).range([0, w])\<close>\<close>
  linear_scale :: "int \<Rightarrow> rat \<Rightarrow> int \<Rightarrow> rat"
  \<comment> \<open>\<^verbatim>\<open>d3.scale.linear().domain([0, m]).range([h, 0])\<close>\<close>
  format_number :: "int \<Rightarrow> string"
  format_Y :: "date \<Rightarrow> string"
  format_bY :: "date \<Rightarrow> string"
  format_dbY :: "date \<Rightarrow> string"
  has_svg :: bool
  now :: date

subsection \<open>Levels\<close>

definition getDate' :: "d3_lib \<Rightarrow> level \<Rightarrow> datum \<Rightarrow> date" where
  \<comment> \<open>a month or day that is \<^verbatim>\<open>undefined\<close> gives an invalid date\<close>
  "getDate' d3 level d = (case level of
       Year \<Rightarrow> new_date d3 (e_year d) 0 1
     | Month \<Rightarrow> (case e_month d of Some m \<Rightarrow> new_date d3 (e_year d) (m - 1) 1 | None \<Rightarrow> None)
     | Day \<Rightarrow> (case (e_month d, e_day d) of
         (Some m, Some day) \<Rightarrow> new_date d3 (e_year d) (m - 1) day
       | _ \<Rightarrow> None))"

definition getFormattedDate' :: "d3_lib \<Rightarrow> level \<Rightarrow> datum \<Rightarrow> string" where
  "getFormattedDate' d3 level d = (case level of
       Year \<Rightarrow> format_Y d3 (getDate' d3 level d)
     | Month \<Rightarrow> format_bY d3 (getDate' d3 level d)
     | Day \<Rightarrow> format_dbY d3 (getDate' d3 level d))"

definition getData' :: "level \<Rightarrow> source_events \<Rightarrow> datum list option" where
  "getData' level events = (case level of
       Year \<Rightarrow> ev_by_year events | Month \<Rightarrow> ev_by_month events | Day \<Rightarrow> ev_by_day events)"

definition getTimeInterval' :: "d3_lib \<Rightarrow> level \<Rightarrow> interval" where
  "getTimeInterval' d3 level = (case level of Year \<Rightarrow> year_utc d3 | Month \<Rightarrow> month_utc d3 | Day \<Rightarrow> day_utc d3)"

definition level_total :: "string \<Rightarrow> datum list \<Rightarrow> int" where
  \<comment> \<open>\<^verbatim>\<open>level_data.reduce(...)\<close>\<close>
  "level_total subgroup level_data = foldl (\<lambda>i d. i + e_value d subgroup) 0 level_data"

definition min_events :: "min_items \<Rightarrow> level \<Rightarrow> int" where
  "min_events m level = (case level of
       Year \<Rightarrow> minEventsForYearly m | Month \<Rightarrow> minEventsForMonthly m | Day \<Rightarrow> minEventsForDaily m)"

definition min_spans :: "min_items \<Rightarrow> level \<Rightarrow> nat" where
  "min_spans m level = (case level of
       Year \<Rightarrow> minYearsForYearly m | Month \<Rightarrow> minMonthsForMonthly m | Day \<Rightarrow> minDaysForDaily m)"

definition check_level ::
  "d3_lib \<Rightarrow> min_items \<Rightarrow> date option \<Rightarrow> source_events \<Rightarrow> string \<Rightarrow> level \<Rightarrow> bool option" where
  \<comment> \<open>\<^verbatim>\<open>showYearly\<close>, \<^verbatim>\<open>showMonthly\<close>, \<^verbatim>\<open>showDaily\<close>; a publication date that is \<^verbatim>\<open>null\<close> throws when it is used\<close>
  "check_level d3 m pub_date events subgroup level = (case getData' level events of
       None \<Rightarrow> Some False
     | Some level_data \<Rightarrow> do {
         p \<leftarrow> pub_date;
         Some (level_total subgroup level_data \<ge> min_events m level \<and>
           i_range (getTimeInterval' d3 level) p (now d3) \<ge> min_spans m level) })"

definition choose_level :: "(level \<Rightarrow> bool) \<Rightarrow> level option" where
  \<comment> \<open>the variable \<^verbatim>\<open>level\<close> after the three checks\<close>
  "choose_level shows =
     (let level = None;
          level = (if shows Year then Some Year else level);
          level = (if shows Month then Some Month else level) in
      if shows Day then Some Day else level)"

subsection \<open>The chart\<close>

record bar =
  b_datum :: datum
  b_class :: string
  b_x :: rat
  b_width :: rat
  b_y :: rat
  b_height :: rat

record tip =
  t_bar :: bar
  t_title :: string

record viz =
  v_width :: rat
  v_height :: rat
  v_group :: string
  v_subgroup :: string
  v_events :: source_events
  v_name :: string
  v_z :: "int list"
  \<comment> \<open>the domain of the ordinal scale, in order of first use\<close>
  v_bars :: "bar list"
  v_tips :: "tip list"

definition getViz' :: "string \<Rightarrow> string \<Rightarrow> string \<Rightarrow> source_events \<Rightarrow> viz" where
  "getViz' source_id group_id subgroup events =
     \<lparr>v_width = 760 - 50 - 20, v_height = 115 - 10 - 5, v_group = group_id, v_subgroup = subgroup,
      v_events = events, v_name = source_id @ ''-'' @ group_id @ ''-'' @ subgroup, v_z = [], v_bars = [], v_tips = []\<rparr>"

definition index_of :: "int \<Rightarrow> int list \<Rightarrow> nat" where
  "index_of k ks = length (takeWhile (\<lambda>x. x \<noteq> k) ks)"

definition z_scale :: "string \<Rightarrow> int \<Rightarrow> int list \<Rightarrow> string \<times> int list" where
  \<comment> \<open>\<^verbatim>\<open>d3.scale.ordinal().range([group, group + '-alt'])\<close>: new values extend the domain\<close>
  "z_scale grp k ks =
     (let ks = (if k \<in> set ks then ks else ks @ [k]) in
      (if index_of k ks mod 2 = 0 then grp else grp @ ''-alt'', ks))"

definition z_value :: "d3_lib \<Rightarrow> level \<Rightarrow> datum \<Rightarrow> int" where
  "z_value d3 level d = (if level = Day then weekOfYear d3 (getDate' d3 level d) else e_year d)"

fun enter_bars :: "d3_lib \<Rightarrow> level \<Rightarrow> string \<Rightarrow> string \<Rightarrow> datum list \<Rightarrow> int list \<Rightarrow> (datum \<times> string) list \<times> int list" where
  \<comment> \<open>the classes of the bars that enter\<close>
  "enter_bars d3 level prefix grp [] z = ([], z)"
| "enter_bars d3 level prefix grp (d # ds) z =
     (let (c, z) = z_scale grp (z_value d3 level d) z; (rest, z) = enter_bars d3 level prefix grp ds z in
      ((d, prefix @ c) # rest, z))"

fun max_value :: "int list \<Rightarrow> int option" where
  \<comment> \<open>\<^verbatim>\<open>d3.max\<close>\<close>
  "max_value [] = None"
| "max_value (x # xs) = Some (foldl max x xs)"

fun first_by :: "('a \<Rightarrow> 'k) \<Rightarrow> 'a list \<Rightarrow> 'a list" where
  \<comment> \<open>the first element of each key\<close>
  "first_by key [] = []"
| "first_by key (x # xs) = x # filter (\<lambda>y. key y \<noteq> key x) (first_by key xs)"

definition entering :: "('d \<Rightarrow> 'k) \<Rightarrow> 'd list \<Rightarrow> 'd list \<Rightarrow> 'd list" where
  \<comment> \<open>the data that get a new element: \<open>old\<close> are the data of the elements that exist\<close>
  "entering key old level_data = filter (\<lambda>d. key d \<notin> key ` set old) (first_by key level_data)"

definition updated :: "('d \<Rightarrow> 'k) \<Rightarrow> ('d \<times> 'c) list \<Rightarrow> 'd list \<Rightarrow> ('d \<times> 'c) list" where
  \<comment> \<open>the elements that stay, each with its new datum: the new key function is applied to the old data, and of the
    elements with the same key only the first stays\<close>
  "updated key old level_data = List.map_filter
     (\<lambda>(d, c). map_option (\<lambda>d'. (d', c)) (find_first (\<lambda>d'. key d' = key d) level_data)) (first_by (key \<circ> fst) old)"

definition bar_width :: "rat \<Rightarrow> nat \<Rightarrow> rat" where
  "bar_width width n = (let rawWidth = width / of_nat (n + 1) in max (rawWidth - rawWidth / 5) 1)"

definition end_date :: "d3_lib \<Rightarrow> date \<Rightarrow> level \<Rightarrow> date" where
  "end_date d3 pub_date level =
     (if level = Day then i_offset (day_utc d3) pub_date 29 else year_ceil d3 (now d3))"

definition scales :: "d3_lib \<Rightarrow> date \<Rightarrow> viz \<Rightarrow> level \<Rightarrow> datum list \<Rightarrow> (datum \<Rightarrow> rat) \<times> (datum \<Rightarrow> rat) \<times> rat" where
  \<comment> \<open>the position and the height of a datum and the width of the bars\<close>
  "scales d3 pub_date viz level level_data =
     (let interval = getTimeInterval' d3 level;
          end = end_date d3 pub_date level;
          value = (\<lambda>d. e_value d (v_subgroup viz));
          m = (case max_value (map value level_data) of Some m \<Rightarrow> m | None \<Rightarrow> 0) in
      (\<lambda>d. time_scale d3 (i_floor interval pub_date) end (v_width viz) (getDate' d3 level d),
       \<lambda>d. linear_scale d3 m (v_height viz) (value d),
       bar_width (v_width viz) (i_range interval pub_date end)))"

definition draw_bar :: "rat \<Rightarrow> (datum \<Rightarrow> rat) \<times> (datum \<Rightarrow> rat) \<times> rat \<Rightarrow> datum \<times> string \<Rightarrow> bar" where
  "draw_bar height = (\<lambda>(x, y, barWidth) (d, c).
     \<lparr>b_datum = d, b_class = c, b_x = x d + 2, b_width = barWidth, b_y = y d, b_height = height - y d\<rparr>)"

definition draw_tip :: "(datum \<Rightarrow> string) \<Rightarrow> rat \<Rightarrow> (datum \<Rightarrow> rat) \<times> (datum \<Rightarrow> rat) \<times> rat \<Rightarrow> datum \<times> string \<Rightarrow> tip" where
  "draw_tip title height = (\<lambda>(x, y, barWidth) (d, c).
     \<lparr>t_bar = \<lparr>b_datum = d, b_class = c, b_x = x d + 1, b_width = barWidth + 2, b_y = y d - 1,
        b_height = height - y d + 1\<rparr>, t_title = title d\<rparr>)"

definition data_class :: "bar \<Rightarrow> datum \<times> string" where
  "data_class b = (b_datum b, b_class b)"

definition loadData' :: "d3_lib \<Rightarrow> date \<Rightarrow> viz \<Rightarrow> level \<Rightarrow> viz option" where
  \<comment> \<open>\<^term>\<open>None\<close> where the level has no data\<close>
  "loadData' d3 pub_date viz level = do {
     level_data \<leftarrow> getData' level (v_events viz);
     let key = getDate' d3 level;
     let sc = scales d3 pub_date viz level level_data;
     let old_bars = map data_class (v_bars viz);
     let old_tips = map (data_class \<circ> t_bar) (v_tips viz);
     let (new_bars, z) = enter_bars d3 level ''bar '' (v_group viz) (entering key (map fst old_bars) level_data) (v_z viz);
     let (new_tips, z') = enter_bars d3 level ''barsForTooltip '' (v_group viz) (entering key (map fst old_tips) level_data) z;
     let title = (\<lambda>d. format_number d3 (e_value d (v_subgroup viz)) @ '' in '' @ getFormattedDate' d3 level d);
     Some (viz\<lparr>v_z := z',
       v_bars := map (draw_bar (v_height viz) sc) (updated key old_bars level_data @ new_bars),
       v_tips := map (draw_tip title (v_height viz) sc) (updated key old_tips level_data @ new_tips)\<rparr>) }"

subsection \<open>The controls\<close>

record control =
  c_level :: level
  c_text :: string
  c_disabled :: bool
  c_active :: bool

record chart =
  ch_viz :: viz
  ch_controls :: "control list"

definition level_controls :: "(level \<Rightarrow> bool) \<Rightarrow> level option \<Rightarrow> control list" where
  "level_controls shows level =
     (if shows Day then [\<lparr>c_level = Day, c_text = ''daily (first 30)'', c_disabled = \<not> shows Day, c_active = (level = Some Day)\<rparr>] else []) @
     (if shows Month then [\<lparr>c_level = Month, c_text = ''monthly'', c_disabled = \<not> shows Month \<or> \<not> shows Year,
        c_active = (level = Some Month)\<rparr>] else []) @
     (if shows Year then [\<lparr>c_level = Year, c_text = ''yearly'', c_disabled = \<not> shows Year \<or> \<not> shows Month,
        c_active = (level = Some Year)\<rparr>] else [])"

definition update_controls :: "nat \<Rightarrow> control list \<Rightarrow> control list" where
  "update_controls i cs = map (\<lambda>(j, c). c\<lparr>c_active := (j = i)\<rparr>) (enumerate 0 cs)"

definition click_control :: "d3_lib \<Rightarrow> date \<Rightarrow> nat \<Rightarrow> chart \<Rightarrow> chart option" where
  \<comment> \<open>a click on the control at \<open>i\<close>; a control exists only for a level that is shown\<close>
  "click_control d3 pub_date i ch =
     (if i < length (ch_controls ch) \<and> \<not> c_active (ch_controls ch ! i) then do {
        viz \<leftarrow> loadData' d3 pub_date (ch_viz ch) (c_level (ch_controls ch ! i));
        Some \<lparr>ch_viz = viz, ch_controls = update_controls i (ch_controls ch)\<rparr> }
      else Some ch)"

subsection \<open>Sources and groups\<close>

record source_row =
  sr_id :: string
  sr_class :: string
  sr_label_class :: string
  sr_count_id :: string
  sr_count :: string
  sr_count_link :: "string option"
  sr_label :: string
  sr_label_link :: "string option"
  sr_chart :: "chart option"

record group_row =
  gr_id :: string
  gr_sources :: "source_row list"

definition source_row :: "d3_lib \<Rightarrow> string \<Rightarrow> source \<Rightarrow> string \<Rightarrow> source_events \<Rightarrow> int \<Rightarrow> group_info \<Rightarrow> string \<Rightarrow> source_row" where
  \<comment> \<open>the row before the chart\<close>
  "source_row d3 baseUrl source label events value grp subgroup =
     \<lparr>sr_id = ''source-'' @ s_id source @ ''-'' @ subgroup, sr_class = ''alm-source'',
      sr_label_class = ''alm-label '' @ g_id grp,
      sr_count_id = ''alm-count-'' @ s_id source @ ''-'' @ g_id grp, sr_count = format_number d3 value,
      sr_count_link = (case ev_events_url events of Some u \<Rightarrow> if u \<noteq> [] then Some u else None | None \<Rightarrow> None),
      sr_label = label,
      sr_label_link = (if s_id source = ''pkpTimedViews'' then None else Some (baseUrl @ ''/sources/'' @ s_id source)),
      sr_chart = None\<rparr>"

definition addSource' ::
  "d3_lib \<Rightarrow> min_items \<Rightarrow> string \<Rightarrow> date option \<Rightarrow> source \<Rightarrow> string \<Rightarrow> source_events \<Rightarrow> int \<Rightarrow> group_info \<Rightarrow> string \<Rightarrow> source_row option" where
  "addSource' d3 m baseUrl pub_date source label events value grp subgroup =
     (let row = source_row d3 baseUrl source label events value grp subgroup in
      if has_svg d3 then do {
        showYearly \<leftarrow> check_level d3 m pub_date events subgroup Year;
        showMonthly \<leftarrow> check_level d3 m pub_date events subgroup Month;
        showDaily \<leftarrow> check_level d3 m pub_date events subgroup Day;
        let shows = (\<lambda>level. case level of Year \<Rightarrow> showYearly | Month \<Rightarrow> showMonthly | Day \<Rightarrow> showDaily);
        (case choose_level shows of
           None \<Rightarrow> Some row
         | Some level \<Rightarrow> do {
             p \<leftarrow> pub_date;
             viz \<leftarrow> loadData' d3 p (getViz' (s_id source) (g_id grp) subgroup events) level;
             Some (row\<lparr>sr_class := ''alm-source with-chart'',
               sr_chart := Some \<lparr>ch_viz = viz, ch_controls = level_controls shows (Some level)\<rparr>\<rparr>) }) }
      else Some row)"

definition add_events ::
  "d3_lib \<Rightarrow> min_items \<Rightarrow> string \<Rightarrow> date option \<Rightarrow> group_info \<Rightarrow> source \<Rightarrow> source_events \<Rightarrow> source_row list option" where
  \<comment> \<open>the rows of one source\<close>
  "add_events d3 m baseUrl pub_date grp source events =
     (if s_group_id source = ''viewed'' then do {
        html \<leftarrow> (if ev_html events > 0
          then map_option (\<lambda>r. [r]) (addSource' d3 m baseUrl pub_date source (s_title source @ '' HTML'') events (ev_html events) grp ''html'')
          else Some []);
        pdf \<leftarrow> (if ev_pdf events > 0
          then map_option (\<lambda>r. [r]) (addSource' d3 m baseUrl pub_date source (s_title source @ '' PDF'') events (ev_pdf events) grp ''pdf'')
          else Some []);
        Some (html @ pdf) }
      else map_option (\<lambda>r. [r]) (addSource' d3 m baseUrl pub_date source (s_title source) events (ev_total events) grp ''total''))"

fun addGroup_from ::
  "d3_lib \<Rightarrow> min_items \<Rightarrow> string \<Rightarrow> date option \<Rightarrow> group_info \<Rightarrow> source_events list \<Rightarrow> source list \<Rightarrow> group_row option \<Rightarrow> group_row option option" where
  \<comment> \<open>the loop over the sources; the row of the grp is \<^term>\<open>None\<close> until a source adds it\<close>
  "addGroup_from d3 m baseUrl pub_date grp data [] row = Some row"
| "addGroup_from d3 m baseUrl pub_date grp data (source # sources) row =
     (if s_group_id source \<noteq> g_id grp then addGroup_from d3 m baseUrl pub_date grp data sources row
      else case find_first (\<lambda>d. ev_source_id d = s_id source) data of
        None \<Rightarrow> None
      | Some events \<Rightarrow>
          if ev_total events = 0 then addGroup_from d3 m baseUrl pub_date grp data sources row
          else do {
            rows \<leftarrow> add_events d3 m baseUrl pub_date grp source events;
            addGroup_from d3 m baseUrl pub_date grp data sources (Some (case row of
                None \<Rightarrow> \<lparr>gr_id = ''group-'' @ g_id grp, gr_sources = rows\<rparr>
              | Some r \<Rightarrow> r\<lparr>gr_sources := gr_sources r @ rows\<rparr>)) })"

definition addGroup' ::
  "d3_lib \<Rightarrow> min_items \<Rightarrow> string \<Rightarrow> date option \<Rightarrow> source list \<Rightarrow> source_events list \<Rightarrow> group_info \<Rightarrow> group_row option option" where
  "addGroup' d3 m baseUrl pub_date sources data grp = addGroup_from d3 m baseUrl pub_date grp data sources None"

record panel =
  p_rows :: "group_row list"
  p_message :: "string option"

fun add_groups :: "('g \<Rightarrow> 'r option option) \<Rightarrow> 'g list \<Rightarrow> 'r list option" where
  "add_groups add [] = Some []"
| "add_groups add (g # gs) = do { r \<leftarrow> add g; rs \<leftarrow> add_groups add gs; Some (case r of Some r \<Rightarrow> r # rs | None \<Rightarrow> rs) }"

record options =
  o_baseUrl :: string
  o_minItems :: min_items
  o_parts :: "part list"
  \<comment> \<open>\<^verbatim>\<open>options.work["issued"]["date-parts"][0]\<close>\<close>
  o_sources :: "source list"
  o_groups :: "group_info list"
  o_data :: "source_events list option"

definition initViz :: "d3_lib \<Rightarrow> (string \<Rightarrow> date) \<Rightarrow> options \<Rightarrow> panel option" where
  \<comment> \<open>\<^verbatim>\<open>new AlmViz(options)\<close> and \<^verbatim>\<open>initViz()\<close>: without data the constructor returns before it defines the method,
    and the call throws; \<^verbatim>\<open>metricsFound_\<close> is set together with the first row\<close>
  "initViz d3 parse options = (case o_data options of
       None \<Rightarrow> None
     | Some [] \<Rightarrow> None
     | Some data \<Rightarrow> do {
         let pub_date = fst (datePartsToDate parse (o_parts options));
         rows \<leftarrow> add_groups (addGroup' d3 (o_minItems options) (o_baseUrl options) pub_date (o_sources options) data)
           (filter (\<lambda>g. g_id g \<noteq> ''other'') (o_groups options));
         Some \<lparr>p_rows = rows, p_message = (if rows = [] then Some ''No events found.'' else None)\<rparr> })"

definition events_requests :: "attributes option \<Rightarrow> string option list" where
  \<comment> \<open>the addresses given to \<^verbatim>\<open>queue\<close>; \<^term>\<open>None\<close> is \<^verbatim>\<open>undefined\<close>, where the page has no \<^verbatim>\<open>#api_key\<close>\<close>
  "events_requests attr =
     (let work_id = map_option (\<lambda>a. a ''pid'') attr in
      [Some (encodeURI (''/api/works/'' @ pathForWork work_id)), Some (encodeURI ''/api/sources''), Some (encodeURI ''/api/groups''),
       map_option (\<lambda>_. encodeURI (''/api/works/'' @ pathForWork work_id @ ''/events'')) attr])"

definition default_options :: options where
  "default_options = \<lparr>o_baseUrl = [], o_minItems = \<lparr>minEventsForYearly = 1, minEventsForMonthly = 1, minEventsForDaily = 1,
     minYearsForYearly = 1, minMonthsForMonthly = 1, minDaysForDaily = 1\<rparr>, o_parts = [], o_sources = [], o_groups = [], o_data = None\<rparr>"

definition await_events ::
  "d3_lib \<Rightarrow> (string \<Rightarrow> date) \<Rightarrow> 'e option \<Rightarrow> part list \<Rightarrow> source list \<Rightarrow> group_info list \<Rightarrow> source_events list option \<Rightarrow> panel option option" where
  \<comment> \<open>the function given to \<^verbatim>\<open>await\<close>; an error only warns\<close>
  "await_events d3 parse error parts sources groups data = (case error of
       Some _ \<Rightarrow> Some None
     | None \<Rightarrow> map_option Some (initViz d3 parse (default_options\<lparr>o_parts := parts, o_sources := sources, o_groups := groups, o_data := data\<rparr>)))"

section \<open>The data join\<close>

lemma first_by_iff: "x \<in> set (first_by key xs) \<longleftrightarrow> find_first (\<lambda>y. key y = key x) xs = Some x"
  by (induction xs) auto

lemma first_by_keys [simp]: "key ` set (first_by key xs) = key ` set xs"
proof (induction xs)
  case (Cons x xs)
  have "key ` set (first_by key (x # xs)) = insert (key x) (key ` set (first_by key xs))"
    by (auto simp: image_iff)
  then show ?case using Cons by simp
qed simp

lemma first_by_distinct: "distinct (map key (first_by key xs))"
proof (induction xs)
  case (Cons x xs)
  then show ?case by (auto simp: distinct_map inj_on_def)
qed simp

lemma first_by_id: "distinct (map key xs) \<Longrightarrow> first_by key xs = xs"
  by (induction xs) (auto simp: filter_id_conv dest: sym)

lemma find_first_key:
  "find_first P xs = Some x \<Longrightarrow> P x \<and> x \<in> set xs"
  by (induction xs) (auto split: if_splits)

lemma find_first_exists: "x \<in> set xs \<Longrightarrow> P x \<Longrightarrow> \<exists>y. find_first P xs = Some y"
  by (induction xs) auto

lemma find_first_none: "find_first P xs = None \<longleftrightarrow> (\<forall>x \<in> set xs. \<not> P x)"
  by (induction xs) auto

lemma updated_keys:
  assumes "distinct (map (key \<circ> fst) ys)"
  shows "distinct (map (key \<circ> fst) (List.map_filter
      (\<lambda>(d, c). map_option (\<lambda>d'. (d', c)) (find_first (\<lambda>d'. key d' = key d) xs)) ys)) \<and>
    (key \<circ> fst) ` set (List.map_filter
      (\<lambda>(d, c). map_option (\<lambda>d'. (d', c)) (find_first (\<lambda>d'. key d' = key d) xs)) ys)
      \<subseteq> (key \<circ> fst) ` set ys"
  using assms
proof (induction ys)
  case Nil
  then show ?case by (simp add: map_filter_simps)
next
  case (Cons y ys)
  obtain d c where y: "y = (d, c)" by force
  show ?case
  proof (cases "find_first (\<lambda>d'. key d' = key d) xs")
    case None
    then show ?thesis using Cons by (auto simp: y map_filter_simps)
  next
    case (Some d')
    then have "key d' = key d" using find_first_key [OF Some] by simp
    then show ?thesis using Cons Some by (auto simp: y map_filter_simps)
  qed
qed

lemma updated_set:
  "fst ` set (updated key old xs) = {d \<in> set (first_by key xs). key d \<in> key ` fst ` set old}"
proof (rule set_eqI)
  fix d
  have key_iff: "find_first (\<lambda>d'. key d' = k) xs = Some d \<longleftrightarrow> key d = k \<and> d \<in> set (first_by key xs)" for k
    using find_first_key [of "\<lambda>d'. key d' = k" xs d] by (auto simp: first_by_iff)
  have "d \<in> fst ` set (updated key old xs) \<longleftrightarrow>
      (\<exists>q \<in> set (first_by (key \<circ> fst) old). find_first (\<lambda>d'. key d' = key (fst q)) xs = Some d)"
    by (force simp: updated_def map_filter_def image_iff split: prod.splits)
  also have "\<dots> \<longleftrightarrow> d \<in> set (first_by key xs) \<and> (\<exists>q \<in> set (first_by (key \<circ> fst) old). key d = (key \<circ> fst) q)"
    by (simp add: key_iff) blast
  also have "\<dots> \<longleftrightarrow> d \<in> set (first_by key xs) \<and> key d \<in> (key \<circ> fst) ` set (first_by (key \<circ> fst) old)"
    by (simp only: image_iff)
  finally show "d \<in> fst ` set (updated key old xs) \<longleftrightarrow>
      d \<in> {d \<in> set (first_by key xs). key d \<in> key ` fst ` set old}"
    by (simp only: first_by_keys image_comp mem_Collect_eq)
qed

lemma join_data: "mset (map fst (updated key old xs) @ entering key (map fst old) xs) = mset (first_by key xs)"
proof -
  let ?u = "map fst (updated key old xs)" and ?e = "entering key (map fst old) xs"
  have "distinct (map key ?u)"
    using updated_keys [OF first_by_distinct [of "key \<circ> fst" old], of xs] by (simp add: updated_def)
  then have "distinct ?u" by (simp only: distinct_map)
  moreover have "distinct (first_by key xs)" using first_by_distinct [of key xs] by (simp only: distinct_map)
  moreover have "set ?u \<union> set ?e = set (first_by key xs)" "set ?u \<inter> set ?e = {}"
    by (auto simp: updated_set entering_def)
  ultimately have "distinct (?u @ ?e)" "set (?u @ ?e) = set (first_by key xs)" "distinct (first_by key xs)"
    by (simp_all add: entering_def)
  then show ?thesis using set_eq_iff_mset_eq_distinct by blast
qed


section \<open>Loading a level\<close>

lemma enter_bars_data [simp]: "map fst (fst (enter_bars d3 level prefix grp ds z)) = ds"
  by (induction ds arbitrary: z) (simp_all add: Let_def split: prod.splits, metis fst_conv)

lemma draw_datum [simp]:
  "b_datum (draw_bar h sc q) = fst q" "b_datum (t_bar (draw_tip title h sc q)) = fst q"
  by (cases sc; cases q; simp add: draw_bar_def draw_tip_def)+

definition displays :: "d3_lib \<Rightarrow> level \<Rightarrow> datum list \<Rightarrow> viz \<Rightarrow> bool" where
  "displays d3 level level_data viz \<longleftrightarrow>
     mset (map b_datum (v_bars viz)) = mset (first_by (getDate' d3 level) level_data) \<and>
     mset (map (b_datum \<circ> t_bar) (v_tips viz)) = mset (first_by (getDate' d3 level) level_data)"

lemma loadData_displays:
  assumes "getData' level (v_events viz) = Some level_data"
  obtains viz' where "loadData' d3 p viz level = Some viz'" "displays d3 level level_data viz'"
    "v_events viz' = v_events viz" "v_subgroup viz' = v_subgroup viz"
    "\<exists>es. v_bars viz' = map (draw_bar (v_height viz) (scales d3 p viz level level_data)) es"
proof -
  let ?key = "getDate' d3 level" and ?sc = "scales d3 p viz level level_data"
  let ?bars = "map data_class (v_bars viz)" and ?tips = "map (data_class \<circ> t_bar) (v_tips viz)"
  obtain nb z where nb: "enter_bars d3 level ''bar '' (v_group viz) (entering ?key (map fst ?bars) level_data) (v_z viz) = (nb, z)"
    by fastforce
  obtain nt z' where nt: "enter_bars d3 level ''barsForTooltip '' (v_group viz) (entering ?key (map fst ?tips) level_data) z = (nt, z')"
    by fastforce
  have data: "map fst nb = entering ?key (map fst ?bars) level_data" "map fst nt = entering ?key (map fst ?tips) level_data"
    using enter_bars_data [of d3 level "''bar ''" "v_group viz" "entering ?key (map fst ?bars) level_data" "v_z viz"]
      enter_bars_data [of d3 level "''barsForTooltip ''" "v_group viz" "entering ?key (map fst ?tips) level_data" z]
    unfolding nb nt by simp_all
  let ?title = "\<lambda>d. format_number d3 (e_value d (v_subgroup viz)) @ '' in '' @ getFormattedDate' d3 level d"
  let ?viz = "viz\<lparr>v_z := z',
       v_bars := map (draw_bar (v_height viz) ?sc) (updated ?key ?bars level_data @ nb),
       v_tips := map (draw_tip ?title (v_height viz) ?sc) (updated ?key ?tips level_data @ nt)\<rparr>"
  have load: "loadData' d3 p viz level = Some ?viz"
    unfolding loadData'_def assms by (simp only: Let_def Option.bind.bind_lunit nb nt prod.case)
  have "map b_datum (v_bars ?viz) = map fst (updated ?key ?bars level_data) @ map fst nb"
    "map (b_datum \<circ> t_bar) (v_tips ?viz) = map fst (updated ?key ?tips level_data) @ map fst nt"
    by (simp_all add: comp_def)
  then have disp: "displays d3 level level_data ?viz"
    unfolding displays_def data by (simp only: join_data)
  have bars: "v_bars ?viz = map (draw_bar (v_height viz) ?sc) (updated ?key ?bars level_data @ nb)"
    and same: "v_events ?viz = v_events viz" "v_subgroup ?viz = v_subgroup viz" by simp_all
  show thesis by (rule that [OF load disp same exI, OF bars])
qed


section \<open>The controls\<close>

inductive clicked :: "d3_lib \<Rightarrow> date \<Rightarrow> chart \<Rightarrow> chart \<Rightarrow> bool" for d3 p ch where
  start: "clicked d3 p ch ch"
| click: "clicked d3 p ch ch' \<Longrightarrow> click_control d3 p i ch' = Some ch'' \<Longrightarrow> clicked d3 p ch ch''"

definition chart_inv :: "d3_lib \<Rightarrow> source_events \<Rightarrow> level list \<Rightarrow> chart \<Rightarrow> bool" where
  "chart_inv d3 ev levels ch \<longleftrightarrow> v_events (ch_viz ch) = ev \<and> map c_level (ch_controls ch) = levels \<and>
     (\<forall>l \<in> set levels. getData' l ev \<noteq> None) \<and>
     (\<exists>i < length levels. (\<forall>j < length levels. c_active (ch_controls ch ! j) \<longleftrightarrow> j = i) \<and>
        (\<exists>ds. getData' (levels ! i) ev = Some ds \<and> displays d3 (levels ! i) ds (ch_viz ch)))"

lemma update_controls_simps [simp]:
  "length (update_controls i cs) = length cs"
  "map c_level (update_controls i cs) = map c_level cs"
  "j < length cs \<Longrightarrow> c_active (update_controls i cs ! j) \<longleftrightarrow> j = i"
proof -
  show "map c_level (update_controls i cs) = map c_level cs"
    by (rule nth_equalityI) (simp_all add: update_controls_def nth_enumerate_eq)
qed (simp_all add: update_controls_def nth_enumerate_eq)

lemma click_control_inv:
  assumes "chart_inv d3 ev levels ch"
  obtains ch' where "click_control d3 p i ch = Some ch'" "chart_inv d3 ev levels ch'"
proof (cases "i < length (ch_controls ch) \<and> \<not> c_active (ch_controls ch ! i)")
  case False
  then have "click_control d3 p i ch = Some ch" by (simp only: click_control_def if_False)
  then show ?thesis using that assms by blast
next
  case True
  let ?cs = "ch_controls ch"
  have levels: "levels = map c_level ?cs" and ev: "v_events (ch_viz ch) = ev" using assms by (simp_all add: chart_inv_def)
  have i: "i < length levels" and li: "levels ! i = c_level (?cs ! i)" using True by (simp_all add: levels)
  have all: "\<forall>l \<in> set levels. getData' l ev \<noteq> None"
    using assms by (simp add: chart_inv_def)
  then obtain ds where ds: "getData' (levels ! i) ev = Some ds" using nth_mem [OF i] by blast
  then obtain viz where viz: "loadData' d3 p (ch_viz ch) (levels ! i) = Some viz"
      "displays d3 (levels ! i) ds viz" "v_events viz = ev"
    using loadData_displays ev by metis
  let ?ch = "\<lparr>ch_viz = viz, ch_controls = update_controls i ?cs\<rparr>"
  have "click_control d3 p i ch = Some ?ch" using True viz(1) by (simp add: click_control_def li)
  moreover have "\<forall>j < length levels. c_active (update_controls i ?cs ! j) \<longleftrightarrow> j = i" by (simp add: levels)
  then have "chart_inv d3 ev levels ?ch"
    using all ds viz(2) i by (auto simp: chart_inv_def viz(3) levels [symmetric])
  ultimately show ?thesis using that by simp
qed

lemma clicked_inv:
  assumes "clicked d3 p ch ch'" "chart_inv d3 ev levels ch"
  shows "chart_inv d3 ev levels ch'"
  using assms
proof induction
  case (click ch' i ch'')
  then show ?case using click_control_inv [of d3 ev levels ch' p i] by fastforce
qed simp

lemma choose_finest: "choose_level shows = find_first shows [Day, Month, Year]"
  by (simp add: choose_level_def Let_def)

lemma level_controls_levels: "map c_level (level_controls shows level) = filter shows [Day, Month, Year]"
  by (simp add: level_controls_def)

lemma level_controls_active:
  assumes "choose_level shows = Some l" and j: "j < length (filter shows [Day, Month, Year])"
  shows "filter shows [Day, Month, Year] ! 0 = l" "c_active (level_controls shows (Some l) ! j) \<longleftrightarrow> j = 0"
proof -
  show "filter shows [Day, Month, Year] ! 0 = l"
    using assms(1) by (simp add: choose_finest split: if_splits)
  have "j = 0 \<or> j = 1 \<or> j = 2" using j by (auto split: if_splits)
  then show "c_active (level_controls shows (Some l) ! j) \<longleftrightarrow> j = 0"
    using assms by (cases "shows Day"; cases "shows Month"; cases "shows Year")
      (auto simp: choose_finest level_controls_def)
qed

definition shown_levels :: "d3_lib \<Rightarrow> min_items \<Rightarrow> date \<Rightarrow> source_events \<Rightarrow> string \<Rightarrow> level list" where
  "shown_levels d3 m p events subgroup =
     filter (\<lambda>l. check_level d3 m (Some p) events subgroup l = Some True) [Day, Month, Year]"

lemma check_level_data: "check_level d3 m p events subgroup l = Some True \<Longrightarrow> getData' l events \<noteq> None"
  by (cases "getData' l events") (simp_all add: check_level_def)

lemma check_level_total: "\<exists>b. check_level d3 m (Some p) events subgroup l = Some b"
  by (auto simp: check_level_def split: option.splits)


section \<open>Rows\<close>

lemma getViz_simps [simp]:
  "v_events (getViz' a b c ev) = ev" "v_subgroup (getViz' a b c ev) = c"
  by (simp_all add: getViz'_def)

lemma first_chart:
  assumes level: "choose_level shows = Some l" and data: "\<And>k. shows k \<Longrightarrow> getData' k (v_events viz) \<noteq> None"
  obtains viz' where "loadData' d3 p viz l = Some viz'"
    "chart_inv d3 (v_events viz) (filter shows [Day, Month, Year]) \<lparr>ch_viz = viz', ch_controls = level_controls shows (Some l)\<rparr>"
    "c_active (level_controls shows (Some l) ! 0)"
proof -
  let ?ls = "filter shows [Day, Month, Year]"
  have ne: "0 < length ?ls" and l: "shows l" using level by (auto simp: choose_finest split: if_splits)
  note first = level_controls_active [OF level]
  from data [OF l] obtain ds where ds: "getData' l (v_events viz) = Some ds" by blast
  then obtain viz' where viz': "loadData' d3 p viz l = Some viz'" "displays d3 l ds viz'" "v_events viz' = v_events viz"
    using loadData_displays by metis
  have shown: "\<forall>k \<in> set ?ls. getData' k (v_events viz) \<noteq> None" using data unfolding set_filter by blast
  have disp: "getData' (?ls ! 0) (v_events viz) = Some ds \<and> displays d3 (?ls ! 0) ds viz'"
    unfolding first(1) [OF ne] using ds viz'(2) by simp
  have "chart_inv d3 (v_events viz) ?ls \<lparr>ch_viz = viz', ch_controls = level_controls shows (Some l)\<rparr>"
    unfolding chart_inv_def chart.simps level_controls_levels
    using viz'(3) first(2) ne shown disp by blast
  then show thesis using that viz'(1) first(2) [OF ne] by blast
qed

lemma addSource_row:
  obtains row where "addSource' d3 m baseUrl (Some p) source label events n grp subgroup = Some row"
    "sr_chart row = None \<longleftrightarrow> \<not> has_svg d3 \<or> shown_levels d3 m p events subgroup = []"
    "\<And>ch. sr_chart row = Some ch \<Longrightarrow> chart_inv d3 events (shown_levels d3 m p events subgroup) ch \<and> c_active (ch_controls ch ! 0)"
    "sr_id row = ''source-'' @ s_id source @ ''-'' @ subgroup"
    "sr_class row = (if sr_chart row = None then ''alm-source'' else ''alm-source with-chart'')"
proof (cases "has_svg d3")
  case False
  then show ?thesis using that by (simp add: addSource'_def source_row_def)
next
  case True
  let ?check = "check_level d3 m (Some p) events subgroup"
  obtain y mo da where checks: "?check Year = Some y" "?check Month = Some mo" "?check Day = Some da"
    using check_level_total by metis
  define "shows" where "shows l = (case l of Year \<Rightarrow> y | Month \<Rightarrow> mo | Day \<Rightarrow> da)" for l
  have eta: "shows = case_level da mo y" by (rule ext) (simp add: shows_def)
  have checked: "?check l = Some (shows l)" for l by (cases l) (simp_all add: checks shows_def)
  have levels: "shown_levels d3 m p events subgroup = filter shows [Day, Month, Year]"
    by (simp add: shown_levels_def checked)
  let ?row = "source_row d3 baseUrl source label events n grp subgroup"
  let ?viz = "getViz' (s_id source) (g_id grp) subgroup events"
  have row: "addSource' d3 m baseUrl (Some p) source label events n grp subgroup = (case choose_level shows of
      None \<Rightarrow> Some ?row
    | Some l \<Rightarrow> do { viz \<leftarrow> loadData' d3 p ?viz l;
        Some (?row\<lparr>sr_class := ''alm-source with-chart'',
          sr_chart := Some \<lparr>ch_viz = viz, ch_controls = level_controls shows (Some l)\<rparr>\<rparr>) })"
    using True by (simp add: addSource'_def Let_def checks eta split: option.split)
  show ?thesis
  proof (cases "choose_level shows")
    case None
    then have "filter shows [Day, Month, Year] = []" by (simp add: choose_finest split: if_splits)
    then show ?thesis using that [of ?row] row None by (simp add: levels source_row_def)
  next
    case (Some l)
    have data: "getData' k (v_events ?viz) \<noteq> None" if "shows k" for k
      using that check_level_data [of d3 m "Some p" events subgroup k] by (simp add: checked)
    obtain viz where load: "loadData' d3 p ?viz l = Some viz"
      and inv: "chart_inv d3 events (filter shows [Day, Month, Year]) \<lparr>ch_viz = viz, ch_controls = level_controls shows (Some l)\<rparr>"
      and active: "c_active (level_controls shows (Some l) ! 0)"
      using first_chart [OF Some data] by (metis getViz_simps(1))
    let ?ch = "\<lparr>ch_viz = viz, ch_controls = level_controls shows (Some l)\<rparr>"
    have ne: "filter shows [Day, Month, Year] \<noteq> []" using Some by (auto simp: choose_finest split: if_splits)
    have "addSource' d3 m baseUrl (Some p) source label events n grp subgroup =
        Some (?row\<lparr>sr_class := ''alm-source with-chart'', sr_chart := Some ?ch\<rparr>)"
      by (simp only: row Some load option.case Option.bind.bind_lunit)
    then show ?thesis
      by (rule that) (use True ne inv active in \<open>simp_all add: levels source_row_def del: filter.simps\<close>)
  qed
qed


section \<open>Groups\<close>

lemma one_active: "chart_inv d3 ev levels ch \<Longrightarrow> length (filter c_active (ch_controls ch)) = 1"
proof -
  assume inv: "chart_inv d3 ev levels ch"
  then obtain i where "i < length (ch_controls ch)" "\<forall>j < length (ch_controls ch). c_active (ch_controls ch ! j) \<longleftrightarrow> j = i"
    unfolding chart_inv_def by (metis length_map)
  then have "{j. j < length (ch_controls ch) \<and> c_active (ch_controls ch ! j)} = {i}" by auto
  then show ?thesis by (simp add: length_filter_conv_card)
qed

definition wf_row :: "source_row \<Rightarrow> bool" where
  "wf_row r = (case sr_chart r of
       None \<Rightarrow> sr_class r = ''alm-source''
     | Some ch \<Rightarrow> sr_class r = ''alm-source with-chart'' \<and> length (filter c_active (ch_controls ch)) = 1 \<and>
         c_active (hd (ch_controls ch)) \<and>
         sorted_wrt (\<lambda>a b. (a, b) \<in> {(Day, Month), (Day, Year), (Month, Year)}) (map c_level (ch_controls ch)))"

lemma addSource_wf:
  obtains row where "addSource' d3 m baseUrl (Some p) source label events n grp subgroup = Some row" "wf_row row"
proof -
  obtain row where row: "addSource' d3 m baseUrl (Some p) source label events n grp subgroup = Some row"
    and chart: "\<And>ch. sr_chart row = Some ch \<Longrightarrow>
      chart_inv d3 events (shown_levels d3 m p events subgroup) ch \<and> c_active (ch_controls ch ! 0)"
    and cls: "sr_class row = (if sr_chart row = None then ''alm-source'' else ''alm-source with-chart'')"
    using addSource_row [of d3 m baseUrl p source label events n grp subgroup] by blast
  have "wf_row row"
  proof (cases "sr_chart row")
    case (Some ch)
    from chart [OF this] have inv: "chart_inv d3 events (shown_levels d3 m p events subgroup) ch"
      and active: "c_active (ch_controls ch ! 0)" by auto
    then have "map c_level (ch_controls ch) = shown_levels d3 m p events subgroup" by (simp add: chart_inv_def)
    moreover have "ch_controls ch \<noteq> []" using one_active [OF inv] by auto
    ultimately show ?thesis using Some cls one_active [OF inv] active
      by (simp add: wf_row_def hd_conv_nth shown_levels_def)
  qed (use cls in \<open>simp add: wf_row_def\<close>)
  then show thesis using that row by blast
qed

lemma add_events_wf:
  obtains rows where "add_events d3 m baseUrl (Some p) grp source events = Some rows" "\<forall>r \<in> set rows. wf_row r"
proof -
  let ?add = "\<lambda>label n subgroup. addSource' d3 m baseUrl (Some p) source label events n grp subgroup"
  have one: "\<exists>r. ?add label n subgroup = Some r \<and> wf_row r" for label n subgroup
    using addSource_wf by metis
  obtain h where h: "?add (s_title source @ '' HTML'') (ev_html events) ''html'' = Some h" "wf_row h" using one by blast
  obtain q where q: "?add (s_title source @ '' PDF'') (ev_pdf events) ''pdf'' = Some q" "wf_row q" using one by blast
  obtain t where t: "?add (s_title source) (ev_total events) ''total'' = Some t" "wf_row t" using one by blast
  have "\<exists>rows. add_events d3 m baseUrl (Some p) grp source events = Some rows \<and> (\<forall>r \<in> set rows. wf_row r)"
    using h q t by (simp add: add_events_def)
  then show thesis using that by blast
qed

definition missing :: "source_events list \<Rightarrow> source list \<Rightarrow> group_info \<Rightarrow> bool" where
  "missing data sources grp \<longleftrightarrow> (\<exists>s \<in> set sources. s_group_id s = g_id grp \<and> s_id s \<notin> ev_source_id ` set data)"

definition counted :: "source_events list \<Rightarrow> source list \<Rightarrow> group_info \<Rightarrow> bool" where
  "counted data sources grp \<longleftrightarrow> (\<exists>s \<in> set sources. s_group_id s = g_id grp \<and>
     (\<exists>e. find_first (\<lambda>d. ev_source_id d = s_id s) data = Some e \<and> ev_total e \<noteq> 0))"

definition wf_group :: "string \<Rightarrow> group_row \<Rightarrow> bool" where
  "wf_group i r \<longleftrightarrow> gr_id r = ''group-'' @ i \<and> (\<forall>s \<in> set (gr_sources r). wf_row s)"

lemma find_entry_none: "find_first (\<lambda>d. ev_source_id d = i) data = None \<longleftrightarrow> i \<notin> ev_source_id ` set data"
  by (auto simp: find_first_none)

lemma addGroup_from_missing:
  "addGroup_from d3 m baseUrl (Some p) grp data sources row = None \<longleftrightarrow> missing data sources grp"
proof (induction sources arbitrary: row)
  case (Cons s sources)
  have rows: "\<exists>rows. add_events d3 m baseUrl (Some p) grp s events = Some rows" for events
    using add_events_wf [of d3 m baseUrl p grp s events] by blast
  have missing: "missing data (s # sources) grp \<longleftrightarrow>
      (s_group_id s = g_id grp \<and> find_first (\<lambda>d. ev_source_id d = s_id s) data = None) \<or> missing data sources grp"
    by (simp add: missing_def find_entry_none)
  show ?case
  proof (cases "find_first (\<lambda>d. ev_source_id d = s_id s) data")
    case (Some events)
    then show ?thesis using rows [of events] by (auto simp add: missing Cons.IH)
  qed (simp add: missing Cons.IH)
qed (simp add: missing_def)

lemma addGroup_from_wf:
  assumes "addGroup_from d3 m baseUrl (Some p) grp data sources row = Some row'"
    "\<forall>r. row = Some r \<longrightarrow> wf_group (g_id grp) r"
  shows "(row' \<noteq> None \<longleftrightarrow> row \<noteq> None \<or> counted data sources grp) \<and> (\<forall>r. row' = Some r \<longrightarrow> wf_group (g_id grp) r)"
  using assms
proof (induction sources arbitrary: row)
  case (Cons s sources)
  let ?e = "find_first (\<lambda>d. ev_source_id d = s_id s) data"
  have counted: "counted data (s # sources) grp \<longleftrightarrow>
      (s_group_id s = g_id grp \<and> (\<exists>e. ?e = Some e \<and> ev_total e \<noteq> 0)) \<or> counted data sources grp"
    by (auto simp: counted_def)
  show ?case
  proof (cases "s_group_id s = g_id grp \<and> (\<exists>e. ?e = Some e \<and> ev_total e \<noteq> 0)")
    case True
    then obtain e where e: "s_group_id s = g_id grp" "?e = Some e" "ev_total e \<noteq> 0" by blast
    obtain rows where rows: "add_events d3 m baseUrl (Some p) grp s e = Some rows" "\<forall>r \<in> set rows. wf_row r"
      by (rule add_events_wf)
    define r where "r = (case row of None \<Rightarrow> \<lparr>gr_id = ''group-'' @ g_id grp, gr_sources = rows\<rparr>
        | Some r \<Rightarrow> r\<lparr>gr_sources := gr_sources r @ rows\<rparr>)"
    have "addGroup_from d3 m baseUrl (Some p) grp data sources (Some r) = Some row'"
      using Cons.prems(1) e rows(1) by (simp add: r_def)
    moreover have "wf_group (g_id grp) r"
      using Cons.prems(2) rows(2) by (auto simp: r_def wf_group_def split: option.splits)
    ultimately show ?thesis unfolding counted using Cons.IH [of "Some r"] True by blast
  next
    case False
    then have "addGroup_from d3 m baseUrl (Some p) grp data sources row = Some row'"
      using Cons.prems(1) by (auto split: option.splits if_splits)
    from Cons.IH [OF this Cons.prems(2)] show ?thesis unfolding counted using False by blast
  qed
qed (simp add: counted_def)

definition source_entries :: "d3_lib \<Rightarrow> source_events list \<Rightarrow> source \<Rightarrow> (string \<times> string) list" where
  \<comment> \<open>the labels and counts that a source contributes to the row of its group\<close>
  "source_entries d3 data s = (case find_first (\<lambda>d. ev_source_id d = s_id s) data of
       None \<Rightarrow> []
     | Some e \<Rightarrow>
         if ev_total e = 0 then []
         else if s_group_id s = ''viewed'' then
           (if ev_html e > 0 then [(s_title s @ '' HTML'', format_number d3 (ev_html e))] else []) @
           (if ev_pdf e > 0 then [(s_title s @ '' PDF'', format_number d3 (ev_pdf e))] else [])
         else [(s_title s, format_number d3 (ev_total e))])"

definition group_entries :: "d3_lib \<Rightarrow> source_events list \<Rightarrow> source list \<Rightarrow> group_info \<Rightarrow> (string \<times> string) list" where
  "group_entries d3 data sources grp = concat (map (source_entries d3 data) (filter (\<lambda>s. s_group_id s = g_id grp) sources))"

definition row_entries :: "group_row \<Rightarrow> (string \<times> string) list" where
  "row_entries r = map (\<lambda>s. (sr_label s, sr_count s)) (gr_sources r)"

lemma addSource_entry:
  "addSource' d3 m baseUrl pd source label events n grp subgroup = Some row \<Longrightarrow> sr_label row = label \<and> sr_count row = format_number d3 n"
  by (auto simp: addSource'_def source_row_def Let_def Option.bind_eq_Some_conv split: if_splits option.splits)

lemma add_events_entries:
  assumes "add_events d3 m baseUrl pd grp s e = Some rows" "find_first (\<lambda>d. ev_source_id d = s_id s) data = Some e" "ev_total e \<noteq> 0"
  shows "map (\<lambda>s. (sr_label s, sr_count s)) rows = source_entries d3 data s"
  using assms by (auto simp: add_events_def source_entries_def Option.bind_eq_Some_conv dest!: addSource_entry split: if_splits)

lemma addGroup_from_entries:
  assumes "addGroup_from d3 m baseUrl (Some p) grp data sources row = Some (Some r')"
  shows "row_entries r' = (case row of None \<Rightarrow> [] | Some r \<Rightarrow> row_entries r) @ group_entries d3 data sources grp"
  using assms
proof (induction sources arbitrary: row)
  case Nil
  then show ?case by (simp add: group_entries_def)
next
  case (Cons s sources)
  let ?e = "find_first (\<lambda>d. ev_source_id d = s_id s) data"
  show ?case
  proof (cases "s_group_id s = g_id grp \<and> (\<exists>e. ?e = Some e \<and> ev_total e \<noteq> 0)")
    case True
    then obtain e where e: "s_group_id s = g_id grp" "?e = Some e" "ev_total e \<noteq> 0" by blast
    obtain rows where rows: "add_events d3 m baseUrl (Some p) grp s e = Some rows" by (rule add_events_wf)
    note ent = add_events_entries [OF rows e(2,3)]
    show ?thesis
      using Cons.IH [of "Some (case row of None \<Rightarrow> \<lparr>gr_id = ''group-'' @ g_id grp, gr_sources = rows\<rparr> | Some r \<Rightarrow> r\<lparr>gr_sources := gr_sources r @ rows\<rparr>)"]
        Cons.prems e rows ent by (cases row) (simp_all add: row_entries_def group_entries_def)
  next
    case False
    then have "addGroup_from d3 m baseUrl (Some p) grp data sources row = Some (Some r')"
      using Cons.prems by (auto split: option.splits if_splits)
    moreover have "group_entries d3 data (s # sources) grp = group_entries d3 data sources grp"
      using False by (auto simp: group_entries_def source_entries_def split: option.split)
    ultimately show ?thesis using Cons.IH by simp
  qed
qed

lemma max_value_Max: "xs \<noteq> [] \<Longrightarrow> max_value xs = Some (Max (set xs))"
proof (cases xs)
  case (Cons x ys)
  have "foldl max x ys = fold max ys x" by (simp add: foldl_conv_fold max.commute)
  also have "\<dots> = Max (set (x # ys))" by (rule Max.set_eq_fold [symmetric])
  finally show ?thesis by (simp add: Cons)
qed simp

lemma first_by_subset: "set (first_by key xs) \<subseteq> set xs"
  by (induction xs) auto

lemma bar_width_bounds:
  assumes "0 \<le> w"
  shows "1 \<le> bar_width w n" "of_nat (n + 1) * bar_width w n \<le> max w (of_nat (n + 1))"
proof -
  let ?n = "of_nat (n + 1) :: rat"
  have n: "0 < ?n" by simp
  then have "?n * (w / ?n) = w" by simp
  then have "?n * (w / ?n - w / ?n / 5) = w - w / 5" by (simp only: right_diff_distrib times_divide_eq_right)
  then have "?n * bar_width w n = max (w - w / 5) ?n"
    using n unfolding bar_width_def Let_def by (simp only: max_mult_distrib_left mult_1_right less_imp_le if_True)
  then show "?n * bar_width w n \<le> max w ?n" using assms by (auto simp: max_def)
  show "1 \<le> bar_width w n" by (simp add: bar_width_def Let_def)
qed

lemma add_groups_none: "add_groups add gs = None \<longleftrightarrow> (\<exists>g \<in> set gs. add g = None)"
proof (induction gs)
  case (Cons g gs)
  then show ?case by (cases "add g"; cases "add_groups add gs") simp_all
qed simp

lemma add_groups_rows:
  assumes "add_groups add gs = Some rows"
    "\<And>g row. g \<in> set gs \<Longrightarrow> add g = Some row \<Longrightarrow> (row \<noteq> None \<longleftrightarrow> Q g) \<and> (\<forall>r. row = Some r \<longrightarrow> P g r)"
  shows "list_all2 P (filter Q gs) rows"
  using assms
proof (induction gs arbitrary: rows)
  case (Cons g gs)
  then obtain row rows' where add: "add g = Some row" and rest: "add_groups add gs = Some rows'"
    and rows: "rows = (case row of Some r \<Rightarrow> r # rows' | None \<Rightarrow> rows')"
    by (cases "add g"; cases "add_groups add gs") auto
  have "list_all2 P (filter Q gs) rows'" using Cons.IH [OF rest] Cons.prems(2) by simp
  then show ?case using Cons.prems(2) [of g row] add rows by (cases row) auto
qed simp

lemma initViz_add:
  assumes "length (o_parts o') \<in> {1, 2, 3}" "o_data o' = Some (e # es)"
  obtains p where "initViz d3 parse o' = do {
    rows \<leftarrow> add_groups (addGroup' d3 (o_minItems o') (o_baseUrl o') (Some p) (o_sources o') (e # es))
      (filter (\<lambda>g. g_id g \<noteq> ''other'') (o_groups o'));
    Some \<lparr>p_rows = rows, p_message = (if rows = [] then Some ''No events found.'' else None)\<rparr> }"
proof -
  have "\<not> (length (o_parts o') = 0 \<or> length (o_parts o') > 3)" using assms(1) by auto
  then obtain p where "fst (datePartsToDate parse (o_parts o')) = Some p"
    unfolding datePartsToDate_def by (simp only: if_False Let_def fst_conv)
  then show thesis using that [of p] by (simp add: initViz_def assms(2))
qed

lemma initViz_none:
  assumes "length (o_parts o') \<in> {1, 2, 3}" "o_data o' = Some (e # es)"
  shows "initViz d3 parse o' = None \<longleftrightarrow>
    (\<exists>grp \<in> set (o_groups o'). g_id grp \<noteq> ''other'' \<and> missing (e # es) (o_sources o') grp)"
proof -
  obtain p where p: "initViz d3 parse o' = do {
    rows \<leftarrow> add_groups (addGroup' d3 (o_minItems o') (o_baseUrl o') (Some p) (o_sources o') (e # es))
      (filter (\<lambda>g. g_id g \<noteq> ''other'') (o_groups o'));
    Some \<lparr>p_rows = rows, p_message = (if rows = [] then Some ''No events found.'' else None)\<rparr> }"
    using initViz_add [OF assms, of d3 parse] by blast
  show ?thesis unfolding p by (auto simp: Option.bind_eq_None_conv add_groups_none addGroup'_def addGroup_from_missing)
qed

section \<open>A sample page\<close>

definition sample_interval :: interval where
  "sample_interval = \<lparr>i_range = (\<lambda>a b. case (a, b) of (Some a, Some b) \<Rightarrow> nat (b - a) | _ \<Rightarrow> 0),
     i_floor = (\<lambda>t. t), i_offset = (\<lambda>t n. map_option (\<lambda>t. t + int n) t)\<rparr>"

definition sample_d3 :: d3_lib where
  \<comment> \<open>one unit of time for every interval\<close>
  "sample_d3 = \<lparr>year_utc = sample_interval, month_utc = sample_interval, day_utc = sample_interval,
     year_ceil = (\<lambda>t. t), weekOfYear = (\<lambda>_. 1), new_date = (\<lambda>y m d. Some (400 * y + 32 * m + d)),
     time_scale = (\<lambda>s e w t. case (s, e, t) of (Some s, Some e, Some t) \<Rightarrow> w * of_int (t - s) / of_int (e - s) | _ \<Rightarrow> 0), linear_scale = (\<lambda>m h v. h - h * of_int v / of_int m),
     format_number = (\<lambda>_. []), format_Y = (\<lambda>_. []), format_bY = (\<lambda>_. []), format_dbY = (\<lambda>_. []),
     has_svg = True, now = Some 40\<rparr>"

definition sample_events :: source_events where
  "sample_events =
     (let d = (\<lambda>m day n. \<lparr>e_year = 2015, e_month = m, e_day = day, e_value = (\<lambda>_. n)\<rparr>) in
      \<lparr>ev_source_id = ''twitter'', ev_total = 3, ev_html = 0, ev_pdf = 0, ev_events_url = None,
       ev_by_year = Some [d None None 3], ev_by_month = None, ev_by_day = Some [d (Some 4) (Some 1) 1, d (Some 4) (Some 2) 2]\<rparr>)"

definition sample_options :: options where
  "sample_options = default_options\<lparr>o_parts := [Num 2015, Num 4, Num 1],
     o_sources := [\<lparr>s_id = ''twitter'', s_title = ''Twitter'', s_group_id = ''discussed''\<rparr>],
     o_groups := [\<lparr>g_id = ''discussed''\<rparr>, \<lparr>g_id = ''other''\<rparr>], o_data := Some [sample_events]\<rparr>"

lemma sample_svg: "has_svg sample_d3"
  by (simp add: sample_d3_def)

lemma sample_levels: "shown_levels sample_d3 (o_minItems default_options) (Some 0) sample_events ''total'' = [Day, Year]"
  by (simp add: shown_levels_def check_level_def getData'_def sample_events_def level_total_def min_events_def
      min_spans_def default_options_def getTimeInterval'_def sample_d3_def sample_interval_def Let_def)

section \<open>Properties\<close>

text \<open>
  C35: however the reader clicks, a chart has one control for each level that can be shown, from days to years,
  exactly one of them is active, the bars and their tooltips are those of the data of that level, one for each
  date, and no further click throws. At first the finest level is active.
\<close>

theorem chart_clicks:
  assumes "addSource' d3 m baseUrl (Some p) source label events n grp subgroup = Some row" "sr_chart row = Some ch0"
    "clicked d3 p ch0 ch"
  shows "let levels = shown_levels d3 m p events subgroup in
    map c_level (ch_controls ch) = levels \<and> c_active (ch_controls ch0 ! 0) \<and>
    (\<exists>i < length levels. (\<forall>j < length levels. c_active (ch_controls ch ! j) \<longleftrightarrow> j = i) \<and>
      (\<exists>ds. getData' (levels ! i) events = Some ds \<and>
        mset (map b_datum (v_bars (ch_viz ch))) = mset (first_by (getDate' d3 (levels ! i)) ds) \<and>
        mset (map (b_datum \<circ> t_bar) (v_tips (ch_viz ch))) = mset (first_by (getDate' d3 (levels ! i)) ds))) \<and>
    (\<forall>i. click_control d3 p i ch \<noteq> None)"
proof -
  let ?levels = "shown_levels d3 m p events subgroup"
  have ch0: "chart_inv d3 events ?levels ch0 \<and> c_active (ch_controls ch0 ! 0)"
    using addSource_row [of d3 m baseUrl p source label events n grp subgroup] assms(1,2) by (metis option.inject)
  then have inv: "chart_inv d3 events ?levels ch" using clicked_inv [OF assms(3)] by blast
  then have "\<forall>i. click_control d3 p i ch \<noteq> None" using click_control_inv by (metis option.distinct(1))
  with inv ch0 show ?thesis unfolding chart_inv_def displays_def Let_def by blast
qed

theorem chart_clicks_witness:
  "\<exists>row ch0 ch. addSource' sample_d3 (o_minItems default_options) [] (Some (Some 0)) (hd (o_sources sample_options))
       ''Twitter'' sample_events 3 \<lparr>g_id = ''discussed''\<rparr> ''total'' = Some row \<and> sr_chart row = Some ch0 \<and>
     click_control sample_d3 (Some 0) 1 ch0 = Some ch \<and> map c_level (ch_controls ch) = [Day, Year] \<and>
     c_active (ch_controls ch0 ! 0) \<and> (\<forall>i. click_control sample_d3 (Some 0) i ch \<noteq> None)"
proof -
  let ?src = "hd (o_sources sample_options)" and ?g = "\<lparr>g_id = ''discussed''\<rparr>"
  obtain row where row: "addSource' sample_d3 (o_minItems default_options) [] (Some (Some 0)) ?src ''Twitter'' sample_events 3 ?g ''total'' = Some row"
    and "sr_chart row \<noteq> None"
    and inv: "\<And>ch. sr_chart row = Some ch \<Longrightarrow> chart_inv sample_d3 sample_events [Day, Year] ch"
    using addSource_row [of sample_d3 "o_minItems default_options" "[]" "Some 0" ?src "''Twitter''" sample_events 3 ?g "''total''"]
      sample_svg
    unfolding sample_levels by (metis list.distinct(1))
  then obtain ch0 where ch0: "sr_chart row = Some ch0" by blast
  obtain ch where ch: "click_control sample_d3 (Some 0) 1 ch0 = Some ch" using click_control_inv [OF inv [OF ch0]] by blast
  have "clicked sample_d3 (Some 0) ch0 ch" using clicked.click [OF clicked.start ch] .
  note clicks = chart_clicks [OF row ch0 this, unfolded sample_levels Let_def]
  show ?thesis
    by (rule exI [of _ row], rule exI [of _ ch0], rule exI [of _ ch]) (use row ch0 ch clicks in simp)
qed

text \<open>
  C37: the chart is made for every date that can be parsed, and it throws exactly when a source of a shown group
  has no entry in the data, or when there are no data at all.
\<close>

theorem initViz_throws:
  assumes "length (o_parts o') \<in> {1, 2, 3}"
  shows "initViz d3 parse o' = None \<longleftrightarrow> (case o_data o' of
      None \<Rightarrow> True
    | Some data \<Rightarrow> data = [] \<or> (\<exists>grp \<in> set (o_groups o'). g_id grp \<noteq> ''other'' \<and> missing data (o_sources o') grp))"
proof (cases "o_data o'")
  case (Some data)
  then show ?thesis using initViz_none [OF assms, of _ _ d3 parse] by (cases data) (simp_all add: initViz_def)
qed (simp add: initViz_def)

theorem initViz_throws_witness:
  "initViz sample_d3 (\<lambda>_. Some 0) (sample_options\<lparr>o_data := Some [sample_events\<lparr>ev_source_id := ''reddit''\<rparr>]\<rparr>) = None \<and>
   initViz sample_d3 (\<lambda>_. Some 0) sample_options \<noteq> None"
proof -
  let ?o = "sample_options\<lparr>o_data := Some [sample_events\<lparr>ev_source_id := ''reddit''\<rparr>]\<rparr>"
  have len: "length (o_parts ?o) \<in> {1, 2, 3}" "length (o_parts sample_options) \<in> {1, 2, 3}" by (simp_all add: sample_options_def)
  show ?thesis
    unfolding initViz_throws [OF len(1)] initViz_throws [OF len(2)]
    by (simp add: sample_options_def sample_events_def missing_def Let_def)
qed

text \<open>
  C36: the panel is well formed: it has one row for each group, in the order of the groups and without \<^verbatim>\<open>other\<close>,
  that has a source whose total is not zero; the row of a group lists its sources with a total in order, each with its title and
  count, or with its HTML and PDF counts if they are positive in the group of views; the row of a source has the class \<^verbatim>\<open>with-chart\<close> exactly when it
  has a chart, whose controls go from fine to coarse with the first one active; the message is there exactly when
  there is no row.
\<close>

theorem initViz_wf:
  assumes "length (o_parts o') \<in> {1, 2, 3}" "o_data o' = Some data" "initViz d3 parse o' = Some panel"
  shows "list_all2 (\<lambda>grp row. wf_group (g_id grp) row \<and> row_entries row = group_entries d3 data (o_sources o') grp)
      (filter (counted data (o_sources o')) (filter (\<lambda>grp. g_id grp \<noteq> ''other'') (o_groups o'))) (p_rows panel) \<and>
    (p_message panel = None \<longleftrightarrow> p_rows panel \<noteq> [])"
proof -
  obtain e es where data: "data = e # es" using assms(2,3) by (cases data) (simp_all add: initViz_def)
  let ?gs = "filter (\<lambda>g. g_id g \<noteq> ''other'') (o_groups o')"
  obtain p where p: "initViz d3 parse o' = do {
      rows \<leftarrow> add_groups (addGroup' d3 (o_minItems o') (o_baseUrl o') (Some p) (o_sources o') data) ?gs;
      Some \<lparr>p_rows = rows, p_message = (if rows = [] then Some ''No events found.'' else None)\<rparr> }"
    using initViz_add [OF assms(1), of e es d3 parse] assms(2) data by blast
  obtain rows where rows: "add_groups (addGroup' d3 (o_minItems o') (o_baseUrl o') (Some p) (o_sources o') data) ?gs = Some rows"
    and panel: "panel = \<lparr>p_rows = rows, p_message = (if rows = [] then Some ''No events found.'' else None)\<rparr>"
    using assms(3) unfolding p Option.bind_eq_Some_conv by auto
  have "list_all2 (\<lambda>grp row. wf_group (g_id grp) row \<and> row_entries row = group_entries d3 data (o_sources o') grp)
      (filter (counted data (o_sources o')) ?gs) rows"
    using rows
  proof (rule add_groups_rows)
    fix grp row
    assume "addGroup' d3 (o_minItems o') (o_baseUrl o') (Some p) (o_sources o') data grp = Some row"
    then have add: "addGroup_from d3 (o_minItems o') (o_baseUrl o') (Some p) grp data (o_sources o') None = Some row" by (simp add: addGroup'_def)
    show "(row \<noteq> None \<longleftrightarrow> counted data (o_sources o') grp) \<and>
        (\<forall>r. row = Some r \<longrightarrow> wf_group (g_id grp) r \<and> row_entries r = group_entries d3 data (o_sources o') grp)"
      using addGroup_from_wf [OF add] addGroup_from_entries [of d3 _ _ p grp data "o_sources o'" None] add by auto
  qed
  then show ?thesis by (simp add: panel)
qed

theorem initViz_wf_witness:
  "\<exists>panel r. initViz sample_d3 (\<lambda>_. Some 0) sample_options = Some panel \<and> p_rows panel = [r] \<and>
     wf_group ''discussed'' r \<and> map sr_label (gr_sources r) = [''Twitter''] \<and> p_message panel = None"
proof -
  let ?data = "[sample_events]"
  have len: "length (o_parts sample_options) \<in> {1, 2, 3}" and data: "o_data sample_options = Some ?data"
    by (simp_all add: sample_options_def)
  have "\<not> missing ?data (o_sources sample_options) g" for g
    by (simp add: missing_def sample_options_def sample_events_def Let_def)
  then have "initViz sample_d3 (\<lambda>_. Some 0) sample_options \<noteq> None"
    by (simp add: initViz_none [OF len data])
  then obtain panel where panel: "initViz sample_d3 (\<lambda>_. Some 0) sample_options = Some panel" by blast
  have "filter (counted ?data (o_sources sample_options)) (filter (\<lambda>grp. g_id grp \<noteq> ''other'') (o_groups sample_options)) =
      [\<lparr>g_id = ''discussed''\<rparr>]"
    by (simp add: counted_def sample_options_def sample_events_def Let_def)
  with initViz_wf [OF len data panel] obtain r where r: "p_rows panel = [r]" "wf_group ''discussed'' r" "p_message panel = None"
    "row_entries r = group_entries sample_d3 ?data (o_sources sample_options) \<lparr>g_id = ''discussed''\<rparr>"
    by (auto simp: list_all2_Cons1)
  have "map fst (group_entries sample_d3 ?data (o_sources sample_options) \<lparr>g_id = ''discussed''\<rparr>) = [''Twitter'']"
    by (simp add: group_entries_def source_entries_def sample_options_def sample_events_def Let_def)
  then have "map sr_label (gr_sources r) = [''Twitter'']" unfolding r(4) [symmetric] by (simp add: row_entries_def o_def)
  then show ?thesis using r(1-3) panel by (intro exI [of _ panel] exI [of _ r]) simp
qed

text \<open>
  C38: with the linear scales of \<^verbatim>\<open>d3\<close>, and values that are not negative and not all zero, the bars of a level stand on the
  lower edge of the plot and reach at most its upper edge, with heights proportional to the values, the largest of which fills
  the plot; two pixels to the left of a bar lies the place of its date in the proportion of the time from the start to the end of the
  axis; a bar is at least one pixel wide, and as many bars as there are intervals and one more are together not wider than the
  plot if it has a pixel for each.
\<close>

theorem bars_scaled:
  assumes scale: "\<And>m h v. 0 < m \<Longrightarrow> linear_scale d3 m h v = h - h * of_int v / of_int m"
    and tscale: "\<And>s e w t. s < e \<Longrightarrow> time_scale d3 (Some s) (Some e) w (Some t) = w * of_int (t - s) / of_int (e - s)"
    and axis: "i_floor (getTimeInterval' d3 level) p = Some s" "end_date d3 p level = Some e" "s < e"
    and load: "getData' level (v_events viz) = Some ds" "loadData' d3 p viz level = Some viz'"
    and vals: "\<forall>d \<in> set ds. 0 \<le> e_value d (v_subgroup viz)" "\<exists>d \<in> set ds. 0 < e_value d (v_subgroup viz)"
    and size: "0 \<le> v_height viz" "0 \<le> v_width viz"
    and b: "b \<in> set (v_bars viz')"
  shows "b_y b + b_height b = v_height viz \<and> 0 \<le> b_y b \<and> 0 \<le> b_height b \<and>
    b_height b * of_int (Max ((\<lambda>d. e_value d (v_subgroup viz)) ` set ds)) = v_height viz * of_int (e_value (b_datum b) (v_subgroup viz)) \<and>
    (\<forall>t. getDate' d3 level (b_datum b) = Some t \<longrightarrow> (b_x b - 2) * of_int (e - s) = v_width viz * of_int (t - s)) \<and>
    1 \<le> b_width b \<and>
    (let n = i_range (getTimeInterval' d3 level) p (end_date d3 p level) in
     of_nat (n + 1) * b_width b \<le> max (v_width viz) (of_nat (n + 1)))"
proof -
  let ?v = "\<lambda>d. e_value d (v_subgroup viz)" and ?sc = "scales d3 p viz level ds"
  define m where "m = Max (?v ` set ds)"
  define n where "n = i_range (getTimeInterval' d3 level) p (end_date d3 p level)"
  obtain es where es: "v_bars viz' = map (draw_bar (v_height viz) ?sc) es" and disp: "displays d3 level ds viz'"
    using loadData_displays [OF load(1), of d3 p] load(2) by (metis option.inject)
  then obtain d c where dc: "b = draw_bar (v_height viz) ?sc (d, c)" using b by auto
  have "b_datum b \<in> set (map b_datum (v_bars viz'))" using b by simp
  then have "b_datum b \<in> set (first_by (getDate' d3 level) ds)"
    using disp mset_eq_setD unfolding displays_def by blast
  then have d: "d \<in> set ds" using first_by_subset by (fastforce simp: dc)
  have vm: "?v e \<le> m" if "e \<in> set ds" for e using that by (simp add: m_def)
  have m: "0 < m" using vals(2) vm by force
  have "max_value (map ?v ds) = Some m" using max_value_Max [of "map ?v ds"] d by (force simp: m_def)
  then have b: "b = \<lparr>b_datum = d, b_class = c, b_x = fst ?sc d + 2, b_width = bar_width (v_width viz) n,
      b_y = v_height viz - v_height viz * of_int (?v d) / of_int m,
      b_height = v_height viz * of_int (?v d) / of_int m\<rparr>"
    by (simp add: dc draw_bar_def scales_def Let_def scale [OF m] n_def)
  have "0 \<le> v_height viz * of_int (?v d) / of_int m"
    using size(1) vals(1) d m by simp
  moreover have "v_height viz * of_int (?v d) \<le> v_height viz * of_int m"
    using size(1) vm [OF d] by (simp add: mult_left_mono)
  then have "v_height viz * of_int (?v d) / of_int m \<le> v_height viz" using m by (simp add: pos_divide_le_eq)
  moreover have "(b_x b - 2) * of_int (e - s) = v_width viz * of_int (t - s)" if "getDate' d3 level (b_datum b) = Some t" for t
    using that axis tscale by (simp add: b scales_def Let_def)
  ultimately show ?thesis
    unfolding m_def [symmetric] n_def [symmetric] Let_def
    using bar_width_bounds [OF size(2), of n] m by (simp add: b del: of_nat_add)
qed

theorem bars_scaled_witness:
  "\<exists>viz b. loadData' sample_d3 (Some 0) (getViz' ''twitter'' ''discussed'' ''total'' sample_events) Day = Some viz \<and>
     b \<in> set (v_bars viz) \<and> b_y b + b_height b = 100 \<and> 0 \<le> b_y b \<and> 0 \<le> b_height b \<and> 1 \<le> b_width b \<and>
     (\<exists>t. getDate' sample_d3 Day (b_datum b) = Some t \<and> (b_x b - 2) * 29 = 690 * of_int t)"
proof -
  let ?viz = "getViz' ''twitter'' ''discussed'' ''total'' sample_events"
  obtain ds where ds: "getData' Day (v_events ?viz) = Some ds" "ds \<noteq> []" "\<forall>d \<in> set ds. 0 < e_value d (v_subgroup ?viz)"
    "\<forall>d \<in> set ds. \<exists>t. getDate' sample_d3 Day d = Some t"
    by (simp add: getData'_def sample_events_def getDate'_def sample_d3_def Let_def)
  obtain viz where viz: "loadData' sample_d3 (Some 0) ?viz Day = Some viz" "displays sample_d3 Day ds viz"
    using loadData_displays [OF ds(1)] by metis
  obtain e es where "ds = e # es" using ds(2) by (cases ds) auto
  then have "v_bars viz \<noteq> []" using viz(2) by (auto simp: displays_def)
  then obtain b where b: "b \<in> set (v_bars viz)" by (cases "v_bars viz") auto
  have scale: "linear_scale sample_d3 m h v = h - h * of_int v / of_int m" for m h v by (simp add: sample_d3_def)
  have size: "0 \<le> v_height ?viz" "0 \<le> v_width ?viz" "v_height ?viz = 100" by (simp_all add: getViz'_def)
  have tscale: "time_scale sample_d3 (Some s) (Some e) w (Some t) = w * of_int (t - s) / of_int (e - s)" for s e w t by (simp add: sample_d3_def)
  have axis: "i_floor (getTimeInterval' sample_d3 Day) (Some 0) = Some 0" "end_date sample_d3 (Some 0) Day = Some 29" "(0 :: int) < 29"
    by (simp_all add: getTimeInterval'_def end_date_def sample_d3_def sample_interval_def)
  have vals: "\<forall>d \<in> set ds. 0 \<le> e_value d (v_subgroup ?viz)" "\<exists>d \<in> set ds. 0 < e_value d (v_subgroup ?viz)"
    using ds(2,3) by (auto intro: less_imp_le last_in_set)
  have "b_datum b \<in> set (map b_datum (v_bars viz))" using b by simp
  then have "b_datum b \<in> set (first_by (getDate' sample_d3 Day) ds)" using viz(2) mset_eq_setD unfolding displays_def by blast
  then have "b_datum b \<in> set ds" using first_by_subset by fastforce
  then obtain t where t: "getDate' sample_d3 Day (b_datum b) = Some t" using ds(4) by blast
  have width: "v_width ?viz = 690" by (simp add: getViz'_def)
  note bar = bars_scaled [OF scale tscale axis ds(1) viz(1) vals size(1,2) b, unfolded size(3) width]
  then have "\<exists>t. getDate' sample_d3 Day (b_datum b) = Some t \<and> (b_x b - 2) * 29 = 690 * of_int t" using t by simp
  then show ?thesis using bar viz(1) b by blast
qed

end
