(* ===== verification/Spec2Isabelle.thy ===== *)
theory Spec2Isabelle
  imports Cf_Core Cf_Records Queue_Js Js_Pages Js_Bootpag Es5_Date Es5_Array Es5_String Js_Almviz
begin

text \<open>
  Verification of the browser code of Lagotto, the application that collects and shows events around scholarly
  works (\<^verbatim>\<open>src/app/assets/javascripts\<close>).

  \<^bold>\<open>The program.\<close> A page script asks the JSON API for its data through \<^verbatim>\<open>queue.js\<close>, formats them with
  \<^verbatim>\<open>d3_helpers.js\<close> and changes the document; lists are divided into pages by \<^verbatim>\<open>jquery.bootpag.js\<close>, charts are
  drawn by \<^verbatim>\<open>works/events.js\<close>. \<^verbatim>\<open>crossfilter.js\<close> keeps the records of a chart page sorted, filtered and grouped
  along several dimensions. \<^verbatim>\<open>es5-shim.js\<close> replaces missing or wrong built-in functions of the browser, on which
  all other scripts rely.

  \<^bold>\<open>Conventions.\<close> A JavaScript array is a list. A result of an option type is \<^const>\<open>None\<close> where the call does
  not return normally: it throws, it leaves an array, or it does not end; the theorems show that it is
  \<^const>\<open>Some\<close> where they apply. Where the kind of the error matters it is a value of its own (\<^typ>\<open>es5_error\<close>, and
  the error name of a \<^typ>\<open>run\<close>). Shared variables of closures are the fields of a record that is passed on. Numbers
  that serve as indices are natural numbers; where JavaScript goes through 32-bit integers or a typed array, the
  operation wraps as the source does (\<^const>\<open>ushr1\<close>, \<^const>\<open>sar1\<close>, \<^typ>\<open>uarray\<close>, filter words of type
  \<^typ>\<open>32 word\<close>). Values that crossfilter orders are of a linear order, so that \<^verbatim>\<open>NaN\<close> is not among them.
  A number that a script divides is a rational that \<^verbatim>\<open>Js_Double\<close> rounds to a double; in the charts and in the fraction of a
  second of \<^verbatim>\<open>Date.parse\<close> the arithmetic is exact.

  \<^bold>\<open>Crossfilter.\<close>
    \<^item> \<^verbatim>\<open>Cf_Bisect\<close>: \<^verbatim>\<open>crossfilter_bisect\<close>, \<^verbatim>\<open>permute\<close> and the three \<^verbatim>\<open>crossfilter_filter...\<close> functions. One
      locale of binary search is interpreted for both directions.
    \<^item> \<^verbatim>\<open>Cf_Heap\<close>: \<^verbatim>\<open>crossfilter_heap\<close> and \<^verbatim>\<open>crossfilter_heapselect\<close> with the heap invariant.
    \<^item> \<^verbatim>\<open>Cf_Sort\<close> and \<^verbatim>\<open>Cf_Quicksort\<close>: insertion sort and the dual-pivot quicksort. The three partition loops of the
      source are instances of one loop, whose correctness is a locale, interpreted for each of them.
    \<^item> \<^verbatim>\<open>Cf_Arrays\<close>: typed arrays, index constructors and default reductions.
    \<^item> \<^verbatim>\<open>Cf_Dimension\<close>, \<^verbatim>\<open>Cf_Group\<close>, \<^verbatim>\<open>Cf_Core\<close>: the functions of a dimension, of a group and of the crossfilter
      object with its listeners, in the order of the source.
    \<^item> \<^verbatim>\<open>Cf_Index\<close>, \<^verbatim>\<open>Cf_Filter\<close>, \<^verbatim>\<open>Cf_Records\<close>: what the sorted index and the filter bits of a dimension promise, and
      that adding records, removing records and every kind of filter keep it; what the listeners are told; the
      order of \<^verbatim>\<open>top\<close> and \<^verbatim>\<open>bottom\<close>.
  Sizes are bounded by \<open>2 ^ 30\<close> records, below which no index calculation of the source wraps.

  \<^bold>\<open>Queue.\<close> \<^verbatim>\<open>Queue_Js\<close> models \<^verbatim>\<open>queue.js\<close> as a step relation: deferring, awaiting and the callbacks of tasks,
  which may come at once or later. An invariant of the reachable states gives the bounds on running tasks, the single
  notification and progress.

  \<^bold>\<open>Pages.\<close> \<^verbatim>\<open>Js_String\<close> has the string functions and numerals that the pages use, \<^verbatim>\<open>D3_Helpers\<close> the helpers of
  \<^verbatim>\<open>d3_helpers.js\<close>. \<^verbatim>\<open>Js_Pages\<close> has the pages that list works, whose effect is the list of their changes of the
  document, and \<^verbatim>\<open>uniq\<close> of \<^verbatim>\<open>lodash.js\<close>, which they call. \<^verbatim>\<open>Js_Bootpag\<close> has the pagination bar as a list of elements with an invariant under clicks. \<^verbatim>\<open>Js_Almviz\<close>
  has the charts of events: rows, levels, the data join of the bars and the controls.

  \<^bold>\<open>Built-in functions.\<close> \<^verbatim>\<open>Es5_Number\<close> (\<^verbatim>\<open>toFixed\<close> and its digit arithmetic), \<^verbatim>\<open>Es5_Date\<close> (\<^verbatim>\<open>toISOString\<close>,
  \<^verbatim>\<open>Date.parse\<close>, the constructor), \<^verbatim>\<open>Es5_Array\<close> (iteration, reduction, search and \<^verbatim>\<open>splice\<close> on arrays with holes)
  and \<^verbatim>\<open>Es5_String\<close> (\<^verbatim>\<open>split\<close>, \<^verbatim>\<open>trim\<close>, \<^verbatim>\<open>lastIndexOf\<close> and others) model \<^verbatim>\<open>es5-shim.js\<close>; a callback takes and
  returns the heap, and may throw.

  \<^bold>\<open>Parameters.\<close> Code that is not part of the application is an argument of the definitions: the formats, time
  intervals and scales of \<^verbatim>\<open>d3\<close>, the clock, the native date parser, local time, and the matcher of a regular
  expression. What a property assumes about them is among its hypotheses.

  \<^bold>\<open>Loops.\<close> Loops over an index range are folds (\<^const>\<open>ofold\<close>, \<^const>\<open>run_each\<close>); others are functions with a
  termination proof, or partial functions with theorems that they return: \<^verbatim>\<open>bisectLeft\<close>, \<^verbatim>\<open>quicksort\<close>, the heap and
  others. Only the loop of \<^verbatim>\<open>split\<close> takes fuel, the length of the string and two rounds more; that it is enough for
  every matcher is a property of \<^verbatim>\<open>Es5_String\<close>.

  \<^bold>\<open>Not modelled.\<close> Third-party libraries (jQuery, the rest of lodash, d3, Bootstrap, jQuery UJS, swagger-ui); the chart pages and
  helpers that only draw (\<^verbatim>\<open>api_requests\<close>, \<^verbatim>\<open>status\<close>, \<^verbatim>\<open>bar_chart.js\<close>, \<^verbatim>\<open>donut_chart.js\<close>, \<^verbatim>\<open>sources/show.js\<close>,
  \<^verbatim>\<open>works/show.js\<close>) and \<^verbatim>\<open>sources/events.js\<close>, a reduced copy of \<^verbatim>\<open>works/events.js\<close>; \<^verbatim>\<open>Function.prototype.bind\<close> and
  the object functions of \<^verbatim>\<open>es5-shim.js\<close>, which depend on reflection; animated transitions, of which the final state
  counts; rounding of floating-point sums in reductions and of lengths in charts; tasks of a queue that throw or defer further
  tasks while they start.
\<close>

end
